(* ===== verification/LB_Prelude.thy ===== *)
theory LB_Prelude
  imports
    Main
    "HOL-Library.Word"
    "HOL-Library.Char_ord"
    "HOL-Library.List_Lexorder"
    "HOL-Library.Product_Lexorder"
    "HOL-Library.Sublist"
    "HOL-Library.Code_Target_Nat"
begin

text \<open>
  Shared vocabulary of the development.

  \<^item> Fixed-width arithmetic. Rust's \<open>u8\<close> to \<open>u64\<close> and \<open>usize\<close> are natural numbers; the
    operations that saturate or wrap are written out with their width.
  \<^item> \<open>std::time::Duration\<close> is a number of nanoseconds.
  \<^item> \<open>Result<T, E>\<close> is the sum \<open>E + T\<close>, with \<open>Err\<close> for \<open>Inl\<close> and \<open>Ok\<close> for \<open>Inr\<close>.
  \<^item> \<open>BTreeMap<K, V>\<close> is an association list in strictly increasing key order, so that
    iteration order, length and eviction order are those of the code.
  \<^item> \<open>VecDeque\<close> logs with a capacity are lists with the newest entry last.
  \<^item> \<open>String\<close> is the list of its UTF-8 bytes; \<open>Ord\<close> on strings is the bytewise order.
  \<^item> A machine run is \<open>foldl\<close> of a step function over a list of events; the locale
    \<open>invariant_machine\<close> lifts a one-step invariant to runs of admissible events.

  A poisoned mutex is recovered by \<open>into_inner\<close> everywhere in the code, so locking has no
  error path; each operation holds the lock for its whole critical section and is one
  atomic step of the model.
\<close>

named_theorems bt_simps \<open>lookup, length and order facts of the ordered maps\<close>
named_theorems width_simps \<open>bounds of the fixed-width operations\<close>

section \<open>Results\<close>

type_synonym ('a, 'e) result = "'e + 'a"

abbreviation Ok :: "'a \<Rightarrow> ('a, 'e) result" where "Ok \<equiv> Inr"
abbreviation Err :: "'e \<Rightarrow> ('a, 'e) result" where "Err \<equiv> Inl"

definition is_ok :: "('a, 'e) result \<Rightarrow> bool" where
  "is_ok r = (case r of Inl _ \<Rightarrow> False | Inr _ \<Rightarrow> True)"

lemma is_ok_simps [simp]: "is_ok (Inr a)" "\<not> is_ok (Inl e)"
  by (simp_all add: is_ok_def)

text \<open>The \<open>?\<close> operator: an error returns at once, a value is passed on.\<close>

definition and_then :: "('a, 'e) result \<Rightarrow> ('a \<Rightarrow> ('b, 'e) result) \<Rightarrow> ('b, 'e) result" where
  "and_then r f = (case r of Inl e \<Rightarrow> Inl e | Inr a \<Rightarrow> f a)"

lemma and_then_simps [simp]: "and_then (Inr a) f = f a" "and_then (Inl e) f = Inl e"
  by (simp_all add: and_then_def)

lemma and_then_eq_Ok: "and_then r f = Inr b \<longleftrightarrow> (\<exists>a. r = Inr a \<and> f a = Inr b)"
  by (cases r) simp_all

definition ok_or :: "'e \<Rightarrow> 'a option \<Rightarrow> ('a, 'e) result" where
  "ok_or e x = (case x of None \<Rightarrow> Inl e | Some a \<Rightarrow> Inr a)"

lemma ok_or_simps [simp]: "ok_or e None = Inl e" "ok_or e (Some a) = Inr a"
  by (simp_all add: ok_or_def)

section \<open>Fixed-width unsigned arithmetic\<close>

definition uint_max :: "nat \<Rightarrow> nat" where
  "uint_max w = 2 ^ w - 1"

definition sat_add :: "nat \<Rightarrow> nat \<Rightarrow> nat \<Rightarrow> nat" where
  "sat_add w a b = min (a + b) (uint_max w)"

definition sat_mul :: "nat \<Rightarrow> nat \<Rightarrow> nat \<Rightarrow> nat" where
  "sat_mul w a b = min (a * b) (uint_max w)"

text \<open>\<open>AtomicU64::fetch_add\<close> and \<open>as\<close> casts wrap around.\<close>

definition wrap_add :: "nat \<Rightarrow> nat \<Rightarrow> nat \<Rightarrow> nat" where
  "wrap_add w a b = (a + b) mod 2 ^ w"

definition cast_to :: "nat \<Rightarrow> nat \<Rightarrow> nat" where
  "cast_to w a = a mod 2 ^ w"

lemma sat_add_le_max [width_simps]: "sat_add w a b \<le> uint_max w"
  by (simp add: sat_add_def)

lemma sat_add_le_sum [width_simps]: "sat_add w a b \<le> a + b"
  by (simp add: sat_add_def)

lemma sat_add_ge_left [width_simps]: "a \<le> uint_max w \<Longrightarrow> a \<le> sat_add w a b"
  by (simp add: sat_add_def)

lemma sat_add_exact [width_simps]: "a + b \<le> uint_max w \<Longrightarrow> sat_add w a b = a + b"
  by (simp add: sat_add_def)

lemma sat_add_pos: "0 < w \<Longrightarrow> 0 < b \<Longrightarrow> 0 < sat_add w a b"
proof -
  assume "0 < w" "0 < b"
  moreover from \<open>0 < w\<close> have "(2::nat) ^ 1 \<le> 2 ^ w"
    by (intro power_increasing) simp_all
  ultimately show ?thesis by (simp add: sat_add_def uint_max_def)
qed

lemma wrap_add_less [width_simps]: "wrap_add w a b < 2 ^ w"
  by (simp add: wrap_add_def)

lemma wrap_add64_less [simp]: "wrap_add 64 a b < 18446744073709551616"
  using wrap_add_less [of 64 a b] by simp

lemma cast_to_le [width_simps]: "cast_to w a \<le> a"
  by (simp add: cast_to_def)

lemma cast_to_id [width_simps]: "a < 2 ^ w \<Longrightarrow> cast_to w a = a"
  by (simp add: cast_to_def)

section \<open>Durations\<close>

type_synonym duration = nat

definition secs :: "nat \<Rightarrow> duration" where
  "secs n = n * 1000000000"

definition as_millis :: "duration \<Rightarrow> nat" where
  "as_millis d = d div 1000000"

definition duration_max :: duration where
  "duration_max = uint_max 64 * 1000000000 + 999999999"

definition dur_saturating_add :: "duration \<Rightarrow> duration \<Rightarrow> duration" where
  "dur_saturating_add a b = min (a + b) duration_max"

text \<open>\<open>Duration::saturating_sub\<close> is subtraction on natural numbers.\<close>

lemma as_millis_mono: "a \<le> b \<Longrightarrow> as_millis a \<le> as_millis b"
  by (simp add: as_millis_def div_le_mono)

section \<open>Ordered maps\<close>

type_synonym ('k, 'v) btree_map = "('k \<times> 'v) list"

definition bt_ok :: "('k::linorder, 'v) btree_map \<Rightarrow> bool" where
  "bt_ok m = sorted_wrt (<) (map fst m)"

fun bt_insert :: "'k::linorder \<Rightarrow> 'v \<Rightarrow> ('k, 'v) btree_map \<Rightarrow> ('k, 'v) btree_map" where
  "bt_insert k v [] = [(k, v)]"
| "bt_insert k v (e # m) =
     (if fst e < k then e # bt_insert k v m
      else if fst e = k then (k, v) # m
      else (k, v) # e # m)"

definition bt_remove :: "'k::linorder \<Rightarrow> ('k, 'v) btree_map \<Rightarrow> ('k, 'v) btree_map" where
  "bt_remove k m = filter (\<lambda>e. fst e \<noteq> k) m"

definition bt_retain :: "('k::linorder \<Rightarrow> bool) \<Rightarrow> ('k, 'v) btree_map \<Rightarrow> ('k, 'v) btree_map" where
  "bt_retain P m = filter (\<lambda>e. P (fst e)) m"

definition bt_has :: "'k::linorder \<Rightarrow> ('k, 'v) btree_map \<Rightarrow> bool" where
  "bt_has k m = (map_of m k \<noteq> None)"

text \<open>\<open>*map.entry(k).or_insert(d)\<close> read, and written back through \<open>f\<close>.\<close>

definition bt_get_or :: "'k::linorder \<Rightarrow> 'v \<Rightarrow> ('k, 'v) btree_map \<Rightarrow> 'v" where
  "bt_get_or k d m = (case map_of m k of None \<Rightarrow> d | Some v \<Rightarrow> v)"

definition bt_entry ::
  "'k::linorder \<Rightarrow> 'v \<Rightarrow> ('v \<Rightarrow> 'v) \<Rightarrow> ('k, 'v) btree_map \<Rightarrow> ('k, 'v) btree_map" where
  "bt_entry k d f m = bt_insert k (f (bt_get_or k d m)) m"

lemma bt_ok_Nil [simp]: "bt_ok []"
  by (simp add: bt_ok_def)

lemma bt_ok_Cons: "bt_ok (e # m) \<longleftrightarrow> (\<forall>x\<in>set m. fst e < fst x) \<and> bt_ok m"
  by (auto simp: bt_ok_def)

lemma bt_ok_distinct: "bt_ok m \<Longrightarrow> distinct (map fst m)"
  by (induction m) (auto simp: bt_ok_Cons)

lemma set_fst_bt_insert [bt_simps]: "fst ` set (bt_insert k v m) = insert k (fst ` set m)"
  by (induction m) auto

lemma bt_insert_ok [bt_simps, intro]: "bt_ok m \<Longrightarrow> bt_ok (bt_insert k v m)"
proof (induction m)
  case Nil
  then show ?case by (simp add: bt_ok_Cons)
next
  case (Cons e m)
  have keys: "fst ` set (bt_insert k v m) = insert k (fst ` set m)"
    by (rule set_fst_bt_insert)
  show ?case
  proof (cases "fst e < k")
    case True
    have "\<forall>x\<in>set (bt_insert k v m). fst e < fst x"
    proof
      fix x assume "x \<in> set (bt_insert k v m)"
      then have "fst x \<in> insert k (fst ` set m)" using keys by blast
      with True Cons.prems show "fst e < fst x" by (auto simp: bt_ok_Cons)
    qed
    with True Cons show ?thesis by (simp add: bt_ok_Cons)
  next
    case False
    with Cons.prems show ?thesis by (auto simp: bt_ok_Cons)
  qed
qed

lemma map_of_bt_insert [bt_simps]:
  "bt_ok m \<Longrightarrow> map_of (bt_insert k v m) = (map_of m)(k \<mapsto> v)"
proof (induction m)
  case Nil
  then show ?case by (simp add: fun_eq_iff)
next
  case (Cons e m)
  obtain a b where e: "e = (a, b)" by (cases e)
  have "k \<notin> fst ` set m" if "k < a"
  proof
    assume "k \<in> fst ` set m"
    with Cons.prems e have "a < k" by (auto simp: bt_ok_Cons)
    with that show False by simp
  qed
  with Cons e show ?case
    by (auto simp: fun_eq_iff bt_ok_Cons not_less_iff_gr_or_eq)
qed

lemma bt_has_bt_insert [bt_simps]: "bt_ok m \<Longrightarrow> bt_has j (bt_insert k v m) \<longleftrightarrow> j = k \<or> bt_has j m"
  by (simp add: bt_has_def map_of_bt_insert)

lemma bt_has_iff: "bt_has k m \<longleftrightarrow> k \<in> fst ` set m"
  unfolding bt_has_def by (simp add: map_of_eq_None_iff)

lemma length_bt_insert [bt_simps]:
  "bt_ok m \<Longrightarrow> length (bt_insert k v m) = (if bt_has k m then length m else Suc (length m))"
proof -
  assume ok: "bt_ok m"
  have card_len: "length xs = card (fst ` set xs)" if "bt_ok xs" for xs :: "('a \<times> 'b) list"
    using distinct_card [OF bt_ok_distinct [OF that]] by simp
  have "length (bt_insert k v m) = card (insert k (fst ` set m))"
    using card_len [OF bt_insert_ok [OF ok]] by (simp add: set_fst_bt_insert)
  then show ?thesis
    using card_len [OF ok] by (auto simp: bt_has_iff insert_absorb)
qed

lemma bt_remove_ok [bt_simps, intro]: "bt_ok m \<Longrightarrow> bt_ok (bt_remove k m)"
  by (induction m) (auto simp: bt_remove_def bt_ok_Cons)

lemma bt_retain_ok [bt_simps, intro]: "bt_ok m \<Longrightarrow> bt_ok (bt_retain P m)"
  by (induction m) (auto simp: bt_retain_def bt_ok_Cons)

lemma map_of_bt_remove [bt_simps]: "map_of (bt_remove k m) = (map_of m)(k := None)"
  by (induction m) (auto simp: bt_remove_def fun_eq_iff)

lemma map_of_bt_retain [bt_simps]: "map_of (bt_retain P m) k = (if P k then map_of m k else None)"
  by (induction m) (auto simp: bt_retain_def)

lemma bt_has_bt_remove [bt_simps]: "bt_has j (bt_remove k m) \<longleftrightarrow> j \<noteq> k \<and> bt_has j m"
  by (simp add: bt_has_def map_of_bt_remove)

lemma length_bt_remove [bt_simps]:
  "bt_ok m \<Longrightarrow> length (bt_remove k m) = (if bt_has k m then length m - 1 else length m)"
proof (induction m)
  case Nil
  then show ?case by (simp add: bt_remove_def bt_has_def)
next
  case (Cons e m)
  have "filter (\<lambda>x. fst x \<noteq> k) m = m" if "fst e = k"
    using Cons.prems that by (intro filter_True) (auto simp: bt_ok_Cons)
  moreover have "0 < length m" if "bt_has k m"
    using that by (cases m) (auto simp: bt_has_def)
  ultimately show ?case
    using Cons by (auto simp: bt_remove_def bt_ok_Cons bt_has_iff)
qed

lemma length_bt_remove_le [bt_simps]: "length (bt_remove k m) \<le> length m"
  by (simp add: bt_remove_def)

lemma bt_entry_ok [bt_simps, intro]: "bt_ok m \<Longrightarrow> bt_ok (bt_entry k d f m)"
  by (simp add: bt_entry_def bt_insert_ok)

lemma map_of_bt_entry [bt_simps]:
  "bt_ok m \<Longrightarrow> map_of (bt_entry k d f m) = (map_of m)(k \<mapsto> f (bt_get_or k d m))"
  by (simp add: bt_entry_def map_of_bt_insert)

lemma bt_get_or_bt_entry [bt_simps]:
  "bt_ok m \<Longrightarrow> bt_get_or j d (bt_entry k d f m) = (if j = k then f (bt_get_or k d m) else bt_get_or j d m)"
  by (simp add: bt_get_or_def map_of_bt_entry)

lemma set_bt_insert: "bt_ok m \<Longrightarrow> set (bt_insert k v m) = insert (k, v) {e \<in> set m. fst e \<noteq> k}"
proof (induction m)
  case Nil
  then show ?case by simp
next
  case (Cons e m)
  then show ?case by (cases e) (auto simp: bt_ok_Cons)
qed

lemma bt_get_mem: "bt_ok m \<Longrightarrow> map_of m k = Some v \<longleftrightarrow> (k, v) \<in> set m"
  by (simp add: bt_ok_distinct)

text \<open>
  The interface of a map with a key set and a size, as the bounded tables of the code use
  it. The lemmas of the tables are proved from these laws.
\<close>

locale keyed_store =
  fixes ok :: "'m \<Rightarrow> bool"
    and get :: "'m \<Rightarrow> 'k \<Rightarrow> 'v option"
    and put :: "'k \<Rightarrow> 'v \<Rightarrow> 'm \<Rightarrow> 'm"
    and del :: "'k \<Rightarrow> 'm \<Rightarrow> 'm"
    and size_of :: "'m \<Rightarrow> nat"
  assumes put_ok: "ok m \<Longrightarrow> ok (put k v m)"
    and del_ok: "ok m \<Longrightarrow> ok (del k m)"
    and get_put: "ok m \<Longrightarrow> get (put k v m) = (get m)(k \<mapsto> v)"
    and get_del: "ok m \<Longrightarrow> get (del k m) = (get m)(k := None)"
    and size_put: "ok m \<Longrightarrow> size_of (put k v m) = (if get m k = None then Suc (size_of m) else size_of m)"
    and size_del: "ok m \<Longrightarrow> size_of (del k m) = (if get m k = None then size_of m else size_of m - 1)"
    and size_pos: "ok m \<Longrightarrow> get m k \<noteq> None \<Longrightarrow> 0 < size_of m"
begin

lemma put_del_get: "ok m \<Longrightarrow> get (del k (put k v m)) = (get m)(k := None)"
  by (simp add: put_ok get_del get_put)

lemma put_del_size:
  "ok m \<Longrightarrow> get m k = None \<Longrightarrow> size_of (del k (put k v m)) = size_of m"
  by (simp add: put_ok size_del size_put get_put)

lemma put_within: "ok m \<Longrightarrow> size_of m \<le> n \<Longrightarrow> (get m k = None \<Longrightarrow> size_of m < n) \<Longrightarrow>
    size_of (put k v m) \<le> n"
  by (auto simp: size_put)

lemma del_within: "ok m \<Longrightarrow> size_of m \<le> n \<Longrightarrow> size_of (del k m) \<le> n"
  by (auto simp: size_del)

end

interpretation bt: keyed_store bt_ok map_of bt_insert bt_remove length
proof
  fix m :: "('a \<times> 'b) list" and k v
  assume ok: "bt_ok m"
  show "bt_ok (bt_insert k v m)" "bt_ok (bt_remove k m)"
    using ok by blast+
  show "map_of (bt_insert k v m) = (map_of m)(k \<mapsto> v)"
    using ok by (rule map_of_bt_insert)
  show "map_of (bt_remove k m) = (map_of m)(k := None)"
    by (rule map_of_bt_remove)
  show "length (bt_insert k v m) = (if map_of m k = None then Suc (length m) else length m)"
    using ok by (simp add: length_bt_insert bt_has_def)
  show "length (bt_remove k m) = (if map_of m k = None then length m else length m - 1)"
    using ok by (simp add: length_bt_remove bt_has_def)
  show "0 < length m" if "map_of m k \<noteq> None"
    using that by (cases m) auto
qed

lemma filter_length_bt_insert:
  assumes "bt_ok m"
  shows "length (filter P (bt_insert k v m)) + (case map_of m k of None \<Rightarrow> 0 | Some w \<Rightarrow> of_bool (P (k, w)))
       = length (filter P m) + of_bool (P (k, v))"
  using assms
proof (induction m)
  case (Cons e m)
  have "map_of m k = None" if "k \<le> fst e"
    using Cons.prems that by (force simp: bt_ok_Cons map_of_eq_None_iff)
  with Cons show ?case
    by (cases e) (auto simp: bt_ok_Cons split: option.splits)
qed simp

section \<open>Logs with a capacity\<close>

definition push_bounded :: "nat \<Rightarrow> 'e list \<Rightarrow> 'e \<Rightarrow> 'e list" where
  "push_bounded cap log e = (if length log = cap then tl log else log) @ [e]"

lemma push_bounded_length: "0 < cap \<Longrightarrow> length log \<le> cap \<Longrightarrow> length (push_bounded cap log e) \<le> cap"
  by (auto simp: push_bounded_def)

lemma push_bounded_last [simp]: "last (push_bounded cap log e) = e"
  by (simp add: push_bounded_def)

lemma push_bounded_suffix: "suffix (push_bounded cap log e) (log @ [e])"
  by (cases log) (auto simp: push_bounded_def suffix_def)

section \<open>Positions in a vector\<close>

fun position :: "('a \<Rightarrow> bool) \<Rightarrow> 'a list \<Rightarrow> nat option" where
  "position P [] = None"
| "position P (x # xs) = (if P x then Some 0 else map_option Suc (position P xs))"

definition vec_remove :: "nat \<Rightarrow> 'a list \<Rightarrow> 'a list" where
  "vec_remove i xs = take i xs @ drop (Suc i) xs"

lemma position_Some:
  "position P xs = Some i \<Longrightarrow> i < length xs \<and> P (xs ! i) \<and> (\<forall>j<i. \<not> P (xs ! j))"
proof (induction xs arbitrary: i)
  case Nil
  then show ?case by simp
next
  case (Cons x xs)
  show ?case
  proof (cases "P x")
    case True
    with Cons.prems show ?thesis by simp
  next
    case False
    with Cons.prems obtain j where j: "position P xs = Some j" "i = Suc j" by auto
    from Cons.IH [OF j(1)] j(2) False show ?thesis by (auto simp: less_Suc_eq_0_disj)
  qed
qed

lemma position_None: "position P xs = None \<longleftrightarrow> (\<forall>x\<in>set xs. \<not> P x)"
  by (induction xs) auto

lemma position_append:
  "position P (xs @ ys) =
     (case position P xs of Some i \<Rightarrow> Some i | None \<Rightarrow> map_option (\<lambda>i. length xs + i) (position P ys))"
  by (induction xs; cases "position P ys") (auto split: option.splits)

lemma vec_remove_end [simp]: "vec_remove (length xs) (xs @ [x]) = xs"
  by (simp add: vec_remove_def)

lemma set_vec_remove: "set (vec_remove i xs) \<subseteq> set xs"
  by (auto simp: vec_remove_def dest: in_set_takeD in_set_dropD)

lemma distinct_vec_remove: "distinct (map f xs) \<Longrightarrow> distinct (map f (vec_remove i xs))"
proof -
  assume d: "distinct (map f xs)"
  have "map f (vec_remove i xs) = take i (map f xs) @ drop (Suc i) (map f xs)"
    by (simp add: vec_remove_def take_map drop_map)
  moreover have "set (take i (map f xs)) \<inter> set (drop (Suc i) (map f xs)) = {}"
    using d by (intro set_take_disj_set_drop_if_distinct) simp_all
  ultimately show ?thesis using d by simp
qed

lemma sort_key_strict:
  fixes f :: "'a \<Rightarrow> 'b::linorder"
  assumes "distinct (map f xs)"
  shows "sorted_wrt (<) (map f (sort_key f xs))"
  using assms by (simp add: strict_sorted_iff distinct_map)

section \<open>Machines and invariants\<close>

locale invariant_machine =
  fixes step :: "'s \<Rightarrow> 'e \<Rightarrow> 's"
    and admissible :: "'e \<Rightarrow> bool"
    and inv :: "'s \<Rightarrow> bool"
  assumes step_inv: "admissible e \<Longrightarrow> inv s \<Longrightarrow> inv (step s e)"
begin

lemma run_inv: "list_all admissible es \<Longrightarrow> inv s \<Longrightarrow> inv (foldl step s es)"
  by (induction es arbitrary: s) (simp_all add: step_inv)

end

section \<open>Strings\<close>

text \<open>
  The UTF-8 encodings of the code points with the Unicode property \<open>White_Space\<close>, which
  \<open>str::trim\<close> removes at both ends.
\<close>

definition white_space :: "string list" where
  "white_space =
     [[CHR 0x09], [CHR 0x0A], [CHR 0x0B], [CHR 0x0C], [CHR 0x0D], [CHR 0x20],
      [CHR 0xC2, CHR 0x85], [CHR 0xC2, CHR 0xA0], [CHR 0xE1, CHR 0x9A, CHR 0x80],
      [CHR 0xE2, CHR 0x80, CHR 0x80], [CHR 0xE2, CHR 0x80, CHR 0x81],
      [CHR 0xE2, CHR 0x80, CHR 0x82], [CHR 0xE2, CHR 0x80, CHR 0x83],
      [CHR 0xE2, CHR 0x80, CHR 0x84], [CHR 0xE2, CHR 0x80, CHR 0x85],
      [CHR 0xE2, CHR 0x80, CHR 0x86], [CHR 0xE2, CHR 0x80, CHR 0x87],
      [CHR 0xE2, CHR 0x80, CHR 0x88], [CHR 0xE2, CHR 0x80, CHR 0x89],
      [CHR 0xE2, CHR 0x80, CHR 0x8A], [CHR 0xE2, CHR 0x80, CHR 0xA8],
      [CHR 0xE2, CHR 0x80, CHR 0xA9], [CHR 0xE2, CHR 0x80, CHR 0xAF],
      [CHR 0xE2, CHR 0x81, CHR 0x9F], [CHR 0xE3, CHR 0x80, CHR 0x80]]"

text \<open>Every removal takes at least one byte, so the length of the string is enough fuel.\<close>

fun strip_front :: "nat \<Rightarrow> string list \<Rightarrow> string \<Rightarrow> string" where
  "strip_front 0 ws s = s"
| "strip_front (Suc n) ws s =
     (case find (\<lambda>w. prefix w s) ws of
        None \<Rightarrow> s
      | Some w \<Rightarrow> strip_front n ws (drop (length w) s))"

definition trim_start :: "string \<Rightarrow> string" where
  "trim_start s = strip_front (length s) white_space s"

definition trim_end :: "string \<Rightarrow> string" where
  "trim_end s = rev (strip_front (length s) (map rev white_space) (rev s))"

definition trim :: "string \<Rightarrow> string" where
  "trim s = trim_end (trim_start s)"

lemma strip_front_done:
  assumes "\<forall>w\<in>set ws. w \<noteq> []" and "length s \<le> n" and "w \<in> set ws"
  shows "\<not> prefix w (strip_front n ws s)"
  using assms(2)
proof (induction n arbitrary: s)
  case 0
  with assms(1,3) show ?case by auto
next
  case (Suc n)
  show ?case
  proof (cases "find (\<lambda>w. prefix w s) ws")
    case None
    then have "\<forall>v\<in>set ws. \<not> prefix v s" by (auto simp: find_None_iff)
    with None assms(3) show ?thesis by simp
  next
    case (Some v)
    then have "v \<in> set ws" "prefix v s" by (auto simp: find_Some_iff)
    with assms(1) have "v \<noteq> []" "length v \<le> length s" by (auto dest: prefix_length_le)
    with Suc.prems have "length (drop (length v) s) \<le> n" by (cases v) auto
    with Some Suc.IH show ?thesis by simp
  qed
qed

lemma trim_start_no_space: "w \<in> set white_space \<Longrightarrow> \<not> prefix w (trim_start s)"
  unfolding trim_start_def by (rule strip_front_done) (auto simp: white_space_def)

definition to_ascii_lowercase :: "string \<Rightarrow> string" where
  "to_ascii_lowercase s =
     map (\<lambda>c. if 65 \<le> (of_char c :: nat) \<and> (of_char c :: nat) \<le> 90
              then char_of ((of_char c :: nat) + 32) else c) s"

definition is_ascii_alphanumeric :: "char \<Rightarrow> bool" where
  "is_ascii_alphanumeric c \<longleftrightarrow>
     (let n = of_char c :: nat in 48 \<le> n \<and> n \<le> 57 \<or> 65 \<le> n \<and> n \<le> 90 \<or> 97 \<le> n \<and> n \<le> 122)"

text \<open>The decimal rendering of an unsigned integer by \<open>Display\<close>.\<close>

fun show_nat :: "nat \<Rightarrow> string" where
  "show_nat n =
     (if n < 10 then [char_of (48 + n)] else show_nat (n div 10) @ [char_of (48 + n mod 10)])"

declare show_nat.simps [simp del]

end
