(* ===== verification/Net_Core.thy ===== *)
theory Net_Core
  imports LB_Prelude
begin

text \<open>
  The crate \<open>net-core\<close>: IP and socket addresses, the validated upstream model (endpoint
  metadata, endpoints, clusters) and the listener configuration with its validation.

  Cluster names and endpoint identifiers are newtypes over \<open>String\<close> whose only constructor
  rejects a blank string; here they are strings, with the constructors as functions.
  An IPv4 address is a 32-bit word and an IPv6 address a 128-bit word. The flow label
  and scope id of an IPv6 socket address are not kept: no modelled code reads them.
\<close>

unbundle bit_operations_syntax

section \<open>Addresses\<close>

datatype ip_addr = V4 "32 word" | V6 "128 word"

record socket_addr =
  sa_ip :: ip_addr
  sa_port :: nat

definition to_ipv4_mapped :: "128 word \<Rightarrow> (32 word) option" where
  "to_ipv4_mapped a = (if drop_bit 32 a = 0xffff then Some (ucast a) else None)"

definition canonicalize_ip :: "ip_addr \<Rightarrow> ip_addr" where
  "canonicalize_ip ip =
     (case ip of
        V4 a \<Rightarrow> V4 a
      | V6 a \<Rightarrow> (case to_ipv4_mapped a of Some b \<Rightarrow> V4 b | None \<Rightarrow> V6 a))"

definition is_unspecified :: "ip_addr \<Rightarrow> bool" where
  "is_unspecified ip = (case ip of V4 a \<Rightarrow> a = 0 | V6 a \<Rightarrow> a = 0)"

definition is_ipv6 :: "ip_addr \<Rightarrow> bool" where
  "is_ipv6 ip = (case ip of V4 _ \<Rightarrow> False | V6 _ \<Rightarrow> True)"

section \<open>Upstream model\<close>

type_synonym cluster_name = string
type_synonym endpoint_id = string

definition MAX_METADATA_VALUE_LEN :: nat where
  "MAX_METADATA_VALUE_LEN = 64"

datatype upstream_model_error =
    EmptyClusterName
  | EmptyEndpointId
  | ZeroPort socket_addr
  | UnspecifiedAddress socket_addr
  | MetadataTooLong string nat
  | ZeroEndpointWeight
  | DuplicateEndpointId string

definition cluster_name_new :: "string \<Rightarrow> (cluster_name, upstream_model_error) result" where
  "cluster_name_new value = (if trim value = [] then Err EmptyClusterName else Ok value)"

definition endpoint_id_new :: "string \<Rightarrow> (endpoint_id, upstream_model_error) result" where
  "endpoint_id_new value = (if trim value = [] then Err EmptyEndpointId else Ok value)"

record endpoint_metadata =
  em_zone :: "string option"
  em_locality :: "string option"
  em_weight :: nat

definition endpoint_metadata_default :: endpoint_metadata where
  "endpoint_metadata_default = \<lparr>em_zone = None, em_locality = None, em_weight = 1\<rparr>"

definition validate_metadata_field ::
  "string \<Rightarrow> string option \<Rightarrow> (unit, upstream_model_error) result" where
  "validate_metadata_field field value =
     (case value of
        None \<Rightarrow> Ok ()
      | Some v \<Rightarrow> if MAX_METADATA_VALUE_LEN < length v
                  then Err (MetadataTooLong field MAX_METADATA_VALUE_LEN) else Ok ())"

definition metadata_validate :: "endpoint_metadata \<Rightarrow> (unit, upstream_model_error) result" where
  "metadata_validate md =
     and_then (validate_metadata_field ''zone'' (em_zone md)) (\<lambda>_.
     and_then (validate_metadata_field ''locality'' (em_locality md)) (\<lambda>_.
     if em_weight md = 0 then Err ZeroEndpointWeight else Ok ()))"

datatype endpoint_state = StateReady | StateDraining | StateUnavailable

definition state_is_ready :: "endpoint_state \<Rightarrow> bool" where
  "state_is_ready s = (s = StateReady)"

record upstream_endpoint =
  ep_id :: endpoint_id
  ep_address :: socket_addr
  ep_state :: endpoint_state
  ep_metadata :: endpoint_metadata

definition validate_endpoint_address :: "socket_addr \<Rightarrow> (unit, upstream_model_error) result" where
  "validate_endpoint_address address =
     (if sa_port address = 0 then Err (ZeroPort address)
      else if is_unspecified (sa_ip address) then Err (UnspecifiedAddress address)
      else Ok ())"

definition endpoint_new ::
  "endpoint_id \<Rightarrow> socket_addr \<Rightarrow> endpoint_state \<Rightarrow> endpoint_metadata \<Rightarrow>
     (upstream_endpoint, upstream_model_error) result" where
  "endpoint_new i address state md =
     and_then (validate_endpoint_address address) (\<lambda>_.
     and_then (metadata_validate md) (\<lambda>_.
     Ok \<lparr>ep_id = i, ep_address = address, ep_state = state, ep_metadata = md\<rparr>))"

definition with_state :: "upstream_endpoint \<Rightarrow> endpoint_state \<Rightarrow> upstream_endpoint" where
  "with_state ep state =
     \<lparr>ep_id = ep_id ep, ep_address = ep_address ep, ep_state = state, ep_metadata = ep_metadata ep\<rparr>"

definition endpoint_validate :: "upstream_endpoint \<Rightarrow> (unit, upstream_model_error) result" where
  "endpoint_validate ep =
     and_then (validate_endpoint_address (ep_address ep)) (\<lambda>_. metadata_validate (ep_metadata ep))"

datatype upstream_cluster_state =
    ClusterEmpty
  | ClusterUnavailable nat
  | ClusterReady nat nat

record upstream_cluster =
  cl_name :: cluster_name
  cl_endpoints :: "upstream_endpoint list"

fun uniqueness_loop ::
  "string set \<Rightarrow> upstream_endpoint list \<Rightarrow> (unit, upstream_model_error) result" where
  "uniqueness_loop seen [] = Ok ()"
| "uniqueness_loop seen (ep # eps) =
     and_then (endpoint_validate ep) (\<lambda>_.
     if ep_id ep \<in> seen then Err (DuplicateEndpointId (ep_id ep))
     else uniqueness_loop (insert (ep_id ep) seen) eps)"

definition validate_endpoint_uniqueness ::
  "upstream_endpoint list \<Rightarrow> (unit, upstream_model_error) result" where
  "validate_endpoint_uniqueness eps = uniqueness_loop {} eps"

definition cluster_new ::
  "cluster_name \<Rightarrow> upstream_endpoint list \<Rightarrow> (upstream_cluster, upstream_model_error) result" where
  "cluster_new name eps =
     and_then (validate_endpoint_uniqueness eps) (\<lambda>_. Ok \<lparr>cl_name = name, cl_endpoints = eps\<rparr>)"

definition cluster_state_of :: "upstream_cluster \<Rightarrow> upstream_cluster_state" where
  "cluster_state_of c =
     (let total = length (cl_endpoints c) in
      if total = 0 then ClusterEmpty
      else let ready = length (filter (\<lambda>ep. state_is_ready (ep_state ep)) (cl_endpoints c)) in
        if ready = 0 then ClusterUnavailable total else ClusterReady total ready)"

definition cluster_insert_endpoint ::
  "upstream_endpoint \<Rightarrow> upstream_cluster \<Rightarrow> (upstream_cluster, upstream_model_error) result" where
  "cluster_insert_endpoint ep c =
     and_then (endpoint_validate ep) (\<lambda>_.
     if list_ex (\<lambda>existing. ep_id existing = ep_id ep) (cl_endpoints c)
     then Err (DuplicateEndpointId (ep_id ep))
     else Ok (c\<lparr>cl_endpoints := cl_endpoints c @ [ep]\<rparr>))"

definition cluster_remove_endpoint ::
  "endpoint_id \<Rightarrow> upstream_cluster \<Rightarrow> upstream_endpoint option \<times> upstream_cluster" where
  "cluster_remove_endpoint i c =
     (case position (\<lambda>ep. ep_id ep = i) (cl_endpoints c) of
        None \<Rightarrow> (None, c)
      | Some index \<Rightarrow> (Some (cl_endpoints c ! index),
                       c\<lparr>cl_endpoints := vec_remove index (cl_endpoints c)\<rparr>))"

definition cluster_endpoint :: "upstream_cluster \<Rightarrow> endpoint_id \<Rightarrow> upstream_endpoint option" where
  "cluster_endpoint c i = find (\<lambda>ep. ep_id ep = i) (cl_endpoints c)"

definition cluster_set_endpoint_state ::
  "endpoint_id \<Rightarrow> endpoint_state \<Rightarrow> upstream_cluster \<Rightarrow> bool \<times> upstream_cluster" where
  "cluster_set_endpoint_state i state c =
     (case position (\<lambda>ep. ep_id ep = i) (cl_endpoints c) of
        None \<Rightarrow> (False, c)
      | Some index \<Rightarrow>
          if ep_state (cl_endpoints c ! index) = state then (False, c)
          else (True, c\<lparr>cl_endpoints :=
                 (cl_endpoints c)[index := with_state (cl_endpoints c ! index) state]\<rparr>))"

section \<open>Listener configuration\<close>

datatype listener_class = Public | Admin
datatype proxy_protocol_mode = ProxyDisabled | ProxyV1 | ProxyV2
datatype listener_bind_mode = SingleStack | DualStack | Ipv6Only

record tls_listener_config =
  tls_cert_path :: string
  tls_key_path :: string

record listener_config =
  lc_name :: string
  lc_class :: listener_class
  lc_bind_address :: socket_addr
  lc_bind_mode :: listener_bind_mode
  lc_max_connections :: nat
  lc_backlog :: nat
  lc_idle_timeout :: duration
  lc_drain_timeout :: duration
  lc_allow_unspecified_bind :: bool
  lc_proxy_protocol :: proxy_protocol_mode
  lc_tls_termination :: "tls_listener_config option"

datatype listener_config_error =
    EmptyName
  | ZeroMaxConnections
  | ZeroBacklog
  | UnspecifiedBindRequiresOptIn socket_addr
  | DualStackRequiresIpv6Bind socket_addr
  | DualStackRequiresIpv6Wildcard socket_addr
  | Ipv6OnlyRequiresIpv6Bind socket_addr
  | EmptyTlsCertificatePath
  | EmptyTlsPrivateKeyPath

definition tls_validate :: "tls_listener_config \<Rightarrow> (unit, listener_config_error) result" where
  "tls_validate tls =
     (if trim (tls_cert_path tls) = [] then Err EmptyTlsCertificatePath
      else if trim (tls_key_path tls) = [] then Err EmptyTlsPrivateKeyPath
      else Ok ())"

definition foundation_local :: "string \<Rightarrow> listener_class \<Rightarrow> listener_config" where
  "foundation_local name class =
     \<lparr>lc_name = name, lc_class = class,
      lc_bind_address = \<lparr>sa_ip = V4 0x7f000001, sa_port = 0\<rparr>,
      lc_bind_mode = SingleStack, lc_max_connections = 128, lc_backlog = 1024,
      lc_idle_timeout = secs 30, lc_drain_timeout = secs 5,
      lc_allow_unspecified_bind = False, lc_proxy_protocol = ProxyDisabled,
      lc_tls_termination = None\<rparr>"

definition bind_mode_validate :: "listener_config \<Rightarrow> (unit, listener_config_error) result" where
  "bind_mode_validate c =
     (case lc_bind_mode c of
        SingleStack \<Rightarrow> Ok ()
      | DualStack \<Rightarrow>
          if \<not> is_ipv6 (sa_ip (lc_bind_address c))
          then Err (DualStackRequiresIpv6Bind (lc_bind_address c))
          else if \<not> is_unspecified (sa_ip (lc_bind_address c))
          then Err (DualStackRequiresIpv6Wildcard (lc_bind_address c))
          else Ok ()
      | Ipv6Only \<Rightarrow>
          if \<not> is_ipv6 (sa_ip (lc_bind_address c))
          then Err (Ipv6OnlyRequiresIpv6Bind (lc_bind_address c))
          else Ok ())"

definition listener_validate :: "listener_config \<Rightarrow> (unit, listener_config_error) result" where
  "listener_validate c =
     (if trim (lc_name c) = [] then Err EmptyName
      else if lc_max_connections c = 0 then Err ZeroMaxConnections
      else if lc_backlog c = 0 then Err ZeroBacklog
      else if is_unspecified (sa_ip (lc_bind_address c)) \<and> \<not> lc_allow_unspecified_bind c
      then Err (UnspecifiedBindRequiresOptIn (lc_bind_address c))
      else and_then (bind_mode_validate c) (\<lambda>_.
        case lc_tls_termination c of None \<Rightarrow> Ok () | Some tls \<Rightarrow> tls_validate tls))"

section \<open>Addresses: canonical form\<close>

text \<open>\<open>::ffff:a.b.c.d\<close>, the address \<open>canonicalize_ip\<close> flattens.\<close>

definition ipv4_mapped :: "32 word \<Rightarrow> 128 word" where
  "ipv4_mapped a = push_bit 32 0xffff OR ucast a"

lemma drop_bit_ucast32: "drop_bit 32 (ucast (a::32 word) :: 128 word) = 0"
  by (rule bit_word_eqI) (auto simp: bit_simps dest: bit_imp_le_length)

lemma ucast_push_bit_or: "ucast (push_bit 32 x OR ucast a :: 128 word) = (a :: 32 word)"
  by (rule bit_word_eqI) (auto simp: bit_simps)

lemma to_ipv4_mapped_inverse: "to_ipv4_mapped (ipv4_mapped a) = Some a"
proof -
  have "drop_bit 32 (ipv4_mapped a) = 0xffff"
    by (simp add: ipv4_mapped_def drop_bit_or drop_bit_ucast32)
  moreover have "ucast (ipv4_mapped a) = a"
    unfolding ipv4_mapped_def by (rule ucast_push_bit_or)
  ultimately show ?thesis by (simp add: to_ipv4_mapped_def)
qed

lemma canonicalize_ip_idem: "canonicalize_ip (canonicalize_ip ip) = canonicalize_ip ip"
  by (auto simp: canonicalize_ip_def split: ip_addr.splits option.splits)

lemma canonicalize_ip_mapped: "canonicalize_ip (V6 (ipv4_mapped a)) = V4 a"
  by (simp add: canonicalize_ip_def to_ipv4_mapped_inverse)

section \<open>Well-formed clusters\<close>

definition cluster_wf :: "upstream_cluster \<Rightarrow> bool" where
  "cluster_wf c \<longleftrightarrow> distinct (map ep_id (cl_endpoints c)) \<and>
     (\<forall>ep\<in>set (cl_endpoints c). endpoint_validate ep = Ok ())"

lemma uniqueness_loop_Ok:
  "uniqueness_loop seen eps = Ok () \<longleftrightarrow>
     distinct (map ep_id eps) \<and> ep_id ` set eps \<inter> seen = {} \<and>
     (\<forall>ep\<in>set eps. endpoint_validate ep = Ok ())"
  by (induction seen eps rule: uniqueness_loop.induct) (auto simp: and_then_eq_Ok)

lemma cluster_new_Ok:
  "cluster_new name eps = Ok c \<longleftrightarrow> c = \<lparr>cl_name = name, cl_endpoints = eps\<rparr> \<and> cluster_wf c"
  by (auto simp: cluster_new_def and_then_eq_Ok validate_endpoint_uniqueness_def
      uniqueness_loop_Ok cluster_wf_def)

lemma endpoint_new_validates: "endpoint_new i a s md = Ok ep \<Longrightarrow> endpoint_validate ep = Ok ()"
  by (auto simp: endpoint_new_def endpoint_validate_def and_then_eq_Ok)

lemma cluster_insert_endpoint_wf:
  "cluster_wf c \<Longrightarrow> cluster_insert_endpoint ep c = Ok c' \<Longrightarrow> cluster_wf c'"
  by (fastforce simp: cluster_insert_endpoint_def cluster_wf_def and_then_eq_Ok list_ex_iff
      split: if_splits)

lemma cluster_remove_endpoint_wf:
  "cluster_wf c \<Longrightarrow> cluster_wf (snd (cluster_remove_endpoint i c))"
  using set_vec_remove
  by (fastforce simp: cluster_remove_endpoint_def cluster_wf_def distinct_vec_remove
      split: option.splits)

lemma map_ep_id_update:
  "i < length eps \<Longrightarrow> map ep_id (eps[i := with_state (eps ! i) st]) = map ep_id eps"
  by (simp add: map_update with_state_def list_update_same_conv)

lemma endpoint_validate_with_state [simp]: "endpoint_validate (with_state ep st) = endpoint_validate ep"
  by (simp add: endpoint_validate_def with_state_def)

lemma cluster_set_endpoint_state_wf:
  assumes "cluster_wf c"
  shows "cluster_wf (snd (cluster_set_endpoint_state i st c))"
proof (cases "position (\<lambda>ep. ep_id ep = i) (cl_endpoints c)")
  case None
  with assms show ?thesis by (simp add: cluster_set_endpoint_state_def)
next
  case (Some k)
  then have k: "k < length (cl_endpoints c)" by (auto dest: position_Some)
  let ?eps = "(cl_endpoints c)[k := with_state (cl_endpoints c ! k) st]"
  have "\<forall>ep\<in>set ?eps. endpoint_validate ep = Ok ()"
  proof
    fix ep assume "ep \<in> set ?eps"
    then have "ep = with_state (cl_endpoints c ! k) st \<or> ep \<in> set (cl_endpoints c)"
      using set_update_subset_insert by fastforce
    with assms k show "endpoint_validate ep = Ok ()" by (auto simp: cluster_wf_def)
  qed
  with assms Some k show ?thesis
    by (simp add: cluster_set_endpoint_state_def cluster_wf_def map_ep_id_update)
qed

lemma find_append_new:
  "\<forall>x\<in>set xs. \<not> P x \<Longrightarrow> find P (xs @ ys) = find P ys"
  by (induction xs) auto

lemma cluster_insert_lookup:
  "cluster_insert_endpoint ep c = Ok c' \<Longrightarrow> cluster_endpoint c' (ep_id ep) = Some ep"
  by (auto simp: cluster_insert_endpoint_def cluster_endpoint_def and_then_eq_Ok list_ex_iff
      find_append_new split: if_splits)

lemma cluster_insert_remove:
  assumes "cluster_insert_endpoint ep c = Ok c'"
  shows "cluster_remove_endpoint (ep_id ep) c' = (Some ep, c)"
proof -
  from assms have c': "c' = c\<lparr>cl_endpoints := cl_endpoints c @ [ep]\<rparr>"
    and fresh: "\<forall>x\<in>set (cl_endpoints c). ep_id x \<noteq> ep_id ep"
    by (auto simp: cluster_insert_endpoint_def and_then_eq_Ok list_ex_iff split: if_splits)
  have "position (\<lambda>x. ep_id x = ep_id ep) (cl_endpoints c) = None"
    using fresh by (simp add: position_None)
  then have "position (\<lambda>x. ep_id x = ep_id ep) (cl_endpoints c @ [ep]) = Some (length (cl_endpoints c))"
    by (simp add: position_append)
  then show ?thesis by (simp add: cluster_remove_endpoint_def c')
qed

section \<open>Listener validation\<close>

lemma listener_validate_Ok:
  "listener_validate c = Ok () \<longleftrightarrow>
     trim (lc_name c) \<noteq> [] \<and> 0 < lc_max_connections c \<and> 0 < lc_backlog c \<and>
     (is_unspecified (sa_ip (lc_bind_address c)) \<longrightarrow> lc_allow_unspecified_bind c) \<and>
     (lc_bind_mode c = DualStack \<longrightarrow> lc_bind_address c = \<lparr>sa_ip = V6 0, sa_port = sa_port (lc_bind_address c)\<rparr>) \<and>
     (lc_bind_mode c = Ipv6Only \<longrightarrow> is_ipv6 (sa_ip (lc_bind_address c))) \<and>
     (\<forall>tls. lc_tls_termination c = Some tls \<longrightarrow>
        trim (tls_cert_path tls) \<noteq> [] \<and> trim (tls_key_path tls) \<noteq> [])"
  by (cases "lc_bind_address c"; cases "sa_ip (lc_bind_address c)"; cases "lc_bind_mode c")
    (auto simp: listener_validate_def bind_mode_validate_def tls_validate_def is_ipv6_def
      is_unspecified_def split: option.splits if_splits)

end
