(* ===== verification/Endpoint_Registry.thy ===== *)
theory Endpoint_Registry
  imports Net_Core
begin

text \<open>
  \<open>EndpointRegistry\<close> of \<open>crates/runtime/src/upstream_registry.rs\<close>: the map from cluster
  names to clusters and the counter of rejected definitions. Each operation returns its
  result and the new registry. The registry refines a map from cluster names to maps from
  endpoint identifiers to endpoints (\<open>reg_view\<close>).
\<close>

datatype endpoint_registry_error =
    DuplicateCluster cluster_name
  | DuplicateEndpoint cluster_name endpoint_id
  | ClusterNotFound cluster_name
  | EndpointNotFound cluster_name endpoint_id
  | InvalidDefinition upstream_model_error

record endpoint_registry =
  er_clusters :: "(cluster_name, upstream_cluster) btree_map"
  er_invalid_definition_count :: nat

definition registry_new :: endpoint_registry where
  "registry_new = \<lparr>er_clusters = [], er_invalid_definition_count = 0\<rparr>"

definition increment_invalid_definition_count :: "endpoint_registry \<Rightarrow> endpoint_registry" where
  "increment_invalid_definition_count r =
     r\<lparr>er_invalid_definition_count := wrap_add 64 (er_invalid_definition_count r) 1\<rparr>"

definition reg_insert_cluster ::
  "upstream_cluster \<Rightarrow> endpoint_registry \<Rightarrow>
     (unit, endpoint_registry_error) result \<times> endpoint_registry" where
  "reg_insert_cluster c r =
     (if bt_has (cl_name c) (er_clusters r)
      then (Err (DuplicateCluster (cl_name c)), increment_invalid_definition_count r)
      else (Ok (), r\<lparr>er_clusters := bt_insert (cl_name c) c (er_clusters r)\<rparr>))"

definition reg_remove_cluster ::
  "cluster_name \<Rightarrow> endpoint_registry \<Rightarrow> upstream_cluster option \<times> endpoint_registry" where
  "reg_remove_cluster n r =
     (map_of (er_clusters r) n, r\<lparr>er_clusters := bt_remove n (er_clusters r)\<rparr>)"

definition reg_insert_endpoint ::
  "cluster_name \<Rightarrow> upstream_endpoint \<Rightarrow> endpoint_registry \<Rightarrow>
     (unit, endpoint_registry_error) result \<times> endpoint_registry" where
  "reg_insert_endpoint n ep r =
     (case map_of (er_clusters r) n of
        None \<Rightarrow> (Err (ClusterNotFound n), r)
      | Some c \<Rightarrow>
          (case cluster_insert_endpoint ep c of
             Inr c' \<Rightarrow> (Ok (), r\<lparr>er_clusters := bt_insert n c' (er_clusters r)\<rparr>)
           | Inl (DuplicateEndpointId _) \<Rightarrow>
               (Err (DuplicateEndpoint n (ep_id ep)), increment_invalid_definition_count r)
           | Inl e \<Rightarrow> (Err (InvalidDefinition e), increment_invalid_definition_count r)))"

definition reg_remove_endpoint ::
  "cluster_name \<Rightarrow> endpoint_id \<Rightarrow> endpoint_registry \<Rightarrow>
     (upstream_endpoint, endpoint_registry_error) result \<times> endpoint_registry" where
  "reg_remove_endpoint n i r =
     (case map_of (er_clusters r) n of
        None \<Rightarrow> (Err (ClusterNotFound n), r)
      | Some c \<Rightarrow>
          (case cluster_remove_endpoint i c of
             (removed, c') \<Rightarrow>
               (ok_or (EndpointNotFound n i) removed,
                r\<lparr>er_clusters := bt_insert n c' (er_clusters r)\<rparr>)))"

definition reg_set_endpoint_state ::
  "cluster_name \<Rightarrow> endpoint_id \<Rightarrow> endpoint_state \<Rightarrow> endpoint_registry \<Rightarrow>
     (unit, endpoint_registry_error) result \<times> endpoint_registry" where
  "reg_set_endpoint_state n i st r =
     (case map_of (er_clusters r) n of
        None \<Rightarrow> (Err (ClusterNotFound n), r)
      | Some c \<Rightarrow>
          (case cluster_set_endpoint_state i st c of
             (changed, c') \<Rightarrow>
               (if changed then Ok () else Err (EndpointNotFound n i),
                r\<lparr>er_clusters := bt_insert n c' (er_clusters r)\<rparr>)))"

definition reg_cluster :: "endpoint_registry \<Rightarrow> cluster_name \<Rightarrow> upstream_cluster option" where
  "reg_cluster r n = map_of (er_clusters r) n"

definition reg_cluster_state ::
  "endpoint_registry \<Rightarrow> cluster_name \<Rightarrow> (upstream_cluster_state, endpoint_registry_error) result" where
  "reg_cluster_state r n =
     and_then (ok_or (ClusterNotFound n) (map_of (er_clusters r) n)) (\<lambda>c. Ok (cluster_state_of c))"

record endpoint_registry_metrics =
  rm_cluster_count :: nat
  rm_endpoint_count :: nat
  rm_unavailable_endpoint_count :: nat
  rm_invalid_definition_count :: nat

definition reg_metrics :: "endpoint_registry \<Rightarrow> endpoint_registry_metrics" where
  "reg_metrics r =
     (let counts = fold (\<lambda>(_, c) (n, u).
            (n + length (cl_endpoints c),
             u + length (filter (\<lambda>ep. \<not> state_is_ready (ep_state ep)) (cl_endpoints c))))
          (er_clusters r) (0, 0)
      in \<lparr>rm_cluster_count = length (er_clusters r),
          rm_endpoint_count = fst counts,
          rm_unavailable_endpoint_count = snd counts,
          rm_invalid_definition_count = er_invalid_definition_count r\<rparr>)"

section \<open>Invariant\<close>

definition reg_wf :: "endpoint_registry \<Rightarrow> bool" where
  "reg_wf r \<longleftrightarrow> bt_ok (er_clusters r) \<and> er_invalid_definition_count r < 2 ^ 64 \<and>
     (\<forall>n c. map_of (er_clusters r) n = Some c \<longrightarrow> cl_name c = n \<and> cluster_wf c)"

lemma reg_wf_new: "reg_wf registry_new"
  by (simp add: reg_wf_def registry_new_def)

lemma reg_wf_increment [simp]: "reg_wf (increment_invalid_definition_count r) \<longleftrightarrow>
    reg_wf (r\<lparr>er_invalid_definition_count := 0\<rparr>)"
  by (simp add: reg_wf_def increment_invalid_definition_count_def wrap_add_less)

lemma reg_wf_reset: "reg_wf r \<Longrightarrow> reg_wf (r\<lparr>er_invalid_definition_count := 0\<rparr>)"
  by (simp add: reg_wf_def)

lemma reg_wf_cluster: "reg_wf r \<Longrightarrow> map_of (er_clusters r) n = Some c \<Longrightarrow> cluster_wf c \<and> cl_name c = n"
  by (simp add: reg_wf_def)

lemma reg_wf_put:
  "reg_wf r \<Longrightarrow> cluster_wf c \<Longrightarrow> cl_name c = n \<Longrightarrow>
     reg_wf (r\<lparr>er_clusters := bt_insert n c (er_clusters r)\<rparr>)"
  by (auto simp: reg_wf_def bt_insert_ok map_of_bt_insert)

lemma reg_insert_cluster_wf:
  "reg_wf r \<Longrightarrow> cluster_wf c \<Longrightarrow> reg_wf (snd (reg_insert_cluster c r))"
  by (auto simp: reg_insert_cluster_def reg_wf_put reg_wf_reset)

lemma reg_remove_cluster_wf: "reg_wf r \<Longrightarrow> reg_wf (snd (reg_remove_cluster n r))"
  by (auto simp: reg_remove_cluster_def reg_wf_def bt_remove_ok map_of_bt_remove split: if_splits)

lemma cluster_insert_endpoint_name: "cluster_insert_endpoint ep c = Inr c' \<Longrightarrow> cl_name c' = cl_name c"
  by (auto simp: cluster_insert_endpoint_def and_then_eq_Ok split: if_splits)

lemma cluster_remove_endpoint_name [simp]: "cl_name (snd (cluster_remove_endpoint i c)) = cl_name c"
  by (simp add: cluster_remove_endpoint_def split: option.splits)

lemma cluster_set_endpoint_state_name [simp]:
  "cl_name (snd (cluster_set_endpoint_state i st c)) = cl_name c"
  by (simp add: cluster_set_endpoint_state_def split: option.splits)

lemma reg_insert_endpoint_wf:
  assumes "reg_wf r"
  shows "reg_wf (snd (reg_insert_endpoint n ep r))"
proof (cases "map_of (er_clusters r) n")
  case None
  with assms show ?thesis by (simp add: reg_insert_endpoint_def)
next
  case (Some c)
  with assms have c: "cluster_wf c" "cl_name c = n" by (auto dest: reg_wf_cluster)
  show ?thesis
  proof (cases "cluster_insert_endpoint ep c")
    case (Inr c')
    then have "cluster_wf c'" "cl_name c' = n"
      using c cluster_insert_endpoint_wf cluster_insert_endpoint_name by auto
    with assms Some Inr show ?thesis by (simp add: reg_insert_endpoint_def reg_wf_put)
  next
    case (Inl e)
    with assms Some show ?thesis
      by (cases e) (simp_all add: reg_insert_endpoint_def reg_wf_reset)
  qed
qed

lemma reg_remove_endpoint_wf:
  assumes "reg_wf r"
  shows "reg_wf (snd (reg_remove_endpoint n i r))"
proof (cases "map_of (er_clusters r) n")
  case None
  with assms show ?thesis by (simp add: reg_remove_endpoint_def)
next
  case (Some c)
  with assms have "cluster_wf c" "cl_name c = n" by (auto dest: reg_wf_cluster)
  then have "cluster_wf (snd (cluster_remove_endpoint i c))"
    "cl_name (snd (cluster_remove_endpoint i c)) = n"
    by (simp_all add: cluster_remove_endpoint_wf)
  with assms Some show ?thesis
    by (simp add: reg_remove_endpoint_def reg_wf_put case_prod_beta)
qed

lemma reg_set_endpoint_state_wf:
  assumes "reg_wf r"
  shows "reg_wf (snd (reg_set_endpoint_state n i st r))"
proof (cases "map_of (er_clusters r) n")
  case None
  with assms show ?thesis by (simp add: reg_set_endpoint_state_def)
next
  case (Some c)
  with assms have "cluster_wf c" "cl_name c = n" by (auto dest: reg_wf_cluster)
  then have "cluster_wf (snd (cluster_set_endpoint_state i st c))"
    "cl_name (snd (cluster_set_endpoint_state i st c)) = n"
    by (simp_all add: cluster_set_endpoint_state_wf)
  with assms Some show ?thesis
    by (simp add: reg_set_endpoint_state_def reg_wf_put case_prod_beta)
qed

lemmas reg_wf_intros =
  reg_insert_cluster_wf reg_remove_cluster_wf reg_insert_endpoint_wf
  reg_remove_endpoint_wf reg_set_endpoint_state_wf

section \<open>The machine of registry operations\<close>

text \<open>
  A caller can only hold a cluster that \<open>UpstreamCluster::new\<close> accepted, so registering a
  cluster goes through that constructor.
\<close>

datatype registry_op =
    OpInsertCluster cluster_name "upstream_endpoint list"
  | OpRemoveCluster cluster_name
  | OpInsertEndpoint cluster_name upstream_endpoint
  | OpRemoveEndpoint cluster_name endpoint_id
  | OpSetEndpointState cluster_name endpoint_id endpoint_state

fun registry_step :: "endpoint_registry \<Rightarrow> registry_op \<Rightarrow> endpoint_registry" where
  "registry_step r (OpInsertCluster n eps) =
     (case cluster_new n eps of Inl _ \<Rightarrow> r | Inr c \<Rightarrow> snd (reg_insert_cluster c r))"
| "registry_step r (OpRemoveCluster n) = snd (reg_remove_cluster n r)"
| "registry_step r (OpInsertEndpoint n ep) = snd (reg_insert_endpoint n ep r)"
| "registry_step r (OpRemoveEndpoint n i) = snd (reg_remove_endpoint n i r)"
| "registry_step r (OpSetEndpointState n i st) = snd (reg_set_endpoint_state n i st r)"

lemma registry_step_wf: "reg_wf r \<Longrightarrow> reg_wf (registry_step r op)"
  by (cases op) (auto simp: reg_wf_intros cluster_new_Ok split: sum.split)

interpretation registry: invariant_machine registry_step "\<lambda>_. True" reg_wf
  by unfold_locales (rule registry_step_wf)

section \<open>Refinement of a map of maps\<close>

definition reg_view :: "endpoint_registry \<Rightarrow> cluster_name \<Rightarrow> (endpoint_id \<rightharpoonup> upstream_endpoint) option" where
  "reg_view r n = map_option cluster_endpoint (map_of (er_clusters r) n)"

lemma cluster_endpoint_Some_id: "cluster_endpoint c i = Some ep \<Longrightarrow> ep_id ep = i"
  by (auto simp: cluster_endpoint_def find_Some_iff)

lemma cluster_endpoint_mem:
  "cluster_wf c \<Longrightarrow> cluster_endpoint c i = Some ep \<longleftrightarrow> ep \<in> set (cl_endpoints c) \<and> ep_id ep = i"
proof
  assume "cluster_wf c" and r: "ep \<in> set (cl_endpoints c) \<and> ep_id ep = i"
  then have d: "distinct (map ep_id (cl_endpoints c))" by (simp add: cluster_wf_def)
  have "find (\<lambda>x. ep_id x = i) xs = Some ep"
    if "distinct (map ep_id xs)" "ep \<in> set xs" "ep_id ep = i" for xs
    using that by (induction xs) auto
  with d r show "cluster_endpoint c i = Some ep" by (simp add: cluster_endpoint_def)
qed (auto simp: cluster_endpoint_def find_Some_iff in_set_conv_nth)

lemma cluster_endpoint_None: "cluster_endpoint c i = None \<longleftrightarrow> i \<notin> ep_id ` set (cl_endpoints c)"
  by (auto simp: cluster_endpoint_def find_None_iff)

lemma find_append: "find P (xs @ ys) = (case find P xs of None \<Rightarrow> find P ys | Some x \<Rightarrow> Some x)"
  by (induction xs) auto

lemma cluster_insert_endpoint_view:
  assumes "cluster_insert_endpoint ep c = Ok c'"
  shows "cluster_endpoint c' = (cluster_endpoint c)(ep_id ep \<mapsto> ep)"
proof
  fix i
  from assms have c': "c' = c\<lparr>cl_endpoints := cl_endpoints c @ [ep]\<rparr>"
    and fresh: "\<forall>x\<in>set (cl_endpoints c). ep_id x \<noteq> ep_id ep"
    by (auto simp: cluster_insert_endpoint_def and_then_eq_Ok list_ex_iff split: if_splits)
  have "find (\<lambda>x. ep_id x = ep_id ep) (cl_endpoints c) = None"
    using fresh by (simp add: find_None_iff)
  then show "cluster_endpoint c' i = ((cluster_endpoint c)(ep_id ep \<mapsto> ep)) i"
    by (auto simp: c' cluster_endpoint_def find_append split: option.split)
qed

lemma reg_insert_endpoint_view:
  assumes "reg_wf r" and "reg_insert_endpoint n ep r = (Ok (), r')"
  shows "\<exists>m. reg_view r n = Some m \<and> m (ep_id ep) = None \<and>
             reg_view r' = (reg_view r)(n \<mapsto> m(ep_id ep \<mapsto> ep))"
proof -
  from assms(2) obtain c c' where c: "map_of (er_clusters r) n = Some c"
    and ins: "cluster_insert_endpoint ep c = Ok c'"
    and r': "r' = r\<lparr>er_clusters := bt_insert n c' (er_clusters r)\<rparr>"
    by (auto simp: reg_insert_endpoint_def split: option.splits sum.splits upstream_model_error.splits)
  have "cluster_endpoint c (ep_id ep) = None"
    using ins by (auto simp: cluster_endpoint_None cluster_insert_endpoint_def and_then_eq_Ok
        list_ex_iff split: if_splits)
  moreover have "reg_view r' = (reg_view r)(n \<mapsto> cluster_endpoint c')"
    using assms(1) by (auto simp: reg_view_def r' map_of_bt_insert reg_wf_def)
  ultimately show ?thesis
    using c ins by (auto simp: reg_view_def cluster_insert_endpoint_view)
qed

lemma reg_insert_endpoint_view_Err:
  "reg_insert_endpoint n ep r = (Err e, r') \<Longrightarrow> reg_view r' = reg_view r"
  by (auto simp: reg_insert_endpoint_def reg_view_def increment_invalid_definition_count_def
      split: option.splits sum.splits upstream_model_error.splits)

lemma find_vec_remove:
  assumes "distinct (map f xs)" and "k < length xs"
  shows "find (\<lambda>x. f x = i) (vec_remove k xs) = (if i = f (xs ! k) then None else find (\<lambda>x. f x = i) xs)"
proof -
  have split: "xs = take k xs @ xs ! k # drop (Suc k) xs"
    using assms(2) by (rule id_take_nth_drop)
  have "\<forall>x\<in>set (take k xs @ drop (Suc k) xs). f x \<noteq> f (xs ! k)"
  proof -
    from assms(1) split have "distinct (map f (take k xs @ xs ! k # drop (Suc k) xs))" by simp
    then show ?thesis by (auto simp: rev_image_eqI)
  qed
  then have none: "find (\<lambda>x. f x = i) (take k xs @ drop (Suc k) xs) = None" if "i = f (xs ! k)"
    using that by (auto simp: find_None_iff)
  have "find (\<lambda>x. f x = i) xs = find (\<lambda>x. f x = i) (take k xs @ drop (Suc k) xs)" if "i \<noteq> f (xs ! k)"
    by (subst split) (use that in \<open>simp add: find_append split: option.split\<close>)
  with none show ?thesis by (simp add: vec_remove_def)
qed

lemma reg_remove_endpoint_view:
  assumes "reg_wf r" and "reg_remove_endpoint n i r = (Ok ep, r')"
  shows "\<exists>m. reg_view r n = Some m \<and> m i = Some ep \<and> reg_view r' = (reg_view r)(n \<mapsto> m(i := None))"
proof -
  from assms(2) obtain c c' where c: "map_of (er_clusters r) n = Some c"
    and rem: "cluster_remove_endpoint i c = (Some ep, c')"
    and r': "r' = r\<lparr>er_clusters := bt_insert n c' (er_clusters r)\<rparr>"
    by (auto simp: reg_remove_endpoint_def ok_or_def split: option.splits prod.splits)
  from rem obtain k where k: "position (\<lambda>x. ep_id x = i) (cl_endpoints c) = Some k"
    and ep: "ep = cl_endpoints c ! k" and c': "c' = c\<lparr>cl_endpoints := vec_remove k (cl_endpoints c)\<rparr>"
    by (auto simp: cluster_remove_endpoint_def split: option.splits)
  have wf: "cluster_wf c" using assms(1) c by (auto dest: reg_wf_cluster)
  have kl: "k < length (cl_endpoints c)" "ep_id ep = i"
    using position_Some [OF k] ep by auto
  have "cluster_endpoint c i = Some ep"
    using wf kl ep by (simp add: cluster_endpoint_mem)
  moreover have "cluster_endpoint c' = (cluster_endpoint c)(i := None)"
    using wf kl ep by (auto simp: c' cluster_endpoint_def fun_eq_iff find_vec_remove cluster_wf_def)
  ultimately show ?thesis
    using c assms(1) by (auto simp: reg_view_def r' map_of_bt_insert reg_wf_def)
qed

lemma reg_remove_endpoint_view_Err:
  assumes "reg_wf r" and "reg_remove_endpoint n i r = (Err e, r')"
  shows "reg_view r' = reg_view r"
  using assms
  by (auto simp: reg_remove_endpoint_def reg_view_def cluster_remove_endpoint_def ok_or_def
      reg_wf_def map_of_bt_insert fun_eq_iff split: option.splits prod.splits)

lemma reg_insert_cluster_view:
  "reg_wf r \<Longrightarrow> reg_insert_cluster c r = (Ok (), r') \<Longrightarrow>
     reg_view r (cl_name c) = None \<and> reg_view r' = (reg_view r)(cl_name c \<mapsto> cluster_endpoint c)"
  by (auto simp: reg_insert_cluster_def reg_view_def bt_has_def reg_wf_def map_of_bt_insert
      split: if_splits)

lemma reg_insert_cluster_view_Err:
  "reg_insert_cluster c r = (Err e, r') \<Longrightarrow> reg_view r' = reg_view r"
  by (auto simp: reg_insert_cluster_def reg_view_def increment_invalid_definition_count_def
      split: if_splits)

lemma reg_remove_cluster_view:
  "reg_remove_cluster n r = (removed, r') \<Longrightarrow>
     map_option cluster_endpoint removed = reg_view r n \<and> reg_view r' = (reg_view r)(n := None)"
  by (auto simp: reg_remove_cluster_def reg_view_def map_of_bt_remove)

lemma find_update_map:
  assumes "k < length xs" and "f (g (xs ! k)) = f (xs ! k)" and "h (g (xs ! k)) = h (xs ! k)"
  shows "map_option h (find (\<lambda>x. f x = i) (xs[k := g (xs ! k)])) = map_option h (find (\<lambda>x. f x = i) xs)"
  using assms
proof (induction xs arbitrary: k)
  case (Cons x xs)
  then show ?case by (cases k) auto
qed simp

lemma reg_set_endpoint_state_view:
  assumes "reg_wf r"
  shows "map_option (\<lambda>m i. map_option ep_metadata (m i)) (reg_view (snd (reg_set_endpoint_state n j st r)) k)
       = map_option (\<lambda>m i. map_option ep_metadata (m i)) (reg_view r k)"
proof (cases "map_of (er_clusters r) n")
  case None
  then show ?thesis by (simp add: reg_set_endpoint_state_def)
next
  case (Some c)
  have "map_option ep_metadata (cluster_endpoint (snd (cluster_set_endpoint_state j st c)) i)
      = map_option ep_metadata (cluster_endpoint c i)" for i
  proof (cases "position (\<lambda>ep. ep_id ep = j) (cl_endpoints c)")
    case (Some p)
    then have "p < length (cl_endpoints c)" by (auto dest: position_Some)
    then have "map_option ep_metadata (find (\<lambda>ep. ep_id ep = i)
        ((cl_endpoints c)[p := with_state (cl_endpoints c ! p) st]))
      = map_option ep_metadata (find (\<lambda>ep. ep_id ep = i) (cl_endpoints c))"
      by (rule find_update_map [where g = "\<lambda>ep. with_state ep st"]) (simp_all add: with_state_def)
    with Some show ?thesis by (simp add: cluster_set_endpoint_state_def cluster_endpoint_def)
  qed (simp add: cluster_set_endpoint_state_def)
  with assms Some show ?thesis
    by (simp add: reg_set_endpoint_state_def reg_view_def case_prod_beta map_of_bt_insert reg_wf_def)
qed

section \<open>Counts\<close>

lemma reg_metrics_counts:
  "rm_endpoint_count (reg_metrics r) = (\<Sum>(_, c)\<leftarrow>er_clusters r. length (cl_endpoints c)) \<and>
   rm_unavailable_endpoint_count (reg_metrics r) \<le> rm_endpoint_count (reg_metrics r)"
proof -
  let ?f = "\<lambda>(_, c) (n, u). (n + length (cl_endpoints c),
             u + length (filter (\<lambda>ep. \<not> state_is_ready (ep_state ep)) (cl_endpoints c)))"
  have fst_fold: "fst (fold ?f cs (a, b)) = a + (\<Sum>(_, c)\<leftarrow>cs. length (cl_endpoints c))"
    for cs :: "(cluster_name \<times> upstream_cluster) list" and a b
    by (induction cs arbitrary: a b) (simp_all add: case_prod_beta)
  have snd_fold: "b \<le> a \<Longrightarrow> snd (fold ?f cs (a, b)) \<le> fst (fold ?f cs (a, b))"
    for cs :: "(cluster_name \<times> upstream_cluster) list" and a b
  proof (induction cs arbitrary: a b)
    case (Cons x cs)
    have "length (filter (\<lambda>ep. \<not> state_is_ready (ep_state ep)) (cl_endpoints (snd x)))
            \<le> length (cl_endpoints (snd x))" by simp
    with Cons show ?case by (simp add: case_prod_beta add_mono)
  qed simp
  show ?thesis
    using fst_fold [of "er_clusters r" 0 0] snd_fold [of 0 0 "er_clusters r"]
    by (simp add: reg_metrics_def Let_def)
qed

section \<open>The registry as an abstract machine\<close>

text \<open>The registry as a map from clusters to maps from endpoint ids to endpoints.\<close>

type_synonym topology = "cluster_name \<Rightarrow> (endpoint_id \<rightharpoonup> upstream_endpoint) option"

fun topology_step :: "topology \<Rightarrow> registry_op \<Rightarrow> topology" where
  "topology_step v (OpInsertCluster n eps) =
     (if v n = None \<and> is_ok (cluster_new n eps)
      then v(n \<mapsto> map_of (map (\<lambda>ep. (ep_id ep, ep)) eps)) else v)"
| "topology_step v (OpRemoveCluster n) = v(n := None)"
| "topology_step v (OpInsertEndpoint n ep) =
     (case v n of
        Some m \<Rightarrow>
          if endpoint_validate ep = Ok () \<and> m (ep_id ep) = None then v(n \<mapsto> m(ep_id ep \<mapsto> ep)) else v
      | None \<Rightarrow> v)"
| "topology_step v (OpRemoveEndpoint n i) =
     (case v n of Some m \<Rightarrow> v(n \<mapsto> m(i := None)) | None \<Rightarrow> v)"
| "topology_step v (OpSetEndpointState n i st) =
     (case v n of Some m \<Rightarrow> v(n \<mapsto> m(i := map_option (\<lambda>ep. with_state ep st) (m i))) | None \<Rightarrow> v)"

lemma find_map_of: "find (\<lambda>x. f x = i) xs = map_of (map (\<lambda>x. (f x, x)) xs) i"
  by (induction xs) auto

lemma insert_endpoint_refines:
  assumes "reg_wf r"
  shows "reg_view (snd (reg_insert_endpoint n ep r)) = topology_step (reg_view r) (OpInsertEndpoint n ep)"
proof (cases "fst (reg_insert_endpoint n ep r)")
  case (Inl e)
  then have e: "reg_insert_endpoint n ep r = (Err e, snd (reg_insert_endpoint n ep r))"
    by (simp add: prod_eq_iff)
  have "reg_view (snd (reg_insert_endpoint n ep r)) = reg_view r"
    using reg_insert_endpoint_view_Err [OF e] .
  moreover have "\<not> (endpoint_validate ep = Ok () \<and> m (ep_id ep) = None)" if "reg_view r n = Some m" for m
  proof
    assume *: "endpoint_validate ep = Ok () \<and> m (ep_id ep) = None"
    from that obtain c where c: "map_of (er_clusters r) n = Some c" "m = cluster_endpoint c"
      by (auto simp: reg_view_def)
    with * have "\<forall>x\<in>set (cl_endpoints c). ep_id x \<noteq> ep_id ep"
      by (metis cluster_endpoint_None imageI)
    with * have "cluster_insert_endpoint ep c = Ok (c\<lparr>cl_endpoints := cl_endpoints c @ [ep]\<rparr>)"
      by (auto simp: cluster_insert_endpoint_def list_ex_iff)
    with Inl c show False by (simp add: reg_insert_endpoint_def)
  qed
  ultimately show ?thesis by (auto split: option.split)
next
  case (Inr u)
  then have e: "reg_insert_endpoint n ep r = (Ok (), snd (reg_insert_endpoint n ep r))"
    by (simp add: prod_eq_iff)
  then have "endpoint_validate ep = Ok ()"
    by (cases "map_of (er_clusters r) n"; cases "endpoint_validate ep")
      (auto simp: reg_insert_endpoint_def cluster_insert_endpoint_def
        split: upstream_model_error.splits)
  with reg_insert_endpoint_view [OF assms e] show ?thesis by auto
qed

lemma remove_endpoint_refines:
  assumes "reg_wf r"
  shows "reg_view (snd (reg_remove_endpoint n i r)) = topology_step (reg_view r) (OpRemoveEndpoint n i)"
proof (cases "fst (reg_remove_endpoint n i r)")
  case (Inl e)
  then have e: "reg_remove_endpoint n i r = (Err e, snd (reg_remove_endpoint n i r))"
    by (simp add: prod_eq_iff)
  have "m i = None" if "reg_view r n = Some m" for m
    using Inl that
    by (auto simp: reg_view_def reg_remove_endpoint_def cluster_remove_endpoint_def ok_or_def
        cluster_endpoint_None position_None split: option.splits prod.splits)
  then have "(reg_view r)(n \<mapsto> m(i := None)) = reg_view r" if "reg_view r n = Some m" for m
    using that by (simp add: fun_upd_idem)
  then show ?thesis
    using reg_remove_endpoint_view_Err [OF assms e] by (auto split: option.split)
next
  case (Inr ep)
  then have e: "reg_remove_endpoint n i r = (Ok ep, snd (reg_remove_endpoint n i r))"
    by (simp add: prod_eq_iff)
  with reg_remove_endpoint_view [OF assms e] show ?thesis by auto
qed

lemma find_update:
  "position P xs = Some k \<Longrightarrow> P y \<Longrightarrow> find P (xs[k := y]) = Some y"
proof (induction xs arbitrary: k)
  case (Cons x xs)
  then show ?case by (cases "P x") auto
qed simp

lemma find_update_other:
  "k < length xs \<Longrightarrow> \<not> P (xs ! k) \<Longrightarrow> \<not> P y \<Longrightarrow> find P (xs[k := y]) = find P xs"
proof (induction xs arbitrary: k)
  case (Cons x xs)
  then show ?case by (cases k) auto
qed simp

lemma find_position: "find P xs = map_option (\<lambda>k. xs ! k) (position P xs)"
  by (induction xs) (auto simp: option.map_comp o_def)

lemma set_state_view:
  "cluster_endpoint (snd (cluster_set_endpoint_state i st c)) =
     (cluster_endpoint c)(i := map_option (\<lambda>ep. with_state ep st) (cluster_endpoint c i))"
proof (cases "position (\<lambda>ep. ep_id ep = i) (cl_endpoints c)")
  case None
  then show ?thesis
    by (auto simp: cluster_set_endpoint_state_def cluster_endpoint_def find_position fun_eq_iff)
next
  case (Some k)
  have k: "k < length (cl_endpoints c)" "ep_id (cl_endpoints c ! k) = i"
    using position_Some [OF Some] by auto
  have same: "with_state (cl_endpoints c ! k) st = cl_endpoints c ! k" if "ep_state (cl_endpoints c ! k) = st"
    using that by (simp add: with_state_def)
  have upd: "find (\<lambda>ep. ep_id ep = j) ((cl_endpoints c)[k := with_state (cl_endpoints c ! k) st]) =
      ((cluster_endpoint c)(i \<mapsto> with_state (cl_endpoints c ! k) st)) j" for j
  proof (cases "j = i")
    case True
    then show ?thesis using find_update [OF Some] k by (simp add: with_state_def)
  next
    case False
    then show ?thesis
      using find_update_other [OF k(1), of "\<lambda>ep. ep_id ep = j"] k by (simp add: with_state_def cluster_endpoint_def)
  qed
  have "cluster_endpoint c i = Some (cl_endpoints c ! k)"
    using Some by (simp add: cluster_endpoint_def find_position)
  then show ?thesis
    using Some upd same
    by (auto simp: cluster_set_endpoint_state_def cluster_endpoint_def fun_eq_iff)
qed

lemma set_state_refines:
  assumes "reg_wf r"
  shows "reg_view (snd (reg_set_endpoint_state n i st r)) = topology_step (reg_view r) (OpSetEndpointState n i st)"
  using assms set_state_view [of i st]
  by (cases "map_of (er_clusters r) n")
    (auto simp: reg_set_endpoint_state_def reg_view_def case_prod_beta map_of_bt_insert reg_wf_def fun_eq_iff)

lemma registry_step_refines:
  assumes "reg_wf r"
  shows "reg_view (registry_step r op) = topology_step (reg_view r) op"
proof (cases op)
  case (OpInsertCluster n eps)
  show ?thesis
  proof (cases "cluster_new n eps")
    case (Inr c)
    then have c: "c = \<lparr>cl_name = n, cl_endpoints = eps\<rparr>" by (simp add: cluster_new_Ok)
    then have "cluster_endpoint c = map_of (map (\<lambda>ep. (ep_id ep, ep)) eps)"
      by (simp add: cluster_endpoint_def find_map_of fun_eq_iff)
    with OpInsertCluster Inr c assms show ?thesis
      by (auto simp: reg_insert_cluster_def reg_view_def bt_has_def increment_invalid_definition_count_def
          reg_wf_def map_of_bt_insert fun_eq_iff)
  qed (use OpInsertCluster in simp)
next
  case (OpRemoveCluster n)
  then show ?thesis by (auto simp: reg_remove_cluster_def reg_view_def map_of_bt_remove fun_eq_iff)
next
  case (OpInsertEndpoint n ep)
  then show ?thesis by (simp only: registry_step.simps insert_endpoint_refines [OF assms])
next
  case (OpRemoveEndpoint n i)
  then show ?thesis by (simp only: registry_step.simps remove_endpoint_refines [OF assms])
next
  case (OpSetEndpointState n i st)
  then show ?thesis by (simp only: registry_step.simps set_state_refines [OF assms])
qed

lemma registry_run_refines:
  "reg_wf r \<Longrightarrow> reg_view (foldl registry_step r ops) = foldl topology_step (reg_view r) ops"
  by (induction ops arbitrary: r) (simp_all add: registry_step_refines registry_step_wf)

text \<open>
  C23. The endpoint registry refines a map of maps: after any sequence of operations, from
  the empty registry, what it holds is what the same sequence leaves in a map from cluster
  names to maps from endpoint ids to endpoints, where a failing operation changes nothing;
  ids stay unique and every endpoint it holds is valid.
\<close>

theorem registry_refines_topology:
  "reg_view (foldl registry_step registry_new ops) = foldl topology_step (\<lambda>_. None) ops \<and>
   reg_wf (foldl registry_step registry_new ops)"
proof -
  have "reg_view registry_new = (\<lambda>_. None)"
    by (simp add: reg_view_def registry_new_def fun_eq_iff)
  then show ?thesis
    using registry_run_refines [OF reg_wf_new, of ops] registry.run_inv [of ops registry_new] reg_wf_new
    by (simp add: list_all_iff)
qed

text \<open>
  Adding an endpoint and removing it is a round trip: the cluster is as before and the
  endpoint that comes back is the one that went in, with every field.
\<close>

lemma endpoint_insert_remove_roundtrip:
  assumes "cluster_insert_endpoint ep c = Ok c'"
  shows "cluster_endpoint c' (ep_id ep) = Some ep \<and> cluster_remove_endpoint (ep_id ep) c' = (Some ep, c)"
  using cluster_insert_lookup [OF assms] cluster_insert_remove [OF assms] by blast

definition one_endpoint :: upstream_endpoint where
  "one_endpoint =
     \<lparr>ep_id = ''a'', ep_address = \<lparr>sa_ip = V4 0x0a000001, sa_port = 80\<rparr>, ep_state = StateReady,
      ep_metadata = endpoint_metadata_default\<rparr>"

end
