(* ===== verification/Upstream_Health.thy ===== *)
theory Upstream_Health
  imports Endpoint_Registry
begin

text \<open>
  \<open>UpstreamHealthRegistry\<close> of \<open>crates/runtime/src/upstream_health.rs\<close>: the endpoint
  registry with one health record per endpoint, the transitions on active and passive
  signals, the cluster ejection budget, ejection and warm-up timers, and the selection
  candidates handed to the balancer.

  The topology lock is held for writing by every operation that changes the registry and
  for reading by every operation that joins registry and records, so each operation is one
  atomic step. The lemmas show that the records always cover exactly the registered
  endpoints, that status and effective weight agree in every record, and how signals and
  time move the status.
\<close>

section \<open>Policy, status and records\<close>

record endpoint_health_policy =
  hp_degraded_failure_threshold :: nat
  hp_unhealthy_failure_threshold :: nat
  hp_ejection_failure_threshold :: nat
  hp_recovery_success_threshold :: nat
  hp_ejection_duration :: duration
  hp_warmup_duration :: duration
  hp_consecutive_passive_failure_ejection_threshold :: nat
  hp_outlier_window_size :: nat
  hp_success_rate_ejection_threshold_percent :: nat
  hp_cluster_ejection_budget_percent :: nat
  hp_slow_start_min_weight_percent :: nat

definition health_policy_default :: endpoint_health_policy where
  "health_policy_default =
     \<lparr>hp_degraded_failure_threshold = 1, hp_unhealthy_failure_threshold = 2,
      hp_ejection_failure_threshold = 3, hp_recovery_success_threshold = 2,
      hp_ejection_duration = secs 30, hp_warmup_duration = secs 15,
      hp_consecutive_passive_failure_ejection_threshold = 5, hp_outlier_window_size = 20,
      hp_success_rate_ejection_threshold_percent = 50,
      hp_cluster_ejection_budget_percent = 50, hp_slow_start_min_weight_percent = 10\<rparr>"

datatype protocol_health_class = ProtoGeneric | ProtoHttp1 | ProtoHttp2 | ProtoGrpc | ProtoTcp

text \<open>The derived \<open>Ord\<close> compares the positions of the variants.\<close>

primrec protocol_rank :: "protocol_health_class \<Rightarrow> nat" where
  "protocol_rank ProtoGeneric = 0"
| "protocol_rank ProtoHttp1 = 1"
| "protocol_rank ProtoHttp2 = 2"
| "protocol_rank ProtoGrpc = 3"
| "protocol_rank ProtoTcp = 4"

lemma protocol_rank_inj: "protocol_rank a = protocol_rank b \<Longrightarrow> a = b"
  by (cases a; cases b) simp_all

instantiation protocol_health_class :: linorder
begin

definition less_eq_protocol_health_class :: "protocol_health_class \<Rightarrow> protocol_health_class \<Rightarrow> bool" where
  "less_eq_protocol_health_class a b = (protocol_rank a \<le> protocol_rank b)"

definition less_protocol_health_class :: "protocol_health_class \<Rightarrow> protocol_health_class \<Rightarrow> bool" where
  "less_protocol_health_class a b = (protocol_rank a < protocol_rank b)"

instance
  by standard
    (auto simp: less_eq_protocol_health_class_def less_protocol_health_class_def
      dest: protocol_rank_inj)

end

datatype endpoint_health_status = Healthy | Degraded | Unhealthy | Ejected | Warming

definition is_available :: "endpoint_health_status \<Rightarrow> bool" where
  "is_available s = (s = Healthy \<or> s = Degraded \<or> s = Warming)"

record endpoint_health_snapshot =
  hs_status :: endpoint_health_status
  hs_active_failures :: nat
  hs_passive_failures :: nat
  hs_recovery_successes :: nat
  hs_effective_weight :: nat
  hs_remaining_ejection :: "duration option"
  hs_remaining_warmup :: "duration option"
  hs_passive_failures_by_protocol :: "(protocol_health_class, nat) btree_map"

datatype upstream_health_error =
    HealthRegistry endpoint_registry_error
  | InconsistentState cluster_name endpoint_id
  | EndpointNotTracked cluster_name endpoint_id

type_synonym endpoint_key = "cluster_name \<times> endpoint_id"

record endpoint_health_record =
  hr_status :: endpoint_health_status
  hr_active_failures :: nat
  hr_passive_failures :: nat
  hr_recovery_successes :: nat
  hr_effective_weight :: nat
  hr_remaining_ejection :: duration
  hr_warmup_elapsed :: duration
  hr_nominal_weight :: nat
  hr_passive_failures_by_protocol :: "(protocol_health_class, nat) btree_map"
  hr_passive_results_window :: "bool list"

definition health_record_new ::
  "upstream_endpoint \<Rightarrow> endpoint_health_policy \<Rightarrow> endpoint_health_record" where
  "health_record_new ep policy =
     (let nominal = em_weight (ep_metadata ep) in
      if state_is_ready (ep_state ep) \<and> hp_warmup_duration policy \<noteq> 0
      then \<lparr>hr_status = Warming, hr_active_failures = 0, hr_passive_failures = 0,
            hr_recovery_successes = 0, hr_effective_weight = 1, hr_remaining_ejection = 0,
            hr_warmup_elapsed = 0, hr_nominal_weight = nominal,
            hr_passive_failures_by_protocol = [], hr_passive_results_window = []\<rparr>
      else \<lparr>hr_status = Healthy, hr_active_failures = 0, hr_passive_failures = 0,
            hr_recovery_successes = 0, hr_effective_weight = nominal, hr_remaining_ejection = 0,
            hr_warmup_elapsed = 0, hr_nominal_weight = nominal,
            hr_passive_failures_by_protocol = [], hr_passive_results_window = []\<rparr>)"

definition record_snapshot ::
  "endpoint_health_policy \<Rightarrow> endpoint_health_record \<Rightarrow> endpoint_health_snapshot" where
  "record_snapshot policy rec =
     \<lparr>hs_status = hr_status rec,
      hs_active_failures = hr_active_failures rec,
      hs_passive_failures = hr_passive_failures rec,
      hs_recovery_successes = hr_recovery_successes rec,
      hs_effective_weight = hr_effective_weight rec,
      hs_remaining_ejection =
        (if hr_remaining_ejection rec \<noteq> 0 then Some (hr_remaining_ejection rec) else None),
      hs_remaining_warmup =
        (if hr_status rec = Warming
         then Some (if hr_warmup_elapsed rec \<le> hp_warmup_duration policy
                    then hp_warmup_duration policy - hr_warmup_elapsed rec else 0)
         else None),
      hs_passive_failures_by_protocol = hr_passive_failures_by_protocol rec\<rparr>"

definition combined_failures :: "endpoint_health_record \<Rightarrow> nat" where
  "combined_failures rec = sat_add 32 (hr_active_failures rec) (hr_passive_failures rec)"

section \<open>Transitions of one record\<close>

datatype health_signal =
    ActiveSuccess
  | ActiveFailure
  | PassiveSuccess protocol_health_class
  | PassiveFailure protocol_health_class

definition transition_on_failures ::
  "endpoint_health_policy \<Rightarrow> bool \<Rightarrow> endpoint_health_record \<Rightarrow> endpoint_health_record" where
  "transition_on_failures policy force_ejection rec =
     (if hr_status rec = Ejected then rec
      else if force_ejection \<or> hp_ejection_failure_threshold policy \<le> combined_failures rec
      then rec\<lparr>hr_status := Ejected, hr_remaining_ejection := hp_ejection_duration policy,
               hr_effective_weight := 0, hr_recovery_successes := 0\<rparr>
      else if hp_unhealthy_failure_threshold policy \<le> combined_failures rec
      then rec\<lparr>hr_status := Unhealthy, hr_effective_weight := 0\<rparr>
      else if hp_degraded_failure_threshold policy \<le> combined_failures rec
      then rec\<lparr>hr_status := Degraded, hr_effective_weight := hr_nominal_weight rec\<rparr>
      else rec)"

definition clear_protocol_failure_state :: "endpoint_health_record \<Rightarrow> endpoint_health_record" where
  "clear_protocol_failure_state rec =
     rec\<lparr>hr_passive_failures_by_protocol := map (\<lambda>(p, _). (p, 0)) (hr_passive_failures_by_protocol rec)\<rparr>"

definition transition_on_success ::
  "endpoint_health_policy \<Rightarrow> endpoint_health_record \<Rightarrow> endpoint_health_record" where
  "transition_on_success policy rec =
     (if hr_status rec = Ejected then rec
      else if hr_status rec = Healthy \<or> hr_status rec = Warming
      then (clear_protocol_failure_state (rec\<lparr>hr_active_failures := 0, hr_passive_failures := 0\<rparr>))
             \<lparr>hr_recovery_successes := 0\<rparr>
      else let rec1 = rec\<lparr>hr_recovery_successes := sat_add 32 (hr_recovery_successes rec) 1\<rparr> in
        if hr_recovery_successes rec1 < hp_recovery_success_threshold policy then rec1
        else let rec2 = (clear_protocol_failure_state
                  (rec1\<lparr>hr_active_failures := 0, hr_passive_failures := 0\<rparr>))\<lparr>hr_recovery_successes := 0\<rparr> in
          if hp_warmup_duration policy = 0
          then rec2\<lparr>hr_status := Healthy, hr_effective_weight := hr_nominal_weight rec2\<rparr>
          else rec2\<lparr>hr_status := Warming, hr_warmup_elapsed := 0, hr_effective_weight := 1\<rparr>)"

definition warmup_weight :: "nat \<Rightarrow> duration \<Rightarrow> duration \<Rightarrow> nat \<Rightarrow> nat" where
  "warmup_weight nominal elapsed warmup min_percent =
     (if warmup = 0 \<or> warmup \<le> elapsed then nominal
      else let numerator = nominal * as_millis elapsed;
               denominator = max (as_millis warmup) 1;
               progressive = cast_to 16 (numerator div denominator);
               min_weight = cast_to 16 (max (sat_mul 32 nominal (max min_percent 1) div 100) 1)
           in min (max progressive min_weight) nominal)"

definition increment_protocol_failure_counter ::
  "protocol_health_class \<Rightarrow> endpoint_health_record \<Rightarrow> endpoint_health_record" where
  "increment_protocol_failure_counter protocol rec =
     rec\<lparr>hr_passive_failures_by_protocol :=
       bt_entry protocol 0 (\<lambda>n. sat_add 32 n 1) (hr_passive_failures_by_protocol rec)\<rparr>"

definition clear_protocol_failure_counter ::
  "protocol_health_class \<Rightarrow> endpoint_health_record \<Rightarrow> endpoint_health_record" where
  "clear_protocol_failure_counter protocol rec =
     rec\<lparr>hr_passive_failures_by_protocol :=
       bt_insert protocol 0 (hr_passive_failures_by_protocol rec)\<rparr>"

definition refresh_passive_failure_aggregate ::
  "endpoint_health_record \<Rightarrow> endpoint_health_record" where
  "refresh_passive_failure_aggregate rec =
     rec\<lparr>hr_passive_failures := fold max (map snd (hr_passive_failures_by_protocol rec)) 0\<rparr>"

text \<open>\<open>while len > window_size { pop_front() }\<close>\<close>

fun shrink_window :: "nat \<Rightarrow> 'a list \<Rightarrow> 'a list" where
  "shrink_window n [] = []"
| "shrink_window n (x # xs) = (if n < length (x # xs) then shrink_window n xs else x # xs)"

definition push_passive_result ::
  "bool \<Rightarrow> nat \<Rightarrow> endpoint_health_record \<Rightarrow> endpoint_health_record" where
  "push_passive_result success window_size rec =
     (if window_size = 0 then rec
      else rec\<lparr>hr_passive_results_window :=
             shrink_window window_size (hr_passive_results_window rec @ [success])\<rparr>)"

definition passive_failure_triggers_ejection ::
  "endpoint_health_policy \<Rightarrow> endpoint_health_record \<Rightarrow> bool" where
  "passive_failure_triggers_ejection policy rec =
     (if 0 < hp_consecutive_passive_failure_ejection_threshold policy \<and>
         hp_consecutive_passive_failure_ejection_threshold policy \<le> hr_passive_failures rec
      then True
      else if hp_outlier_window_size policy = 0 \<or>
              length (hr_passive_results_window rec) < hp_outlier_window_size policy
      then False
      else let success_count = cast_to 32 (length (filter (\<lambda>b. b) (hr_passive_results_window rec)));
               observed = cast_to 32 (length (hr_passive_results_window rec))
           in sat_mul 32 success_count 100
                < sat_mul 32 (hp_success_rate_ejection_threshold_percent policy) observed)"

definition signal_record ::
  "endpoint_health_policy \<Rightarrow> health_signal \<Rightarrow> endpoint_health_record \<Rightarrow> endpoint_health_record" where
  "signal_record policy signal rec =
     (case signal of
        ActiveFailure \<Rightarrow>
          transition_on_failures policy False
            (rec\<lparr>hr_active_failures := sat_add 32 (hr_active_failures rec) 1,
                 hr_recovery_successes := 0\<rparr>)
      | PassiveFailure protocol \<Rightarrow>
          let rec1 = (push_passive_result False (hp_outlier_window_size policy)
                (refresh_passive_failure_aggregate
                  (increment_protocol_failure_counter protocol rec)))\<lparr>hr_recovery_successes := 0\<rparr>
          in transition_on_failures policy (passive_failure_triggers_ejection policy rec1) rec1
      | ActiveSuccess \<Rightarrow> transition_on_success policy rec
      | PassiveSuccess protocol \<Rightarrow>
          transition_on_success policy
            (push_passive_result True (hp_outlier_window_size policy)
              (refresh_passive_failure_aggregate
                (clear_protocol_failure_counter protocol rec))))"

section \<open>The registry\<close>

datatype upstream_health_event_kind =
    EvDegraded | EvUnhealthy | EvEjected | EvWarmupStarted | EvWarmupCompleted
  | EvRecoveryStarted | EvRecovered

record upstream_health_event =
  he_kind :: upstream_health_event_kind
  he_cluster_name :: string
  he_endpoint_id :: string
  he_detail :: string

record health_metrics_state =
  hm_active_success_count :: nat
  hm_active_failure_count :: nat
  hm_passive_success_count :: nat
  hm_passive_failure_count :: nat
  hm_state_change_count :: nat
  hm_ejection_count :: nat

record upstream_health_registry =
  uh_registry :: endpoint_registry
  uh_policy :: endpoint_health_policy
  uh_records :: "(endpoint_key, endpoint_health_record) btree_map"
  uh_events :: "upstream_health_event list"
  uh_metrics :: health_metrics_state

definition MAX_HEALTH_EVENTS :: nat where
  "MAX_HEALTH_EVENTS = 64"

definition health_metrics_zero :: health_metrics_state where
  "health_metrics_zero =
     \<lparr>hm_active_success_count = 0, hm_active_failure_count = 0, hm_passive_success_count = 0,
      hm_passive_failure_count = 0, hm_state_change_count = 0, hm_ejection_count = 0\<rparr>"

definition health_registry_new :: "endpoint_health_policy \<Rightarrow> upstream_health_registry" where
  "health_registry_new policy =
     \<lparr>uh_registry = registry_new, uh_policy = policy, uh_records = [], uh_events = [],
      uh_metrics = health_metrics_zero\<rparr>"

definition push_health_event ::
  "upstream_health_event_kind \<Rightarrow> cluster_name \<Rightarrow> endpoint_id \<Rightarrow> string \<Rightarrow>
     upstream_health_registry \<Rightarrow> upstream_health_registry" where
  "push_health_event kind n i detail r =
     r\<lparr>uh_events := push_bounded MAX_HEALTH_EVENTS (uh_events r)
         \<lparr>he_kind = kind, he_cluster_name = n, he_endpoint_id = i, he_detail = detail\<rparr>\<rparr>"

definition admit_endpoint ::
  "cluster_name \<Rightarrow> upstream_endpoint \<Rightarrow> upstream_health_registry \<Rightarrow> upstream_health_registry" where
  "admit_endpoint n ep r =
     (let rec = health_record_new ep (uh_policy r);
          r1 = (if hr_status rec = Warming
                then push_health_event EvWarmupStarted n (ep_id ep)
                       ''endpoint admitted in warm-up mode'' r
                else r)
      in r1\<lparr>uh_records := bt_insert (n, ep_id ep) rec (uh_records r1)\<rparr>)"

definition uh_insert_cluster ::
  "upstream_cluster \<Rightarrow> upstream_health_registry \<Rightarrow>
     (unit, upstream_health_error) result \<times> upstream_health_registry" where
  "uh_insert_cluster c r =
     (case reg_insert_cluster c (uh_registry r) of
        (Inl e, reg) \<Rightarrow> (Err (HealthRegistry e), r\<lparr>uh_registry := reg\<rparr>)
      | (Inr _, reg) \<Rightarrow>
          (Ok (), fold (admit_endpoint (cl_name c)) (cl_endpoints c) (r\<lparr>uh_registry := reg\<rparr>)))"

definition uh_remove_cluster ::
  "cluster_name \<Rightarrow> upstream_health_registry \<Rightarrow>
     upstream_cluster option \<times> upstream_health_registry" where
  "uh_remove_cluster n r =
     (case reg_remove_cluster n (uh_registry r) of
        (removed, reg) \<Rightarrow>
          (removed,
           if removed = None then r\<lparr>uh_registry := reg\<rparr>
           else r\<lparr>uh_registry := reg, uh_records := bt_retain (\<lambda>key. fst key \<noteq> n) (uh_records r)\<rparr>))"

definition uh_insert_endpoint ::
  "cluster_name \<Rightarrow> upstream_endpoint \<Rightarrow> upstream_health_registry \<Rightarrow>
     (unit, upstream_health_error) result \<times> upstream_health_registry" where
  "uh_insert_endpoint n ep r =
     (let rec = health_record_new ep (uh_policy r) in
      case reg_insert_endpoint n ep (uh_registry r) of
        (Inl e, reg) \<Rightarrow> (Err (HealthRegistry e), r\<lparr>uh_registry := reg\<rparr>)
      | (Inr _, reg) \<Rightarrow>
          let r1 = r\<lparr>uh_registry := reg, uh_records := bt_insert (n, ep_id ep) rec (uh_records r)\<rparr> in
          (Ok (), if hr_status rec = Warming
                  then push_health_event EvWarmupStarted n (ep_id ep)
                         ''endpoint admitted in warm-up mode'' r1
                  else r1))"

definition uh_remove_endpoint ::
  "cluster_name \<Rightarrow> endpoint_id \<Rightarrow> upstream_health_registry \<Rightarrow>
     (upstream_endpoint, upstream_health_error) result \<times> upstream_health_registry" where
  "uh_remove_endpoint n i r =
     (case reg_remove_endpoint n i (uh_registry r) of
        (Inl e, reg) \<Rightarrow> (Err (HealthRegistry e), r\<lparr>uh_registry := reg\<rparr>)
      | (Inr ep, reg) \<Rightarrow>
          (Ok ep, r\<lparr>uh_registry := reg, uh_records := bt_remove (n, i) (uh_records r)\<rparr>))"

definition uh_set_endpoint_state ::
  "cluster_name \<Rightarrow> endpoint_id \<Rightarrow> endpoint_state \<Rightarrow> upstream_health_registry \<Rightarrow>
     (unit, upstream_health_error) result \<times> upstream_health_registry" where
  "uh_set_endpoint_state n i st r =
     (case reg_set_endpoint_state n i st (uh_registry r) of
        (Inl e, reg) \<Rightarrow> (Err (HealthRegistry e), r\<lparr>uh_registry := reg\<rparr>)
      | (Inr _, reg) \<Rightarrow> (Ok (), r\<lparr>uh_registry := reg\<rparr>))"

text \<open>The two counters of the loop in \<open>can_apply_ejection_budget\<close>, with \<open>u64\<close> saturation.\<close>

definition budget_counts ::
  "cluster_name \<Rightarrow> (endpoint_key, endpoint_health_record) btree_map \<Rightarrow> nat \<times> nat" where
  "budget_counts n records =
     fold (\<lambda>(key, rec) (tot, ejected).
             if fst key \<noteq> n then (tot, ejected)
             else (sat_add 64 tot 1,
                   if hr_status rec = Ejected then sat_add 64 ejected 1 else ejected))
       records (0, 0)"

definition ejection_allowance :: "nat \<Rightarrow> nat \<Rightarrow> nat" where
  "ejection_allowance tot percent = sat_add 64 (sat_mul 64 tot percent) 99 div 100"

definition can_apply_ejection_budget ::
  "(endpoint_key, endpoint_health_record) btree_map \<Rightarrow> cluster_name \<Rightarrow> endpoint_id \<Rightarrow>
     endpoint_health_policy \<Rightarrow> bool" where
  "can_apply_ejection_budget records n i policy =
     (if 100 \<le> hp_cluster_ejection_budget_percent policy then True
      else case budget_counts n records of (tot, ejected) \<Rightarrow>
        if tot = 0 then False
        else let allowed = ejection_allowance tot (hp_cluster_ejection_budget_percent policy) in
          if allowed = 0 then False
          else if (case map_of records (n, i) of None \<Rightarrow> False | Some rec \<Rightarrow> hr_status rec = Ejected)
          then ejected \<le> allowed else ejected < allowed)"

definition event_for_transition ::
  "endpoint_health_status \<Rightarrow> upstream_health_event_kind \<times> string" where
  "event_for_transition current =
     (case current of
        Degraded \<Rightarrow> (EvDegraded, ''endpoint entered degraded health state'')
      | Unhealthy \<Rightarrow> (EvUnhealthy, ''endpoint became unhealthy and is excluded from traffic'')
      | Ejected \<Rightarrow> (EvEjected, ''endpoint was ejected after repeated failures'')
      | Warming \<Rightarrow> (EvWarmupStarted, ''endpoint re-entered warm-up after recovery'')
      | Healthy \<Rightarrow> (EvRecovered, ''endpoint recovered and is fully healthy''))"

definition count_transition ::
  "endpoint_health_status \<Rightarrow> endpoint_health_status \<Rightarrow> health_metrics_state \<Rightarrow> health_metrics_state" where
  "count_transition previous current m =
     (if previous = current then m
      else let m1 = m\<lparr>hm_state_change_count := wrap_add 64 (hm_state_change_count m) 1\<rparr> in
        if current = Ejected
        then m1\<lparr>hm_ejection_count := wrap_add 64 (hm_ejection_count m1) 1\<rparr> else m1)"

text \<open>
  The record after the signal and, when the ejection would exceed the cluster budget, after
  the cap. The repeated lookups of the code run under one write lock on a key that is
  present, so they read the record just written.
\<close>

definition signalled_record ::
  "cluster_name \<Rightarrow> endpoint_id \<Rightarrow> health_signal \<Rightarrow> upstream_health_registry \<Rightarrow>
     endpoint_health_record \<Rightarrow> endpoint_health_record" where
  "signalled_record n i signal r rec =
     (let rec1 = signal_record (uh_policy r) signal rec;
          records1 = bt_insert (n, i) rec1 (uh_records r)
      in if hr_status rec1 = Ejected \<and> hr_status rec \<noteq> Ejected \<and>
            \<not> can_apply_ejection_budget records1 n i (uh_policy r)
         then rec1\<lparr>hr_status := Unhealthy, hr_remaining_ejection := 0, hr_effective_weight := 0\<rparr>
         else rec1)"

definition apply_signal ::
  "cluster_name \<Rightarrow> endpoint_id \<Rightarrow> health_signal \<Rightarrow> upstream_health_registry \<Rightarrow>
     (endpoint_health_snapshot, upstream_health_error) result \<times> upstream_health_registry" where
  "apply_signal n i signal r =
     (case map_of (uh_records r) (n, i) of
        None \<Rightarrow> (Err (EndpointNotTracked n i), r)
      | Some rec \<Rightarrow>
          let rec2 = signalled_record n i signal r rec;
              previous = hr_status rec;
              current = hr_status rec2;
              r1 = r\<lparr>uh_records := bt_insert (n, i) rec2 (uh_records r),
                     uh_metrics := count_transition previous current (uh_metrics r)\<rparr>;
              r2 = (if previous \<noteq> current
                    then push_health_event (fst (event_for_transition current)) n i
                           (snd (event_for_transition current)) r1
                    else r1)
          in (Ok (record_snapshot (uh_policy r) rec2), r2))"

definition note_active_success ::
  "cluster_name \<Rightarrow> endpoint_id \<Rightarrow> upstream_health_registry \<Rightarrow>
     (endpoint_health_snapshot, upstream_health_error) result \<times> upstream_health_registry" where
  "note_active_success n i r =
     apply_signal n i ActiveSuccess
       (r\<lparr>uh_metrics := (uh_metrics r)\<lparr>hm_active_success_count :=
            wrap_add 64 (hm_active_success_count (uh_metrics r)) 1\<rparr>\<rparr>)"

definition note_active_failure ::
  "cluster_name \<Rightarrow> endpoint_id \<Rightarrow> upstream_health_registry \<Rightarrow>
     (endpoint_health_snapshot, upstream_health_error) result \<times> upstream_health_registry" where
  "note_active_failure n i r =
     apply_signal n i ActiveFailure
       (r\<lparr>uh_metrics := (uh_metrics r)\<lparr>hm_active_failure_count :=
            wrap_add 64 (hm_active_failure_count (uh_metrics r)) 1\<rparr>\<rparr>)"

definition note_passive_success_for_protocol ::
  "cluster_name \<Rightarrow> endpoint_id \<Rightarrow> protocol_health_class \<Rightarrow> upstream_health_registry \<Rightarrow>
     (endpoint_health_snapshot, upstream_health_error) result \<times> upstream_health_registry" where
  "note_passive_success_for_protocol n i protocol r =
     apply_signal n i (PassiveSuccess protocol)
       (r\<lparr>uh_metrics := (uh_metrics r)\<lparr>hm_passive_success_count :=
            wrap_add 64 (hm_passive_success_count (uh_metrics r)) 1\<rparr>\<rparr>)"

definition note_passive_success ::
  "cluster_name \<Rightarrow> endpoint_id \<Rightarrow> upstream_health_registry \<Rightarrow>
     (endpoint_health_snapshot, upstream_health_error) result \<times> upstream_health_registry" where
  "note_passive_success n i r = note_passive_success_for_protocol n i ProtoGeneric r"

definition note_passive_failure_for_protocol ::
  "cluster_name \<Rightarrow> endpoint_id \<Rightarrow> protocol_health_class \<Rightarrow> upstream_health_registry \<Rightarrow>
     (endpoint_health_snapshot, upstream_health_error) result \<times> upstream_health_registry" where
  "note_passive_failure_for_protocol n i protocol r =
     apply_signal n i (PassiveFailure protocol)
       (r\<lparr>uh_metrics := (uh_metrics r)\<lparr>hm_passive_failure_count :=
            wrap_add 64 (hm_passive_failure_count (uh_metrics r)) 1\<rparr>\<rparr>)"

definition note_passive_failure ::
  "cluster_name \<Rightarrow> endpoint_id \<Rightarrow> upstream_health_registry \<Rightarrow>
     (endpoint_health_snapshot, upstream_health_error) result \<times> upstream_health_registry" where
  "note_passive_failure n i r = note_passive_failure_for_protocol n i ProtoGeneric r"

text \<open>One iteration of the loop of \<open>advance_time\<close>.\<close>

definition advance_ejection :: "duration \<Rightarrow> endpoint_health_record \<Rightarrow> endpoint_health_record" where
  "advance_ejection elapsed rec =
     (if hr_status rec = Ejected
      then if hr_remaining_ejection rec \<le> elapsed
           then rec\<lparr>hr_remaining_ejection := 0, hr_status := Unhealthy\<rparr>
           else rec\<lparr>hr_remaining_ejection := hr_remaining_ejection rec - elapsed\<rparr>
      else rec)"

definition advance_warmup ::
  "endpoint_health_policy \<Rightarrow> duration \<Rightarrow> endpoint_health_record \<Rightarrow> endpoint_health_record" where
  "advance_warmup policy elapsed rec =
     (if hr_status rec = Warming
      then let w = dur_saturating_add (hr_warmup_elapsed rec) elapsed;
               rec1 = rec\<lparr>hr_warmup_elapsed := w,
                          hr_effective_weight := warmup_weight (hr_nominal_weight rec) w
                            (hp_warmup_duration policy) (hp_slow_start_min_weight_percent policy)\<rparr>
           in if hp_warmup_duration policy \<le> w
              then rec1\<lparr>hr_status := Healthy, hr_effective_weight := hr_nominal_weight rec\<rparr>
              else rec1
      else rec)"

definition advance_record ::
  "endpoint_health_policy \<Rightarrow> duration \<Rightarrow> endpoint_health_record \<Rightarrow> endpoint_health_record" where
  "advance_record policy elapsed rec = advance_warmup policy elapsed (advance_ejection elapsed rec)"

definition advance_time :: "duration \<Rightarrow> upstream_health_registry \<Rightarrow> upstream_health_registry" where
  "advance_time elapsed r =
     (if elapsed = 0 then r
      else let policy = uh_policy r;
               expired = filter (\<lambda>(key, rec). hr_status rec = Ejected \<and>
                           hr_status (advance_ejection elapsed rec) \<noteq> Ejected) (uh_records r);
               warmed = filter (\<lambda>(key, rec). hr_status (advance_ejection elapsed rec) = Warming \<and>
                           hr_status (advance_record policy elapsed rec) = Healthy) (uh_records r);
               changes = length expired + length warmed;
               m = uh_metrics r;
               r1 = r\<lparr>uh_records := map (\<lambda>(key, rec). (key, advance_record policy elapsed rec)) (uh_records r),
                      uh_metrics := (if changes = 0 then m
                        else m\<lparr>hm_state_change_count := wrap_add 64 (hm_state_change_count m) changes\<rparr>)\<rparr>;
               r2 = fold (\<lambda>(key, _). push_health_event EvRecoveryStarted (fst key) (snd key)
                      ''endpoint ejection expired and recovery checks may resume'') expired r1
           in fold (\<lambda>(key, _). push_health_event EvWarmupCompleted (fst key) (snd key)
                ''endpoint completed warm-up and is fully admitted'') warmed r2)"

section \<open>Queries\<close>

fun count_ready ::
  "cluster_name \<Rightarrow> (endpoint_key, endpoint_health_record) btree_map \<Rightarrow> upstream_endpoint list \<Rightarrow>
     nat \<Rightarrow> (nat, upstream_health_error) result" where
  "count_ready n records [] ready = Ok ready"
| "count_ready n records (ep # eps) ready =
     (case map_of records (n, ep_id ep) of
        None \<Rightarrow> Err (InconsistentState n (ep_id ep))
      | Some rec \<Rightarrow> count_ready n records eps
          (if state_is_ready (ep_state ep) \<and> is_available (hr_status rec) then ready + 1 else ready))"

definition uh_cluster_state ::
  "upstream_health_registry \<Rightarrow> cluster_name \<Rightarrow> (upstream_cluster_state, upstream_health_error) result" where
  "uh_cluster_state r n =
     and_then (ok_or (HealthRegistry (ClusterNotFound n)) (reg_cluster (uh_registry r) n)) (\<lambda>c.
       let total = length (cl_endpoints c) in
       if total = 0 then Ok ClusterEmpty
       else and_then (count_ready n (uh_records r) (cl_endpoints c) 0) (\<lambda>ready.
         if ready = 0 then Ok (ClusterUnavailable total) else Ok (ClusterReady total ready)))"

definition uh_endpoint_health ::
  "upstream_health_registry \<Rightarrow> cluster_name \<Rightarrow> endpoint_id \<Rightarrow>
     (endpoint_health_snapshot, upstream_health_error) result" where
  "uh_endpoint_health r n i =
     and_then (ok_or (HealthRegistry (ClusterNotFound n)) (reg_cluster (uh_registry r) n)) (\<lambda>c.
       if cluster_endpoint c i = None then Err (EndpointNotTracked n i)
       else and_then (ok_or (InconsistentState n i) (map_of (uh_records r) (n, i))) (\<lambda>rec.
         Ok (record_snapshot (uh_policy r) rec)))"

record endpoint_selection_candidate =
  sc_cluster_name :: cluster_name
  sc_endpoint_id :: endpoint_id
  sc_address :: socket_addr
  sc_metadata :: endpoint_metadata
  sc_health :: endpoint_health_snapshot

definition candidate_of ::
  "endpoint_health_policy \<Rightarrow> cluster_name \<Rightarrow> upstream_endpoint \<Rightarrow> endpoint_health_record \<Rightarrow>
     endpoint_selection_candidate" where
  "candidate_of policy n ep rec =
     \<lparr>sc_cluster_name = n, sc_endpoint_id = ep_id ep, sc_address = ep_address ep,
      sc_metadata = ep_metadata ep, sc_health = record_snapshot policy rec\<rparr>"

definition admits :: "bool \<Rightarrow> endpoint_health_status \<Rightarrow> bool" where
  "admits include_unhealthy s = (is_available s \<or> include_unhealthy \<and> s = Unhealthy)"

fun collect_candidates ::
  "endpoint_health_policy \<Rightarrow> cluster_name \<Rightarrow> (endpoint_key, endpoint_health_record) btree_map \<Rightarrow>
     bool \<Rightarrow> upstream_endpoint list \<Rightarrow>
     (endpoint_selection_candidate list, upstream_health_error) result" where
  "collect_candidates policy n records unh [] = Ok []"
| "collect_candidates policy n records unh (ep # eps) =
     (if \<not> state_is_ready (ep_state ep) then collect_candidates policy n records unh eps
      else case map_of records (n, ep_id ep) of
          None \<Rightarrow> Err (InconsistentState n (ep_id ep))
        | Some rec \<Rightarrow>
            and_then (collect_candidates policy n records unh eps) (\<lambda>rest.
              Ok (if admits unh (hr_status rec) then candidate_of policy n ep rec # rest else rest)))"

definition selection_candidates ::
  "upstream_health_registry \<Rightarrow> cluster_name \<Rightarrow> bool \<Rightarrow>
     (endpoint_selection_candidate list, upstream_health_error) result" where
  "selection_candidates r n include_unhealthy =
     and_then (ok_or (HealthRegistry (ClusterNotFound n)) (reg_cluster (uh_registry r) n)) (\<lambda>c.
     and_then (collect_candidates (uh_policy r) n (uh_records r) include_unhealthy (cl_endpoints c))
       (\<lambda>cs. Ok (sort_key sc_endpoint_id cs)))"

record upstream_health_metrics =
  um_counters :: health_metrics_state
  um_degraded_endpoint_count :: nat
  um_unhealthy_endpoint_count :: nat
  um_ejected_endpoint_count :: nat
  um_warming_endpoint_count :: nat

definition status_count ::
  "endpoint_health_status \<Rightarrow> (endpoint_key, endpoint_health_record) btree_map \<Rightarrow> nat" where
  "status_count s records = length (filter (\<lambda>(_, rec). hr_status rec = s) records)"

definition uh_metrics_snapshot :: "upstream_health_registry \<Rightarrow> upstream_health_metrics" where
  "uh_metrics_snapshot r =
     \<lparr>um_counters = uh_metrics r,
      um_degraded_endpoint_count = status_count Degraded (uh_records r),
      um_unhealthy_endpoint_count = status_count Unhealthy (uh_records r),
      um_ejected_endpoint_count = status_count Ejected (uh_records r),
      um_warming_endpoint_count = status_count Warming (uh_records r)\<rparr>"


section \<open>One record: status and weight agree\<close>

definition health_policy_ok :: "endpoint_health_policy \<Rightarrow> bool" where
  "health_policy_ok policy \<longleftrightarrow> hp_slow_start_min_weight_percent policy \<le> 100"

definition status_weight_ok :: "endpoint_health_record \<Rightarrow> bool" where
  "status_weight_ok rec \<longleftrightarrow>
     (hr_status rec \<in> {Healthy, Degraded} \<longrightarrow> hr_effective_weight rec = hr_nominal_weight rec) \<and>
     (hr_status rec = Warming \<longrightarrow>
        1 \<le> hr_effective_weight rec \<and> hr_effective_weight rec \<le> hr_nominal_weight rec) \<and>
     (hr_status rec \<in> {Unhealthy, Ejected} \<longrightarrow> hr_effective_weight rec = 0)"

definition record_wf :: "endpoint_health_policy \<Rightarrow> endpoint_health_record \<Rightarrow> bool" where
  "record_wf policy rec \<longleftrightarrow>
     1 \<le> hr_nominal_weight rec \<and> hr_nominal_weight rec < 2 ^ 16 \<and> status_weight_ok rec \<and>
     (hr_status rec \<noteq> Ejected \<longrightarrow> hr_remaining_ejection rec = 0) \<and>
     bt_ok (hr_passive_failures_by_protocol rec) \<and>
     length (hr_passive_results_window rec) \<le> hp_outlier_window_size policy"

lemma warmup_weight_bounds:
  assumes "1 \<le> nominal" and "nominal < 2 ^ 16" and "pct \<le> 100"
  shows "1 \<le> warmup_weight nominal el wd pct \<and> warmup_weight nominal el wd pct \<le> nominal"
proof -
  have "sat_mul 32 nominal (max pct 1) \<le> nominal * 100"
    using assms(3) by (simp add: sat_mul_def min.coboundedI1)
  then have "sat_mul 32 nominal (max pct 1) div 100 \<le> nominal" by simp
  then have m: "max (sat_mul 32 nominal (max pct 1) div 100) 1 < 2 ^ 16"
    using assms(2) by simp
  have "1 \<le> cast_to 16 (max (sat_mul 32 nominal (max pct 1) div 100) 1)"
    by (subst cast_to_id [OF m]) simp
  then show ?thesis
    using assms(1) unfolding warmup_weight_def Let_def by auto
qed

lemma health_record_new_wf:
  "1 \<le> em_weight (ep_metadata ep) \<Longrightarrow> em_weight (ep_metadata ep) < 2 ^ 16 \<Longrightarrow>
     record_wf policy (health_record_new ep policy)"
  by (simp add: health_record_new_def record_wf_def status_weight_ok_def Let_def)

lemma bt_ok_map_snd: "bt_ok (map (\<lambda>(p, v). (p, f p v)) m) \<longleftrightarrow> bt_ok m"
  by (simp add: bt_ok_def comp_def case_prod_beta)

lemma shrink_window_length: "length (shrink_window n xs) \<le> n"
  by (induction xs) auto

lemma transition_on_failures_wf: "record_wf policy rec \<Longrightarrow> record_wf policy (transition_on_failures policy force rec)"
  by (simp add: transition_on_failures_def record_wf_def status_weight_ok_def)

lemma transition_on_success_wf: "record_wf policy rec \<Longrightarrow> record_wf policy (transition_on_success policy rec)"
  by (cases "hr_status rec")
    (simp_all add: transition_on_success_def record_wf_def status_weight_ok_def Let_def
      clear_protocol_failure_state_def bt_ok_map_snd [where f = "\<lambda>_ _. 0"])

lemma push_passive_result_wf: "record_wf policy rec \<Longrightarrow>
    record_wf policy (push_passive_result b (hp_outlier_window_size policy) rec)"
  by (auto simp: push_passive_result_def record_wf_def status_weight_ok_def shrink_window_length)

lemma signal_prep_wf:
  assumes "record_wf policy rec"
  shows "record_wf policy (rec\<lparr>hr_recovery_successes := a\<rparr>)"
    "record_wf policy (rec\<lparr>hr_active_failures := b, hr_recovery_successes := a\<rparr>)"
    "record_wf policy (refresh_passive_failure_aggregate rec)"
    "record_wf policy (increment_protocol_failure_counter p rec)"
    "record_wf policy (clear_protocol_failure_counter p rec)"
  using assms
  by (simp_all add: record_wf_def status_weight_ok_def refresh_passive_failure_aggregate_def
      increment_protocol_failure_counter_def clear_protocol_failure_counter_def bt_simps)

lemmas record_wf_intros =
  transition_on_failures_wf transition_on_success_wf push_passive_result_wf signal_prep_wf

lemma signal_record_wf: "record_wf policy rec \<Longrightarrow> record_wf policy (signal_record policy sg rec)"
  by (cases sg) (simp_all add: signal_record_def record_wf_intros Let_def)

lemma advance_record_wf:
  assumes "record_wf policy rec" and "health_policy_ok policy"
  shows "record_wf policy (advance_record policy elapsed rec)"
proof -
  let ?r = "advance_ejection elapsed rec"
  have r: "record_wf policy ?r"
    using assms(1) by (auto simp: advance_ejection_def record_wf_def status_weight_ok_def)
  have "1 \<le> warmup_weight (hr_nominal_weight ?r) w wd (hp_slow_start_min_weight_percent policy) \<and>
      warmup_weight (hr_nominal_weight ?r) w wd (hp_slow_start_min_weight_percent policy) \<le> hr_nominal_weight ?r"
    for w wd
    using r assms(2) by (intro warmup_weight_bounds) (auto simp: record_wf_def health_policy_ok_def)
  with r show ?thesis
    by (auto simp: advance_record_def advance_warmup_def record_wf_def status_weight_ok_def Let_def)
qed

lemma signal_record_nominal [simp]: "hr_nominal_weight (signal_record policy sg rec) = hr_nominal_weight rec"
  by (cases sg) (simp_all add: signal_record_def Let_def transition_on_failures_def
      transition_on_success_def push_passive_result_def refresh_passive_failure_aggregate_def
      increment_protocol_failure_counter_def clear_protocol_failure_counter_def
      clear_protocol_failure_state_def)

lemma advance_record_nominal [simp]: "hr_nominal_weight (advance_record policy e rec) = hr_nominal_weight rec"
  by (simp add: advance_record_def advance_warmup_def advance_ejection_def Let_def)

lemma health_record_new_nominal [simp]:
  "hr_nominal_weight (health_record_new ep policy) = em_weight (ep_metadata ep)"
  by (simp add: health_record_new_def Let_def)

lemma signalled_record_wf:
  "record_wf (uh_policy r) rec \<Longrightarrow> record_wf (uh_policy r) (signalled_record n i sg r rec)"
  using signal_record_wf [of "uh_policy r" rec sg]
  by (auto simp: signalled_record_def Let_def record_wf_def status_weight_ok_def)

lemma signalled_record_nominal [simp]: "hr_nominal_weight (signalled_record n i sg r rec) = hr_nominal_weight rec"
  by (simp add: signalled_record_def Let_def)

section \<open>The registry: every endpoint has its record\<close>

definition reg_endpoint :: "endpoint_registry \<Rightarrow> endpoint_key \<Rightarrow> upstream_endpoint option" where
  "reg_endpoint reg key = (case reg_view reg (fst key) of None \<Rightarrow> None | Some m \<Rightarrow> m (snd key))"

definition tracks :: "endpoint_health_policy \<Rightarrow> endpoint_health_record \<Rightarrow> upstream_endpoint \<Rightarrow> bool" where
  "tracks policy rec ep \<longleftrightarrow>
     record_wf policy rec \<and> hr_nominal_weight rec = em_weight (ep_metadata ep)"

definition uh_wf :: "upstream_health_registry \<Rightarrow> bool" where
  "uh_wf r \<longleftrightarrow> reg_wf (uh_registry r) \<and> bt_ok (uh_records r) \<and> health_policy_ok (uh_policy r) \<and>
     length (uh_events r) \<le> MAX_HEALTH_EVENTS \<and>
     (\<forall>key. rel_option (tracks (uh_policy r)) (map_of (uh_records r) key) (reg_endpoint (uh_registry r) key))"

lemma uh_wf_rel: "uh_wf r \<Longrightarrow>
    rel_option (tracks (uh_policy r)) (map_of (uh_records r) key) (reg_endpoint (uh_registry r) key)"
  unfolding uh_wf_def by blast

lemma uh_wf_parts:
  assumes "uh_wf r"
  shows "reg_wf (uh_registry r)" "bt_ok (uh_records r)" "health_policy_ok (uh_policy r)"
    "length (uh_events r) \<le> MAX_HEALTH_EVENTS"
  using assms unfolding uh_wf_def by blast+

text \<open>The weight of an endpoint is a \<open>u16\<close>.\<close>

definition endpoint_typed :: "upstream_endpoint \<Rightarrow> bool" where
  "endpoint_typed ep \<longleftrightarrow> em_weight (ep_metadata ep) < 2 ^ 16"

lemma endpoint_validate_weight: "endpoint_validate ep = Ok () \<Longrightarrow> 1 \<le> em_weight (ep_metadata ep)"
  by (auto simp: endpoint_validate_def metadata_validate_def and_then_eq_Ok split: if_splits)

lemma health_record_new_tracks:
  "endpoint_validate ep = Ok () \<Longrightarrow> endpoint_typed ep \<Longrightarrow> tracks policy (health_record_new ep policy) ep"
  using endpoint_validate_weight [of ep]
  by (simp add: tracks_def health_record_new_wf endpoint_typed_def)

lemma push_health_event_simps [simp]:
  "uh_records (push_health_event kd n i d r) = uh_records r"
  "uh_registry (push_health_event kd n i d r) = uh_registry r"
  "uh_policy (push_health_event kd n i d r) = uh_policy r"
  "uh_metrics (push_health_event kd n i d r) = uh_metrics r"
  by (simp_all add: push_health_event_def)

lemma push_health_event_bounded:
  "length (uh_events r) \<le> MAX_HEALTH_EVENTS \<Longrightarrow>
     length (uh_events (push_health_event kd n i d r)) \<le> MAX_HEALTH_EVENTS"
  by (simp add: push_health_event_def push_bounded_length MAX_HEALTH_EVENTS_def)

lemma push_health_event_wf [simp]: "uh_wf r \<Longrightarrow> uh_wf (push_health_event kd n i d r)"
  by (simp add: uh_wf_def push_health_event_bounded)

lemma admit_endpoint_simps [simp]:
  "uh_registry (admit_endpoint n ep r) = uh_registry r"
  "uh_policy (admit_endpoint n ep r) = uh_policy r"
  "uh_records (admit_endpoint n ep r) =
     bt_insert (n, ep_id ep) (health_record_new ep (uh_policy r)) (uh_records r)"
  by (simp_all add: admit_endpoint_def Let_def)

lemma admit_endpoint_bounded:
  "length (uh_events r) \<le> MAX_HEALTH_EVENTS \<Longrightarrow>
     length (uh_events (admit_endpoint n ep r)) \<le> MAX_HEALTH_EVENTS"
  by (simp add: admit_endpoint_def Let_def push_health_event_bounded)

lemma fold_admit_frame:
  "uh_registry (fold (admit_endpoint n) eps r) = uh_registry r \<and>
   uh_policy (fold (admit_endpoint n) eps r) = uh_policy r \<and>
   (bt_ok (uh_records r) \<longrightarrow> bt_ok (uh_records (fold (admit_endpoint n) eps r))) \<and>
   (length (uh_events r) \<le> MAX_HEALTH_EVENTS \<longrightarrow>
      length (uh_events (fold (admit_endpoint n) eps r)) \<le> MAX_HEALTH_EVENTS)"
  by (induction eps arbitrary: r) (auto simp: admit_endpoint_bounded bt_insert_ok)

lemma fold_admit_records:
  assumes "bt_ok (uh_records r)" and "distinct (map ep_id eps)"
  shows "map_of (uh_records (fold (admit_endpoint n) eps r)) key =
     (case (if fst key = n then find (\<lambda>ep. ep_id ep = snd key) eps else None) of
        Some ep \<Rightarrow> Some (health_record_new ep (uh_policy r))
      | None \<Rightarrow> map_of (uh_records r) key)"
  using assms
proof (induction eps arbitrary: r)
  case Nil
  then show ?case by simp
next
  case (Cons ep eps)
  have none: "find (\<lambda>x. ep_id x = ep_id ep) eps = None"
    using Cons.prems(2) by (auto simp: find_None_iff rev_image_eqI)
  have "map_of (uh_records (fold (admit_endpoint n) (ep # eps) r)) key =
     (case (if fst key = n then find (\<lambda>x. ep_id x = snd key) eps else None) of
        Some x \<Rightarrow> Some (health_record_new x (uh_policy r))
      | None \<Rightarrow> map_of (uh_records (admit_endpoint n ep r)) key)"
    using Cons.prems by (subst fold_simps, subst Cons.IH) (simp_all add: bt_insert_ok split: option.split)
  then show ?case
    using Cons.prems(1) none by (cases key) (auto simp: map_of_bt_insert split: option.splits)
qed

section \<open>Preservation of the invariant\<close>

lemma uh_insert_cluster_wf:
  assumes wf: "uh_wf r" and c: "cluster_wf c" and typed: "\<forall>ep\<in>set (cl_endpoints c). endpoint_typed ep"
  shows "uh_wf (snd (uh_insert_cluster c r))"
proof (cases "reg_insert_cluster c (uh_registry r)")
  case (Pair res reg)
  have reg_wf': "reg_wf reg"
    using wf c reg_insert_cluster_wf [of "uh_registry r" c] Pair by (simp add: uh_wf_def)
  show ?thesis
  proof (cases res)
    case (Inl e)
    with Pair have "reg_view reg = reg_view (uh_registry r)"
      by (auto dest: reg_insert_cluster_view_Err)
    with wf reg_wf' Pair Inl show ?thesis
      by (simp add: uh_insert_cluster_def uh_wf_def reg_endpoint_def)
  next
    case (Inr u)
    have view: "reg_view (uh_registry r) (cl_name c) = None"
      "reg_view reg = (reg_view (uh_registry r))(cl_name c \<mapsto> cluster_endpoint c)"
      using wf Pair Inr reg_insert_cluster_view [of "uh_registry r" c reg] by (auto simp: uh_wf_def)
    let ?r = "r\<lparr>uh_registry := reg\<rparr>"
    let ?r' = "fold (admit_endpoint (cl_name c)) (cl_endpoints c) ?r"
    have dist: "distinct (map ep_id (cl_endpoints c))" using c by (simp add: cluster_wf_def)
    have recs: "map_of (uh_records ?r') key =
        (case (if fst key = cl_name c then cluster_endpoint c (snd key) else None) of
           Some ep \<Rightarrow> Some (health_record_new ep (uh_policy r))
         | None \<Rightarrow> map_of (uh_records r) key)" for key
      using fold_admit_records [OF _ dist, of ?r "cl_name c" key] uh_wf_parts(2) [OF wf]
      by (simp add: cluster_endpoint_def split: option.split)
    have "rel_option (tracks (uh_policy r)) (map_of (uh_records ?r') key) (reg_endpoint reg key)" for key
    proof (cases "fst key = cl_name c")
      case True
      have old: "map_of (uh_records r) key = None"
        using uh_wf_rel [OF wf, of key] view(1) True by (simp add: reg_endpoint_def)
      have "tracks (uh_policy r) (health_record_new ep (uh_policy r)) ep"
        if "cluster_endpoint c (snd key) = Some ep" for ep
      proof -
        from that have "ep \<in> set (cl_endpoints c)"
          using c by (simp add: cluster_endpoint_mem)
        with c typed show ?thesis
          by (auto simp: cluster_wf_def intro: health_record_new_tracks)
      qed
      with True old recs [of key] view(2) show ?thesis
        by (cases "cluster_endpoint c (snd key)") (simp_all add: reg_endpoint_def)
    next
      case False
      with recs [of key] view(2) uh_wf_rel [OF wf, of key] show ?thesis by (simp add: reg_endpoint_def)
    qed
    with reg_wf' wf fold_admit_frame [of "cl_name c" "cl_endpoints c" ?r] Pair Inr show ?thesis
      by (simp add: uh_insert_cluster_def uh_wf_def)
  qed
qed

lemma uh_remove_cluster_wf:
  assumes wf: "uh_wf r"
  shows "uh_wf (snd (uh_remove_cluster n r))"
proof (cases "reg_remove_cluster n (uh_registry r)")
  case (Pair removed reg)
  have reg_wf': "reg_wf reg"
    using wf reg_remove_cluster_wf [of "uh_registry r" n] Pair by (simp add: uh_wf_def)
  have view: "map_option cluster_endpoint removed = reg_view (uh_registry r) n"
    "reg_view reg = (reg_view (uh_registry r))(n := None)"
    using reg_remove_cluster_view [OF Pair] by auto
  show ?thesis
  proof (cases removed)
    case None
    then have "reg_view reg = reg_view (uh_registry r)" using view by auto
    with wf reg_wf' Pair None show ?thesis
      by (simp add: uh_remove_cluster_def uh_wf_def reg_endpoint_def)
  next
    case (Some c)
    have "rel_option (tracks (uh_policy r))
        (map_of (bt_retain (\<lambda>key. fst key \<noteq> n) (uh_records r)) key) (reg_endpoint reg key)" for key
      using uh_wf_rel [OF wf, of key] view(2) by (simp add: map_of_bt_retain reg_endpoint_def)
    with wf reg_wf' Pair Some show ?thesis
      by (simp add: uh_remove_cluster_def uh_wf_def bt_retain_ok)
  qed
qed

lemma uh_insert_endpoint_wf:
  assumes wf: "uh_wf r" and typed: "endpoint_typed ep"
  shows "uh_wf (snd (uh_insert_endpoint n ep r))"
proof (cases "reg_insert_endpoint n ep (uh_registry r)")
  case (Pair res reg)
  have reg_wf': "reg_wf reg"
    using wf reg_insert_endpoint_wf [of "uh_registry r" n ep] Pair by (simp add: uh_wf_def)
  show ?thesis
  proof (cases res)
    case (Inl e)
    with Pair have "reg_view reg = reg_view (uh_registry r)"
      by (auto dest: reg_insert_endpoint_view_Err)
    with wf reg_wf' Pair Inl show ?thesis
      by (simp add: uh_insert_endpoint_def uh_wf_def reg_endpoint_def Let_def)
  next
    case (Inr u)
    then obtain m where m: "reg_view (uh_registry r) n = Some m"
      "reg_view reg = (reg_view (uh_registry r))(n \<mapsto> m(ep_id ep \<mapsto> ep))"
      using wf Pair reg_insert_endpoint_view [of "uh_registry r" n ep reg] by (auto simp: uh_wf_def)
    have "endpoint_validate ep = Ok ()"
      using Pair Inr by (auto simp: reg_insert_endpoint_def cluster_insert_endpoint_def and_then_eq_Ok
          split: option.splits sum.splits upstream_model_error.splits if_splits)
    then have new: "tracks (uh_policy r) (health_record_new ep (uh_policy r)) ep"
      using typed by (rule health_record_new_tracks)
    have "rel_option (tracks (uh_policy r))
        (map_of (bt_insert (n, ep_id ep) (health_record_new ep (uh_policy r)) (uh_records r)) key)
        (reg_endpoint reg key)" for key
      using uh_wf_rel [OF wf, of key] uh_wf_parts(2) [OF wf] m new
      by (cases key) (auto simp: map_of_bt_insert reg_endpoint_def)
    with wf reg_wf' Pair Inr show ?thesis
      by (simp add: uh_insert_endpoint_def uh_wf_def bt_insert_ok push_health_event_bounded Let_def)
  qed
qed

lemma uh_remove_endpoint_wf:
  assumes wf: "uh_wf r"
  shows "uh_wf (snd (uh_remove_endpoint n i r))"
proof (cases "reg_remove_endpoint n i (uh_registry r)")
  case (Pair res reg)
  have reg_wf': "reg_wf reg"
    using reg_remove_endpoint_wf [OF uh_wf_parts(1) [OF wf], of n i] Pair by simp
  show ?thesis
  proof (cases res)
    case (Inl e)
    with Pair have "reg_view reg = reg_view (uh_registry r)"
      using reg_remove_endpoint_view_Err [OF uh_wf_parts(1) [OF wf]] by blast
    with wf reg_wf' Pair Inl show ?thesis
      by (simp add: uh_remove_endpoint_def uh_wf_def reg_endpoint_def)
  next
    case (Inr ep)
    then obtain m where m: "reg_view (uh_registry r) n = Some m"
      "reg_view reg = (reg_view (uh_registry r))(n \<mapsto> m(i := None))"
      using Pair reg_remove_endpoint_view [OF uh_wf_parts(1) [OF wf], of n i ep reg] by auto
    have "rel_option (tracks (uh_policy r)) (map_of (bt_remove (n, i) (uh_records r)) key)
        (reg_endpoint reg key)" for key
      using uh_wf_rel [OF wf, of key] m
      by (cases key) (auto simp: map_of_bt_remove reg_endpoint_def)
    with wf reg_wf' Pair Inr show ?thesis
      by (simp add: uh_remove_endpoint_def uh_wf_def bt_remove_ok)
  qed
qed

lemma tracks_metadata:
  "map_option ep_metadata a = map_option ep_metadata b \<Longrightarrow>
     rel_option (tracks policy) x a \<longleftrightarrow> rel_option (tracks policy) x b"
  by (cases x; cases a; cases b) (simp_all add: tracks_def)

lemma reg_endpoint_metadata:
  assumes "map_option (\<lambda>m i. map_option ep_metadata (m i)) (reg_view reg' (fst key))
         = map_option (\<lambda>m i. map_option ep_metadata (m i)) (reg_view reg (fst key))"
  shows "map_option ep_metadata (reg_endpoint reg' key) = map_option ep_metadata (reg_endpoint reg key)"
  using assms
  by (cases "reg_view reg' (fst key)"; cases "reg_view reg (fst key)")
    (auto simp: reg_endpoint_def dest: fun_cong [of _ _ "snd key"])

lemma uh_set_endpoint_state_wf:
  assumes wf: "uh_wf r"
  shows "uh_wf (snd (uh_set_endpoint_state n i st r))"
proof -
  let ?reg = "snd (reg_set_endpoint_state n i st (uh_registry r))"
  have eq: "snd (uh_set_endpoint_state n i st r) = r\<lparr>uh_registry := ?reg\<rparr>"
    by (simp add: uh_set_endpoint_state_def split: prod.split sum.split)
  have "rel_option (tracks (uh_policy r)) (map_of (uh_records r) key) (reg_endpoint ?reg key)" for key
    using uh_wf_rel [OF wf, of key] tracks_metadata
      [OF reg_endpoint_metadata [OF reg_set_endpoint_state_view [OF uh_wf_parts(1) [OF wf]]]]
    by blast
  with wf reg_set_endpoint_state_wf [OF uh_wf_parts(1) [OF wf]] show ?thesis
    by (simp add: eq uh_wf_def)
qed

lemma uh_wf_records:
  assumes wf: "uh_wf r" and rec: "map_of (uh_records r) key = Some rec"
    and new: "record_wf (uh_policy r) rec'" "hr_nominal_weight rec' = hr_nominal_weight rec"
  shows "uh_wf (r\<lparr>uh_records := bt_insert key rec' (uh_records r), uh_metrics := m\<rparr>)"
proof -
  have "rel_option (tracks (uh_policy r)) (map_of (bt_insert key rec' (uh_records r)) k)
      (reg_endpoint (uh_registry r) k)" for k
    using uh_wf_rel [OF wf, of k] rec new uh_wf_parts(2) [OF wf]
    by (cases "reg_endpoint (uh_registry r) k") (auto simp: map_of_bt_insert tracks_def)
  with wf show ?thesis by (simp add: uh_wf_def bt_insert_ok)
qed

lemma uh_wf_metrics [simp]: "uh_wf (r\<lparr>uh_metrics := m\<rparr>) = uh_wf r"
  by (simp add: uh_wf_def)

lemma uh_wf_record_wf: "uh_wf r \<Longrightarrow> map_of (uh_records r) key = Some rec \<Longrightarrow> record_wf (uh_policy r) rec"
  using uh_wf_rel [of r key] by (cases "reg_endpoint (uh_registry r) key") (auto simp: tracks_def)

lemma apply_signal_wf:
  assumes wf: "uh_wf r"
  shows "uh_wf (snd (apply_signal n i sg r))"
proof (cases "map_of (uh_records r) (n, i)")
  case None
  with wf show ?thesis by (simp add: apply_signal_def)
next
  case (Some rec)
  let ?rec = "signalled_record n i sg r rec"
  have "record_wf (uh_policy r) ?rec"
    using wf Some by (intro signalled_record_wf uh_wf_record_wf)
  then have "uh_wf (r\<lparr>uh_records := bt_insert (n, i) ?rec (uh_records r),
      uh_metrics := count_transition (hr_status rec) (hr_status ?rec) (uh_metrics r)\<rparr>)"
    using wf Some by (intro uh_wf_records) simp_all
  with Some show ?thesis by (simp add: apply_signal_def Let_def)
qed

lemma fold_push_event_wf:
  "uh_wf r \<Longrightarrow> uh_wf (fold (\<lambda>(key, _). push_health_event kd (fst key) (snd key) d) ks r)"
  by (induction ks arbitrary: r) (auto simp: case_prod_beta)

lemma map_of_map_val: "map_of (map (\<lambda>(k, v). (k, f v)) m) k = map_option f (map_of m k)"
  by (induction m) auto

lemma advance_time_wf:
  assumes wf: "uh_wf r"
  shows "uh_wf (advance_time elapsed r)"
proof -
  let ?f = "advance_record (uh_policy r) elapsed"
  have "rel_option (tracks (uh_policy r)) (map_of (map (\<lambda>(key, rec). (key, ?f rec)) (uh_records r)) k)
      (reg_endpoint (uh_registry r) k)" for k
    using uh_wf_rel [OF wf, of k] uh_wf_parts(3) [OF wf]
    by (cases "map_of (uh_records r) k"; cases "reg_endpoint (uh_registry r) k")
      (auto simp: map_of_map_val tracks_def advance_record_wf)
  then have "uh_wf (r\<lparr>uh_records := map (\<lambda>(key, rec). (key, ?f rec)) (uh_records r), uh_metrics := m\<rparr>)" for m
    using wf by (simp add: uh_wf_def bt_ok_map_snd [where f = "\<lambda>_. ?f"])
  then show ?thesis
    using wf unfolding advance_time_def Let_def by (simp add: fold_push_event_wf)
qed

section \<open>The machine of health registry operations\<close>

datatype health_op =
    HInsertCluster cluster_name "upstream_endpoint list"
  | HRemoveCluster cluster_name
  | HInsertEndpoint cluster_name upstream_endpoint
  | HRemoveEndpoint cluster_name endpoint_id
  | HSetEndpointState cluster_name endpoint_id endpoint_state
  | HActiveSuccess cluster_name endpoint_id
  | HActiveFailure cluster_name endpoint_id
  | HPassiveSuccess cluster_name endpoint_id protocol_health_class
  | HPassiveFailure cluster_name endpoint_id protocol_health_class
  | HAdvanceTime duration

fun health_step :: "upstream_health_registry \<Rightarrow> health_op \<Rightarrow> upstream_health_registry" where
  "health_step r (HInsertCluster n eps) =
     (case cluster_new n eps of Inl _ \<Rightarrow> r | Inr c \<Rightarrow> snd (uh_insert_cluster c r))"
| "health_step r (HRemoveCluster n) = snd (uh_remove_cluster n r)"
| "health_step r (HInsertEndpoint n ep) = snd (uh_insert_endpoint n ep r)"
| "health_step r (HRemoveEndpoint n i) = snd (uh_remove_endpoint n i r)"
| "health_step r (HSetEndpointState n i st) = snd (uh_set_endpoint_state n i st r)"
| "health_step r (HActiveSuccess n i) = snd (note_active_success n i r)"
| "health_step r (HActiveFailure n i) = snd (note_active_failure n i r)"
| "health_step r (HPassiveSuccess n i p) = snd (note_passive_success_for_protocol n i p r)"
| "health_step r (HPassiveFailure n i p) = snd (note_passive_failure_for_protocol n i p r)"
| "health_step r (HAdvanceTime d) = advance_time d r"

fun health_op_typed :: "health_op \<Rightarrow> bool" where
  "health_op_typed (HInsertCluster n eps) = list_all endpoint_typed eps"
| "health_op_typed (HInsertEndpoint n ep) = endpoint_typed ep"
| "health_op_typed _ = True"

lemma health_step_wf: "health_op_typed op \<Longrightarrow> uh_wf r \<Longrightarrow> uh_wf (health_step r op)"
  by (cases op)
    (auto simp: uh_remove_cluster_wf uh_insert_endpoint_wf uh_remove_endpoint_wf
      uh_set_endpoint_state_wf apply_signal_wf advance_time_wf note_active_success_def
      note_active_failure_def note_passive_success_for_protocol_def
      note_passive_failure_for_protocol_def cluster_new_Ok list_all_iff
      intro!: uh_insert_cluster_wf split: sum.split)

interpretation health: invariant_machine health_step health_op_typed uh_wf
  by unfold_locales (rule health_step_wf)

lemma health_registry_new_wf: "health_policy_ok policy \<Longrightarrow> uh_wf (health_registry_new policy)"
  using reg_wf_new
  by (simp add: uh_wf_def health_registry_new_def reg_endpoint_def reg_view_def registry_new_def)

section \<open>Queries on well-formed registries\<close>

lemma uh_wf_record:
  assumes "uh_wf r" and "map_of (er_clusters (uh_registry r)) n = Some c" and "ep \<in> set (cl_endpoints c)"
  shows "\<exists>rec. map_of (uh_records r) (n, ep_id ep) = Some rec \<and> tracks (uh_policy r) rec ep"
proof -
  have "cluster_wf c" using assms(1,2) uh_wf_parts(1) reg_wf_cluster by blast
  with assms(2,3) have "reg_endpoint (uh_registry r) (n, ep_id ep) = Some ep"
    by (simp add: reg_endpoint_def reg_view_def cluster_endpoint_mem)
  with uh_wf_rel [OF assms(1), of "(n, ep_id ep)"] show ?thesis
    by (cases "map_of (uh_records r) (n, ep_id ep)") auto
qed

definition candidate_list ::
  "endpoint_health_policy \<Rightarrow> cluster_name \<Rightarrow> (endpoint_key, endpoint_health_record) btree_map \<Rightarrow> bool \<Rightarrow>
     upstream_endpoint list \<Rightarrow> endpoint_selection_candidate list" where
  "candidate_list policy n records unh eps =
     map (\<lambda>ep. candidate_of policy n ep (the (map_of records (n, ep_id ep))))
       (filter (\<lambda>ep. state_is_ready (ep_state ep) \<and>
                     admits unh (hr_status (the (map_of records (n, ep_id ep))))) eps)"

lemma collect_candidates_total:
  "\<forall>ep\<in>set eps. \<exists>rec. map_of records (n, ep_id ep) = Some rec \<Longrightarrow>
     collect_candidates policy n records unh eps = Ok (candidate_list policy n records unh eps)"
  by (induction eps) (auto simp: candidate_list_def)

lemma count_ready_total:
  "\<forall>ep\<in>set eps. \<exists>rec. map_of records (n, ep_id ep) = Some rec \<Longrightarrow>
     count_ready n records eps k = Ok (k + length (candidate_list policy n records False eps))"
  by (induction eps arbitrary: k) (auto simp: candidate_list_def admits_def)

lemma selection_candidates_eq:
  assumes "uh_wf r" and "map_of (er_clusters (uh_registry r)) n = Some c"
  shows "selection_candidates r n unh =
    Ok (sort_key sc_endpoint_id (candidate_list (uh_policy r) n (uh_records r) unh (cl_endpoints c)))"
proof -
  have "\<forall>ep\<in>set (cl_endpoints c). \<exists>rec. map_of (uh_records r) (n, ep_id ep) = Some rec"
    using uh_wf_record [OF assms] by blast
  then show ?thesis
    using assms(2) by (simp add: selection_candidates_def reg_cluster_def collect_candidates_total)
qed

lemma selection_candidates_Ok:
  assumes "uh_wf r" and "selection_candidates r n unh = Ok cs"
  obtains c where "map_of (er_clusters (uh_registry r)) n = Some c" "cluster_wf c"
    "cs = sort_key sc_endpoint_id (candidate_list (uh_policy r) n (uh_records r) unh (cl_endpoints c))"
proof (cases "map_of (er_clusters (uh_registry r)) n")
  case None
  with assms(2) show ?thesis by (simp add: selection_candidates_def reg_cluster_def)
next
  case (Some c)
  with assms have "cluster_wf c" using uh_wf_parts(1) reg_wf_cluster by blast
  with Some selection_candidates_eq [OF assms(1) Some, of unh] assms(2) show ?thesis
    by (auto intro!: that)
qed

definition query_consistent :: "upstream_health_registry \<Rightarrow> bool" where
  "query_consistent r \<longleftrightarrow>
     (\<forall>n i e. e = InconsistentState n i \<longrightarrow>
        (\<forall>m. uh_cluster_state r m \<noteq> Err e) \<and> (\<forall>m j. uh_endpoint_health r m j \<noteq> Err e) \<and>
        (\<forall>m unh. selection_candidates r m unh \<noteq> Err e))"

lemma uh_cluster_state_eq:
  assumes "uh_wf r" and "map_of (er_clusters (uh_registry r)) n = Some c"
  shows "uh_cluster_state r n =
    Ok (let k = length (candidate_list (uh_policy r) n (uh_records r) False (cl_endpoints c)) in
        if cl_endpoints c = [] then ClusterEmpty
        else if k = 0 then ClusterUnavailable (length (cl_endpoints c))
        else ClusterReady (length (cl_endpoints c)) k)"
proof -
  have "\<forall>ep\<in>set (cl_endpoints c). \<exists>rec. map_of (uh_records r) (n, ep_id ep) = Some rec"
    using uh_wf_record [OF assms] by blast
  from count_ready_total [OF this, where policy = "uh_policy r"] assms(2) show ?thesis
    by (simp add: uh_cluster_state_def reg_cluster_def Let_def)
qed

lemma uh_endpoint_health_eq:
  assumes "uh_wf r" and "map_of (er_clusters (uh_registry r)) n = Some c"
  shows "uh_endpoint_health r n i =
    (case map_of (uh_records r) (n, i) of
       None \<Rightarrow> Err (EndpointNotTracked n i) | Some rec \<Rightarrow> Ok (record_snapshot (uh_policy r) rec))"
  using uh_wf_rel [OF assms(1), of "(n, i)"] assms(2)
  by (cases "cluster_endpoint c i"; cases "map_of (uh_records r) (n, i)")
    (simp_all add: uh_endpoint_health_def reg_cluster_def reg_endpoint_def reg_view_def)

lemma uh_wf_consistent:
  assumes "uh_wf r"
  shows "query_consistent r"
proof -
  have "uh_cluster_state r m \<noteq> Err (InconsistentState n i) \<and>
      uh_endpoint_health r m j \<noteq> Err (InconsistentState n i) \<and>
      selection_candidates r m unh \<noteq> Err (InconsistentState n i)" for n i m j unh
  proof (cases "map_of (er_clusters (uh_registry r)) m")
    case None
    then show ?thesis
      by (simp add: uh_cluster_state_def uh_endpoint_health_def selection_candidates_def reg_cluster_def)
  next
    case (Some c)
    from uh_cluster_state_eq [OF assms this] uh_endpoint_health_eq [OF assms this]
      selection_candidates_eq [OF assms this] show ?thesis
      by (simp split: option.split)
  qed
  then show ?thesis unfolding query_consistent_def by blast
qed

definition health_run :: "endpoint_health_policy \<Rightarrow> health_op list \<Rightarrow> upstream_health_registry" where
  "health_run policy ops = foldl health_step (health_registry_new policy) ops"

lemma health_run_wf:
  "health_policy_ok policy \<Longrightarrow> list_all health_op_typed ops \<Longrightarrow> uh_wf (health_run policy ops)"
  unfolding health_run_def by (intro health.run_inv health_registry_new_wf)

text \<open>
  After any sequence of registry operations and health signals, starting from the empty
  registry, no query ever reports an inconsistency between the endpoint registry and the
  health records: the error \<open>InconsistentState\<close> of the code is unreachable.
\<close>

lemma health_never_inconsistent:
  "health_policy_ok policy \<Longrightarrow> list_all health_op_typed ops \<Longrightarrow> query_consistent (health_run policy ops)"
  by (intro uh_wf_consistent health_run_wf)

definition sample_endpoint :: "string \<Rightarrow> nat \<Rightarrow> upstream_endpoint" where
  "sample_endpoint i w =
     \<lparr>ep_id = i, ep_address = \<lparr>sa_ip = V4 0x0a000001, sa_port = 80\<rparr>, ep_state = StateReady,
      ep_metadata = \<lparr>em_zone = None, em_locality = None, em_weight = w\<rparr>\<rparr>"

section \<open>Selection candidates\<close>

lemma candidate_list_mem:
  "x \<in> set (candidate_list policy n records unh eps) \<longleftrightarrow>
     (\<exists>ep\<in>set eps. state_is_ready (ep_state ep) \<and>
        admits unh (hr_status (the (map_of records (n, ep_id ep)))) \<and>
        x = candidate_of policy n ep (the (map_of records (n, ep_id ep))))"
  by (auto simp: candidate_list_def)

lemma candidate_list_ids:
  "map sc_endpoint_id (candidate_list policy n records unh eps) =
     map ep_id (filter (\<lambda>ep. state_is_ready (ep_state ep) \<and>
       admits unh (hr_status (the (map_of records (n, ep_id ep))))) eps)"
  by (simp add: candidate_list_def candidate_of_def)

definition candidate_sound ::
  "upstream_health_registry \<Rightarrow> cluster_name \<Rightarrow> endpoint_selection_candidate \<Rightarrow> bool" where
  "candidate_sound r n x \<longleftrightarrow>
     sc_cluster_name x = n \<and>
     (\<exists>ep rec. reg_endpoint (uh_registry r) (n, sc_endpoint_id x) = Some ep \<and>
        ep_state ep = StateReady \<and> sc_address x = ep_address ep \<and> sc_metadata x = ep_metadata ep \<and>
        map_of (uh_records r) (n, sc_endpoint_id x) = Some rec \<and>
        sc_health x = record_snapshot (uh_policy r) rec) \<and>
     (is_available (hs_status (sc_health x)) \<longrightarrow>
        1 \<le> hs_effective_weight (sc_health x) \<and>
        hs_effective_weight (sc_health x) \<le> em_weight (sc_metadata x)) \<and>
     (\<not> is_available (hs_status (sc_health x)) \<longrightarrow> hs_effective_weight (sc_health x) = 0)"

lemma candidate_of_sound:
  assumes wf: "uh_wf r" and c: "map_of (er_clusters (uh_registry r)) n = Some c"
    and ep: "ep \<in> set (cl_endpoints c)" "state_is_ready (ep_state ep)"
  shows "candidate_sound r n (candidate_of (uh_policy r) n ep (the (map_of (uh_records r) (n, ep_id ep))))"
proof -
  have "cluster_wf c" using wf c uh_wf_parts(1) reg_wf_cluster by blast
  with c ep have e: "reg_endpoint (uh_registry r) (n, ep_id ep) = Some ep"
    by (simp add: reg_endpoint_def reg_view_def cluster_endpoint_mem)
  from uh_wf_record [OF wf c ep(1)] obtain rec where
    rec: "map_of (uh_records r) (n, ep_id ep) = Some rec" "tracks (uh_policy r) rec ep" by blast
  with e ep(2) show ?thesis
    by (cases "hr_status rec")
      (auto simp: candidate_sound_def candidate_of_def record_snapshot_def is_available_def
        tracks_def record_wf_def status_weight_ok_def state_is_ready_def)
qed

lemma selection_candidates_facts:
  assumes "uh_wf r" and "selection_candidates r n unh = Ok cs"
  shows "sorted_wrt (<) (map sc_endpoint_id cs) \<and> list_all (candidate_sound r n) cs \<and>
    sc_endpoint_id ` set cs =
      {i. \<exists>ep rec. reg_endpoint (uh_registry r) (n, i) = Some ep \<and> ep_state ep = StateReady \<and>
            map_of (uh_records r) (n, i) = Some rec \<and> admits unh (hr_status rec)}"
proof -
  obtain c where c: "map_of (er_clusters (uh_registry r)) n = Some c" "cluster_wf c"
    and cs: "cs = sort_key sc_endpoint_id (candidate_list (uh_policy r) n (uh_records r) unh (cl_endpoints c))"
    using selection_candidates_Ok [OF assms] .
  have "distinct (map sc_endpoint_id (candidate_list (uh_policy r) n (uh_records r) unh (cl_endpoints c)))"
    using c(2) by (simp add: candidate_list_ids cluster_wf_def distinct_map_filter)
  then have "sorted_wrt (<) (map sc_endpoint_id cs)"
    unfolding cs by (rule sort_key_strict)
  moreover have "list_all (candidate_sound r n) cs"
    using candidate_of_sound [OF assms(1) c(1)] by (auto simp: cs list_all_iff candidate_list_mem)
  moreover have "sc_endpoint_id ` set cs = ep_id ` {ep \<in> set (cl_endpoints c). state_is_ready (ep_state ep) \<and>
       admits unh (hr_status (the (map_of (uh_records r) (n, ep_id ep))))}"
    using arg_cong [OF candidate_list_ids, of set] by (simp add: cs)
  moreover have "\<dots> = {i. \<exists>ep rec. reg_endpoint (uh_registry r) (n, i) = Some ep \<and> ep_state ep = StateReady \<and>
            map_of (uh_records r) (n, i) = Some rec \<and> admits unh (hr_status rec)}"
  proof -
    have "reg_endpoint (uh_registry r) (n, i) = Some ep \<longleftrightarrow> ep \<in> set (cl_endpoints c) \<and> ep_id ep = i" for i ep
      using c by (simp add: reg_endpoint_def reg_view_def cluster_endpoint_mem)
    then show ?thesis
      using uh_wf_record [OF assms(1) c(1)] by (force simp: state_is_ready_def)
  qed
  ultimately show ?thesis by simp
qed

text \<open>
  A successful candidate query returns the endpoints of the cluster that are ready and
  whose health status admits traffic (or, in the panic mode, is unhealthy), each with the
  address, metadata and health the registries hold for it, in strictly increasing order of
  the identifier. An available candidate has an effective weight between one and its
  configured weight, an unavailable one has weight zero.
\<close>

lemma selection_candidates_correct:
  assumes "uh_wf r" and "selection_candidates r n unh = Ok cs"
  shows "sorted_wrt (<) (map sc_endpoint_id cs) \<and> list_all (candidate_sound r n) cs \<and>
    sc_endpoint_id ` set cs =
      {i. \<exists>ep rec. reg_endpoint (uh_registry r) (n, i) = Some ep \<and> ep_state ep = StateReady \<and>
            map_of (uh_records r) (n, i) = Some rec \<and> admits unh (hr_status rec)}"
  using assms by (rule selection_candidates_facts)

definition sample_registry :: upstream_health_registry where
  "sample_registry = health_run health_policy_default
     [HInsertCluster ''c'' [sample_endpoint ''b'' 4, sample_endpoint ''a'' 2], HAdvanceTime (secs 15)]"

lemma sample_registry_wf: "uh_wf sample_registry"
  unfolding sample_registry_def
  by (intro health_run_wf)
    (simp_all add: health_policy_ok_def health_policy_default_def endpoint_typed_def sample_endpoint_def)

definition sample_candidates :: "endpoint_selection_candidate list" where
  "sample_candidates = (case selection_candidates sample_registry ''c'' False of Inr cs \<Rightarrow> cs | Inl _ \<Rightarrow> [])"

lemma sample_candidates_eq: "selection_candidates sample_registry ''c'' False = Ok sample_candidates"
  "map sc_endpoint_id sample_candidates = [''a'', ''b'']"
  by code_simp+

section \<open>The ejection budget of a cluster\<close>

definition in_cluster :: "cluster_name \<Rightarrow> (endpoint_key, endpoint_health_record) btree_map \<Rightarrow> nat" where
  "in_cluster n records = length (filter (\<lambda>e. fst (fst e) = n) records)"

definition ejected_in :: "cluster_name \<Rightarrow> (endpoint_key, endpoint_health_record) btree_map \<Rightarrow> nat" where
  "ejected_in n records =
     length (filter (\<lambda>e. fst (fst e) = n \<and> hr_status (snd e) = Ejected) records)"

definition within_budget ::
  "endpoint_health_policy \<Rightarrow> cluster_name \<Rightarrow> (endpoint_key, endpoint_health_record) btree_map \<Rightarrow> bool" where
  "within_budget policy n records \<longleftrightarrow>
     ejected_in n records \<le> (in_cluster n records * hp_cluster_ejection_budget_percent policy + 99) div 100"

lemma ejected_in_le: "ejected_in n records \<le> in_cluster n records"
  by (induction records) (auto simp: ejected_in_def in_cluster_def)

lemma budget_counts_eq:
  "budget_counts n records =
     (min (in_cluster n records) (uint_max 64), min (ejected_in n records) (uint_max 64))"
proof -
  let ?f = "\<lambda>(key, rec) (tot, ejected).
             if fst key \<noteq> n then (tot, ejected)
             else (sat_add 64 tot 1, if hr_status rec = Ejected then sat_add 64 ejected 1 else ejected)"
  have "fold ?f records (a, b) =
      (min (a + in_cluster n records) (uint_max 64), min (b + ejected_in n records) (uint_max 64))"
    if "a \<le> uint_max 64" "b \<le> uint_max 64" for a b
    using that
    by (induction records arbitrary: a b) (auto simp: in_cluster_def ejected_in_def sat_add_def min_def)
  from this [of 0 0] show ?thesis by (simp add: budget_counts_def)
qed

lemma ejection_allowance_le:
  "a \<le> b \<Longrightarrow> ejection_allowance a p \<le> (b * p + 99) div 100 \<and> ejection_allowance a p < uint_max 64"
proof -
  assume "a \<le> b"
  have "sat_mul 64 a p \<le> a * p" by (simp add: sat_mul_def)
  with \<open>a \<le> b\<close> have "sat_mul 64 a p \<le> b * p" using mult_le_mono1 order_trans by blast
  then have "sat_add 64 (sat_mul 64 a p) 99 \<le> b * p + 99"
    by (simp add: sat_add_def min_def)
  moreover have "sat_add 64 (sat_mul 64 a p) 99 div 100 \<le> uint_max 64 div 100"
    by (intro div_le_mono sat_add_le_max)
  then have "sat_add 64 (sat_mul 64 a p) 99 div 100 < uint_max 64"
    by (simp add: uint_max_def)
  ultimately show ?thesis
    by (simp add: ejection_allowance_def div_le_mono)
qed

lemma can_apply_within:
  assumes "can_apply_ejection_budget records n i policy"
  shows "within_budget policy n records"
proof (cases "100 \<le> hp_cluster_ejection_budget_percent policy")
  case True
  then have "in_cluster n records * 100 \<le> in_cluster n records * hp_cluster_ejection_budget_percent policy"
    by simp
  then have "in_cluster n records \<le> (in_cluster n records * hp_cluster_ejection_budget_percent policy + 99) div 100"
    by linarith
  with ejected_in_le [of n records] show ?thesis by (simp add: within_budget_def)
next
  case False
  let ?a = "ejection_allowance (min (in_cluster n records) (uint_max 64)) (hp_cluster_ejection_budget_percent policy)"
  have "min (ejected_in n records) (uint_max 64) \<le> ?a"
    using assms False by (auto simp: can_apply_ejection_budget_def budget_counts_eq Let_def split: if_splits)
  moreover have "?a \<le> (in_cluster n records * hp_cluster_ejection_budget_percent policy + 99) div 100"
    "?a < uint_max 64"
    using ejection_allowance_le [of "min (in_cluster n records) (uint_max 64)" "in_cluster n records"] by simp_all
  ultimately show ?thesis by (simp add: within_budget_def)
qed

lemma within_budget_mono:
  "within_budget policy n records \<Longrightarrow> ejected_in n records' \<le> ejected_in n records \<Longrightarrow>
     in_cluster n records \<le> in_cluster n records' \<Longrightarrow> within_budget policy n records'"
proof -
  assume a: "within_budget policy n records" "ejected_in n records' \<le> ejected_in n records"
    "in_cluster n records \<le> in_cluster n records'"
  from a(3) have "(in_cluster n records * p + 99) div 100 \<le> (in_cluster n records' * p + 99) div 100" for p
    by (intro div_le_mono add_mono mult_le_mono1) simp_all
  with a show ?thesis unfolding within_budget_def by (meson order_trans)
qed

lemma in_cluster_insert:
  "bt_ok m \<Longrightarrow> in_cluster n m \<le> in_cluster n (bt_insert k rec m)"
  using filter_length_bt_insert [of m "\<lambda>e. fst (fst e) = n" k rec]
  by (auto simp: in_cluster_def split: option.splits)

lemma ejected_in_insert:
  "bt_ok m \<Longrightarrow> hr_status rec = Ejected \<longrightarrow> (\<exists>old. map_of m k = Some old \<and> hr_status old = Ejected) \<Longrightarrow>
     ejected_in n (bt_insert k rec m) \<le> ejected_in n m"
  using filter_length_bt_insert [of m "\<lambda>e. fst (fst e) = n \<and> hr_status (snd e) = Ejected" k rec]
  by (auto simp: ejected_in_def of_bool_def split: option.splits if_splits)

lemma within_budget_insert:
  "bt_ok m \<Longrightarrow> hr_status rec = Ejected \<longrightarrow> (\<exists>old. map_of m k = Some old \<and> hr_status old = Ejected) \<Longrightarrow>
     within_budget policy n m \<Longrightarrow> within_budget policy n (bt_insert k rec m)"
  by (rule within_budget_mono [OF _ ejected_in_insert in_cluster_insert])

lemma health_record_new_not_ejected [simp]: "hr_status (health_record_new ep policy) \<noteq> Ejected"
  by (simp add: health_record_new_def Let_def)

lemma fold_admit_budget:
  "bt_ok (uh_records r) \<Longrightarrow> within_budget policy n (uh_records r) \<Longrightarrow>
     within_budget policy n (uh_records (fold (admit_endpoint m) eps r))"
proof (induction eps arbitrary: r)
  case (Cons ep eps)
  have "uh_records (admit_endpoint m ep r) =
      bt_insert (m, ep_id ep) (health_record_new ep (uh_policy r)) (uh_records r)"
    by (simp add: admit_endpoint_def Let_def push_health_event_def)
  with Cons show ?case by (simp add: within_budget_insert bt_insert_ok)
qed simp

lemma in_cluster_other: "m \<noteq> n \<Longrightarrow> bt_ok records \<Longrightarrow> in_cluster n (bt_insert (m, i) rec records) = in_cluster n records"
  using filter_length_bt_insert [of records "\<lambda>e. fst (fst e) = n" "(m, i)" rec]
  by (simp add: in_cluster_def split: option.splits)

lemma ejected_in_other: "m \<noteq> n \<Longrightarrow> bt_ok records \<Longrightarrow> ejected_in n (bt_insert (m, i) rec records) = ejected_in n records"
  using filter_length_bt_insert [of records "\<lambda>e. fst (fst e) = n \<and> hr_status (snd e) = Ejected" "(m, i)" rec]
  by (simp add: ejected_in_def split: option.splits)

lemma signalled_record_budget:
  assumes "bt_ok (uh_records r)" and "map_of (uh_records r) (m, i) = Some rec"
    and "within_budget (uh_policy r) n (uh_records r)"
  shows "within_budget (uh_policy r) n (bt_insert (m, i) (signalled_record m i sg r rec) (uh_records r))"
proof (cases "hr_status (signalled_record m i sg r rec) = Ejected \<and> hr_status rec \<noteq> Ejected \<and> m = n")
  case True
  then have "signalled_record m i sg r rec = signal_record (uh_policy r) sg rec \<and>
      can_apply_ejection_budget (bt_insert (m, i) (signal_record (uh_policy r) sg rec) (uh_records r)) m i (uh_policy r)"
    by (auto simp: signalled_record_def Let_def split: if_splits)
  with True show ?thesis by (auto intro: can_apply_within)
next
  case False
  then consider "m \<noteq> n" | "hr_status (signalled_record m i sg r rec) = Ejected \<longrightarrow> hr_status rec = Ejected"
    by blast
  then show ?thesis
  proof cases
    case 1
    with assms show ?thesis
      by (simp add: within_budget_def in_cluster_other ejected_in_other)
  next
    case 2
    with assms show ?thesis by (intro within_budget_insert) auto
  qed
qed

lemma apply_signal_records:
  "map_of (uh_records r) (n, i) = Some rec \<Longrightarrow>
     uh_records (snd (apply_signal n i sg r)) = bt_insert (n, i) (signalled_record n i sg r rec) (uh_records r)"
  by (simp add: apply_signal_def Let_def push_health_event_def)

lemma apply_signal_untracked:
  "map_of (uh_records r) (n, i) = None \<Longrightarrow> apply_signal n i sg r = (Err (EndpointNotTracked n i), r)"
  by (simp add: apply_signal_def)

lemma apply_signal_budget:
  "bt_ok (uh_records r) \<Longrightarrow> within_budget (uh_policy r) n (uh_records r) \<Longrightarrow>
     within_budget (uh_policy r) n (uh_records (snd (apply_signal m i sg r)))"
  by (cases "map_of (uh_records r) (m, i)")
    (simp_all add: apply_signal_records apply_signal_untracked signalled_record_budget)

lemma fold_push_event_records [simp]:
  "uh_records (fold (\<lambda>(key, _). push_health_event kd (fst key) (snd key) d) ks r) = uh_records r"
  by (induction ks arbitrary: r) (auto simp: case_prod_beta push_health_event_def)

lemma advance_time_records:
  "elapsed \<noteq> 0 \<Longrightarrow> uh_records (advance_time elapsed r) =
     map (\<lambda>(key, rec). (key, advance_record (uh_policy r) elapsed rec)) (uh_records r)"
  by (simp add: advance_time_def Let_def)

lemma advance_record_ejected:
  "hr_status (advance_record policy elapsed rec) = Ejected \<longleftrightarrow>
     hr_status rec = Ejected \<and> elapsed < hr_remaining_ejection rec"
  by (auto simp: advance_record_def advance_warmup_def advance_ejection_def Let_def)

lemma advance_time_budget:
  assumes "within_budget policy n (uh_records r)"
  shows "within_budget policy n (uh_records (advance_time elapsed r))"
proof (cases "elapsed = 0")
  case True
  with assms show ?thesis by (simp add: advance_time_def)
next
  case False
  let ?g = "\<lambda>(key, rec). (key, advance_record (uh_policy r) elapsed rec)"
  have "in_cluster n (map ?g m) = in_cluster n m" for m
    by (induction m) (auto simp: in_cluster_def)
  moreover have "ejected_in n (map ?g m) \<le> ejected_in n m" for m
    by (induction m) (auto simp: ejected_in_def advance_record_ejected)
  ultimately show ?thesis
    using assms False by (simp add: advance_time_records within_budget_mono)
qed

lemma uh_remove_cluster_budget:
  assumes "within_budget policy n (uh_records r)"
  shows "within_budget policy n (uh_records (snd (uh_remove_cluster m r)))"
proof -
  have "within_budget policy n (bt_retain (\<lambda>key. fst key \<noteq> m) (uh_records r))"
  proof (cases "n = m")
    case True
    then have "ejected_in n (bt_retain (\<lambda>key. fst key \<noteq> m) (uh_records r)) = 0"
      by (simp add: ejected_in_def bt_retain_def)
    then show ?thesis by (simp add: within_budget_def)
  next
    case False
    have "filter (\<lambda>e. fst (fst e) = n \<and> P e) (bt_retain (\<lambda>key. fst key \<noteq> m) (uh_records r))
        = filter (\<lambda>e. fst (fst e) = n \<and> P e) (uh_records r)" for P
      using False by (auto simp: bt_retain_def filter_filter intro!: filter_cong)
    from this [of "\<lambda>_. True"] this [of "\<lambda>e. hr_status (snd e) = Ejected"] assms show ?thesis
      by (simp add: within_budget_def in_cluster_def ejected_in_def)
  qed
  with assms show ?thesis by (simp add: uh_remove_cluster_def case_prod_beta)
qed

text \<open>Every operation but the removal of a single endpoint, which lowers the allowance.\<close>

fun keeps_endpoints :: "health_op \<Rightarrow> bool" where
  "keeps_endpoints (HRemoveEndpoint n i) = False"
| "keeps_endpoints _ = True"

definition budget_inv :: "upstream_health_registry \<Rightarrow> bool" where
  "budget_inv r \<longleftrightarrow> uh_wf r \<and> (\<forall>n. within_budget (uh_policy r) n (uh_records r))"

lemma fold_admit_policy [simp]: "uh_policy (fold (admit_endpoint n) eps r) = uh_policy r"
  by (induction eps arbitrary: r) (simp_all add: admit_endpoint_def Let_def push_health_event_def)

lemma fold_push_event_policy [simp]:
  "uh_policy (fold (\<lambda>(key, _). push_health_event kd (fst key) (snd key) d) ks r) = uh_policy r"
  by (induction ks arbitrary: r) (auto simp: case_prod_beta push_health_event_def)

lemma apply_signal_policy [simp]: "uh_policy (snd (apply_signal n i sg r)) = uh_policy r"
  by (simp add: apply_signal_def Let_def push_health_event_def split: option.split)

lemmas note_signal_defs =
  note_active_success_def note_active_failure_def note_passive_success_for_protocol_def
  note_passive_failure_for_protocol_def

lemma uh_policy_ops [simp]:
  "uh_policy (snd (uh_insert_cluster c r)) = uh_policy r"
  "uh_policy (snd (uh_remove_cluster n r)) = uh_policy r"
  "uh_policy (snd (uh_insert_endpoint n ep r)) = uh_policy r"
  "uh_policy (snd (uh_remove_endpoint n i r)) = uh_policy r"
  "uh_policy (snd (uh_set_endpoint_state n i st r)) = uh_policy r"
  "uh_policy (advance_time d r) = uh_policy r"
  by (simp_all add: uh_insert_cluster_def uh_remove_cluster_def uh_insert_endpoint_def
      uh_remove_endpoint_def uh_set_endpoint_state_def advance_time_def Let_def push_health_event_def
      split: prod.split sum.split)

lemma health_step_policy [simp]: "uh_policy (health_step r op) = uh_policy r"
  by (cases op) (simp_all add: note_signal_defs split: sum.split)

lemma health_run_policy [simp]: "uh_policy (health_run policy ops) = policy"
  unfolding health_run_def
  by (induction ops rule: rev_induct) (simp_all add: health_registry_new_def)

lemma uh_set_endpoint_state_records [simp]: "uh_records (snd (uh_set_endpoint_state n i st r)) = uh_records r"
  by (simp add: uh_set_endpoint_state_def split: prod.split sum.split)

lemma uh_insert_cluster_budget:
  "bt_ok (uh_records r) \<Longrightarrow> within_budget policy n (uh_records r) \<Longrightarrow>
     within_budget policy n (uh_records (snd (uh_insert_cluster c r)))"
  by (simp add: uh_insert_cluster_def fold_admit_budget split: prod.split sum.split)

lemma uh_insert_endpoint_budget:
  "bt_ok (uh_records r) \<Longrightarrow> within_budget policy n (uh_records r) \<Longrightarrow>
     within_budget policy n (uh_records (snd (uh_insert_endpoint m ep r)))"
  by (simp add: uh_insert_endpoint_def Let_def push_health_event_def within_budget_insert
      split: prod.split sum.split)

lemma note_signal_budget:
  "bt_ok (uh_records r) \<Longrightarrow> within_budget (uh_policy r) n (uh_records r) \<Longrightarrow>
     within_budget (uh_policy r) n (uh_records (snd (apply_signal m i sg (r\<lparr>uh_metrics := x\<rparr>))))"
  using apply_signal_budget [of "r\<lparr>uh_metrics := x\<rparr>" n m i sg] by simp

lemma health_step_budget:
  assumes "keeps_endpoints op" and "bt_ok (uh_records r)" and "within_budget (uh_policy r) n (uh_records r)"
  shows "within_budget (uh_policy r) n (uh_records (health_step r op))"
  using assms
  by (cases op)
    (simp_all add: note_signal_defs note_signal_budget uh_insert_cluster_budget
      uh_insert_endpoint_budget uh_remove_cluster_budget advance_time_budget split: sum.split)

interpretation ejection_budget: invariant_machine
  health_step "\<lambda>op. health_op_typed op \<and> keeps_endpoints op" budget_inv
  by unfold_locales (auto simp: budget_inv_def health_step_wf health_step_budget uh_wf_parts(2))

lemma ejected_in_filter: "ejected_in n (filter P records) \<le> ejected_in n records"
  by (induction records) (auto simp: ejected_in_def)

lemma fold_admit_ejected:
  "bt_ok (uh_records r) \<Longrightarrow>
     ejected_in n (uh_records (fold (admit_endpoint m) eps r)) \<le> ejected_in n (uh_records r)"
proof (induction eps arbitrary: r)
  case (Cons ep eps)
  have e: "uh_records (admit_endpoint m ep r) =
      bt_insert (m, ep_id ep) (health_record_new ep (uh_policy r)) (uh_records r)"
    by (simp add: admit_endpoint_def Let_def push_health_event_def)
  then have "ejected_in n (uh_records (admit_endpoint m ep r)) \<le> ejected_in n (uh_records r)"
    using Cons.prems by (simp add: ejected_in_insert)
  moreover have "bt_ok (uh_records (admit_endpoint m ep r))" using e Cons.prems by (simp add: bt_insert_ok)
  ultimately show ?case using Cons.IH [of "admit_endpoint m ep r"] by simp
qed simp

lemma apply_signal_ejects:
  assumes "bt_ok (uh_records r)"
  shows "ejected_in n (uh_records (snd (apply_signal m i sg r))) \<le> ejected_in n (uh_records r) \<or>
    within_budget (uh_policy r) n (uh_records (snd (apply_signal m i sg r)))"
proof (cases "map_of (uh_records r) (m, i)")
  case (Some rec)
  consider "hr_status (signalled_record m i sg r rec) = Ejected" "hr_status rec \<noteq> Ejected" "m = n" | "m \<noteq> n"
    | "hr_status (signalled_record m i sg r rec) = Ejected \<longrightarrow> hr_status rec = Ejected"
    by blast
  then show ?thesis
  proof cases
    case 1
    then have "signalled_record m i sg r rec = signal_record (uh_policy r) sg rec \<and>
        can_apply_ejection_budget (bt_insert (m, i) (signal_record (uh_policy r) sg rec) (uh_records r)) m i (uh_policy r)"
      by (auto simp: signalled_record_def Let_def split: if_splits)
    with 1 Some show ?thesis by (auto simp: apply_signal_records intro: can_apply_within)
  next
    case 2
    with Some assms show ?thesis by (simp add: apply_signal_records ejected_in_other)
  next
    case 3
    with Some assms show ?thesis by (auto simp: apply_signal_records intro!: ejected_in_insert)
  qed
qed (simp add: apply_signal_untracked)

lemma note_signal_ejects:
  "bt_ok (uh_records r) \<Longrightarrow>
   ejected_in n (uh_records (snd (apply_signal m i sg (r\<lparr>uh_metrics := x\<rparr>)))) \<le> ejected_in n (uh_records r) \<or>
   within_budget (uh_policy r) n (uh_records (snd (apply_signal m i sg (r\<lparr>uh_metrics := x\<rparr>))))"
  using apply_signal_ejects [of "r\<lparr>uh_metrics := x\<rparr>" n m i sg] by simp

lemma advance_time_ejected_count: "ejected_in n (uh_records (advance_time d r)) \<le> ejected_in n (uh_records r)"
proof (cases "d = 0")
  case False
  have "ejected_in n (map (\<lambda>(key, rec). (key, advance_record p d rec)) m) \<le> ejected_in n m" for p m
    by (induction m) (auto simp: ejected_in_def advance_record_ejected)
  with False show ?thesis by (simp add: advance_time_records)
qed (simp add: advance_time_def)

lemma registry_op_ejected:
  "ejected_in n (uh_records (snd (uh_remove_cluster m r))) \<le> ejected_in n (uh_records r)"
  "bt_ok (uh_records r) \<Longrightarrow> ejected_in n (uh_records (snd (uh_insert_endpoint m ep r))) \<le> ejected_in n (uh_records r)"
  "ejected_in n (uh_records (snd (uh_remove_endpoint m i r))) \<le> ejected_in n (uh_records r)"
  by (simp_all add: uh_remove_cluster_def uh_insert_endpoint_def uh_remove_endpoint_def
      ejected_in_insert ejected_in_filter bt_retain_def bt_remove_def Let_def
      push_health_event_def split: prod.split sum.split)

lemma insert_cluster_ejected:
  assumes "bt_ok (uh_records r)"
  shows "ejected_in n (uh_records (snd (uh_insert_cluster c r))) \<le> ejected_in n (uh_records r)"
  using fold_admit_ejected [of "r\<lparr>uh_registry := snd (reg_insert_cluster c (uh_registry r))\<rparr>" n "cl_name c" "cl_endpoints c"] assms
  by (auto simp: uh_insert_cluster_def split: prod.split sum.split)

text \<open>An operation that ejects leaves the cluster within its budget, whatever the state before.\<close>

lemma health_step_ejects:
  assumes "bt_ok (uh_records r)"
  shows "ejected_in n (uh_records (health_step r op)) \<le> ejected_in n (uh_records r) \<or>
    within_budget (uh_policy r) n (uh_records (health_step r op))"
  using assms
  by (cases op)
    (simp_all add: note_signal_defs note_signal_ejects registry_op_ejected insert_cluster_ejected advance_time_ejected_count split: sum.split)

text \<open>
  C11. The ejection budget bounds what the balancer takes out of a cluster. After any run of
  operations, an operation that raises the number of ejected endpoints of a cluster leaves at
  most the budgeted percentage of its endpoints, rounded up, ejected. As long as no single
  endpoint is removed, which lowers the allowance of the others, this holds after every
  operation and for every cluster.
\<close>

theorem ejections_within_budget:
  assumes "health_policy_ok policy" and "list_all health_op_typed (ops @ [op])"
  shows "let before = uh_records (health_run policy ops);
             after = uh_records (health_run policy (ops @ [op]));
             allowed = (in_cluster n after * hp_cluster_ejection_budget_percent policy + 99) div 100
         in (ejected_in n before < ejected_in n after \<longrightarrow> ejected_in n after \<le> allowed) \<and>
            (list_all keeps_endpoints (ops @ [op]) \<longrightarrow> ejected_in n after \<le> allowed)"
proof -
  have wf: "uh_wf (health_run policy ops)" using assms by (simp add: health_run_wf)
  have step: "health_run policy (ops @ [op]) = health_step (health_run policy ops) op"
    by (simp add: health_run_def)
  have inv: "budget_inv (health_registry_new policy)"
    using health_registry_new_wf [OF assms(1)]
    by (simp add: budget_inv_def within_budget_def ejected_in_def health_registry_new_def)
  have "budget_inv (health_run policy (ops @ [op]))" if "list_all keeps_endpoints (ops @ [op])"
    unfolding health_run_def using that assms(2)
    by (intro ejection_budget.run_inv inv) (auto simp: list_all_iff)
  then have "within_budget policy n (uh_records (health_run policy (ops @ [op])))"
    if "list_all keeps_endpoints (ops @ [op])"
    using that by (simp add: budget_inv_def)
  then show ?thesis
    using health_step_ejects [OF uh_wf_parts(2) [OF wf], of n op]
    by (auto simp: Let_def step within_budget_def)
qed

definition eager_policy :: endpoint_health_policy where
  "eager_policy = health_policy_default\<lparr>hp_ejection_failure_threshold := 1\<rparr>"

definition eject_ops :: "health_op list" where
  "eject_ops =
     [HInsertCluster ''c'' [sample_endpoint ''a'' 1, sample_endpoint ''b'' 1, sample_endpoint ''d'' 1],
      HActiveFailure ''c'' ''a'', HActiveFailure ''c'' ''b'', HActiveFailure ''c'' ''d'']"

lemma eject_ops_ok: "list_all (\<lambda>op. health_op_typed op \<and> keeps_endpoints op) eject_ops"
  "list_all health_op_typed eject_ops" "health_policy_ok eager_policy"
  by (simp_all add: eject_ops_def endpoint_typed_def sample_endpoint_def eager_policy_def
      health_policy_ok_def health_policy_default_def)

lemma eject_ops_counts:
  "(in_cluster ''c'' (uh_records (health_run eager_policy eject_ops)),
    ejected_in ''c'' (uh_records (health_run eager_policy eject_ops))) = (3, 2)"
  by code_simp

theorem ejections_within_budget_witness:
  "in_cluster ''c'' (uh_records (health_run eager_policy eject_ops)) = 3 \<and>
   ejected_in ''c'' (uh_records (health_run eager_policy eject_ops)) = 2 \<and>
   ejected_in ''c'' (uh_records (health_run eager_policy eject_ops)) \<le> (3 * 50 + 99) div 100"
proof -
  have "eject_ops = butlast eject_ops @ [last eject_ops]" by (simp add: eject_ops_def)
  with ejections_within_budget [OF eject_ops_ok(3), of "butlast eject_ops" "last eject_ops" "''c''"]
    eject_ops_ok(1,2) eject_ops_counts
  show ?thesis by (simp add: eager_policy_def health_policy_default_def list_all_iff)
qed

section \<open>Ejection lasts for its duration\<close>

fun elapsed_by :: "health_op \<Rightarrow> duration" where
  "elapsed_by (HAdvanceTime d) = d"
| "elapsed_by _ = 0"

text \<open>The endpoint is not taken out of the registry.\<close>

fun retains :: "cluster_name \<Rightarrow> endpoint_id \<Rightarrow> health_op \<Rightarrow> bool" where
  "retains n i (HRemoveCluster m) = (m \<noteq> n)"
| "retains n i (HRemoveEndpoint m j) = ((m, j) \<noteq> (n, i))"
| "retains n i _ = True"

lemma signal_record_ejected:
  "hr_status rec = Ejected \<Longrightarrow>
     hr_status (signal_record policy sg rec) = Ejected \<and>
     hr_remaining_ejection (signal_record policy sg rec) = hr_remaining_ejection rec"
  by (cases sg) (simp_all add: signal_record_def Let_def transition_on_failures_def
      transition_on_success_def push_passive_result_def refresh_passive_failure_aggregate_def
      increment_protocol_failure_counter_def clear_protocol_failure_counter_def)

definition ejected_for :: "cluster_name \<Rightarrow> endpoint_id \<Rightarrow> duration \<Rightarrow> upstream_health_registry \<Rightarrow> bool" where
  "ejected_for n i d r \<longleftrightarrow>
     (\<exists>rec. map_of (uh_records r) (n, i) = Some rec \<and> hr_status rec = Ejected \<and>
            hr_remaining_ejection rec = d)"

lemma apply_signal_ejected:
  assumes "bt_ok (uh_records r)" and "ejected_for n i d r"
  shows "ejected_for n i d (snd (apply_signal m j sg r))"
proof (cases "map_of (uh_records r) (m, j)")
  case None
  with assms(2) show ?thesis by (simp add: apply_signal_untracked)
next
  case (Some rec)
  have "signalled_record m j sg r rec = signal_record (uh_policy r) sg rec" if "hr_status rec = Ejected"
    using that by (simp add: signalled_record_def Let_def)
  with assms Some signal_record_ejected [of rec "uh_policy r" sg] show ?thesis
    by (auto simp: ejected_for_def apply_signal_records map_of_bt_insert)
qed

lemma ejected_for_metrics [simp]: "ejected_for n i d (r\<lparr>uh_metrics := x\<rparr>) = ejected_for n i d r"
  by (simp add: ejected_for_def)

lemma uh_wf_registered:
  assumes "uh_wf r" and "map_of (uh_records r) (n, i) = Some rec"
  shows "\<exists>c. map_of (er_clusters (uh_registry r)) n = Some c \<and> i \<in> ep_id ` set (cl_endpoints c)"
  using uh_wf_rel [OF assms(1), of "(n, i)"] assms(2)
  by (cases "map_of (er_clusters (uh_registry r)) n")
    (auto simp: reg_endpoint_def reg_view_def rel_option_iff split: option.splits,
     metis cluster_endpoint_None option.distinct(1))

lemma fold_admit_other:
  "bt_ok (uh_records r) \<Longrightarrow> m \<noteq> n \<Longrightarrow>
     map_of (uh_records (fold (admit_endpoint m) eps r)) (n, i) = map_of (uh_records r) (n, i)"
proof (induction eps arbitrary: r)
  case (Cons ep eps)
  have "uh_records (admit_endpoint m ep r) =
      bt_insert (m, ep_id ep) (health_record_new ep (uh_policy r)) (uh_records r)"
    by (simp add: admit_endpoint_def Let_def push_health_event_def)
  with Cons show ?case by (simp add: bt_insert_ok map_of_bt_insert)
qed simp

lemma insert_cluster_keeps:
  assumes "uh_wf r" and "map_of (uh_records r) (n, i) = Some rec"
  shows "map_of (uh_records (snd (uh_insert_cluster c r))) (n, i) = Some rec"
proof (cases "cl_name c = n")
  case True
  with uh_wf_registered [OF assms] assms(2) show ?thesis
    by (auto simp: uh_insert_cluster_def reg_insert_cluster_def bt_has_def)
next
  case False
  with assms uh_wf_parts(2) [OF assms(1)] show ?thesis
    by (simp add: uh_insert_cluster_def fold_admit_other split: prod.split sum.split)
qed

lemma insert_endpoint_keeps:
  assumes "uh_wf r" and "map_of (uh_records r) (n, i) = Some rec"
  shows "map_of (uh_records (snd (uh_insert_endpoint m ep r))) (n, i) = Some rec"
proof (cases "reg_insert_endpoint m ep (uh_registry r)")
  case (Pair res reg)
  show ?thesis
  proof (cases res)
    case (Inl e)
    with Pair assms show ?thesis by (simp add: uh_insert_endpoint_def)
  next
    case (Inr u)
    with Pair obtain w where w: "reg_view (uh_registry r) m = Some w" "w (ep_id ep) = None"
      using reg_insert_endpoint_view [OF uh_wf_parts(1) [OF assms(1)], of m ep reg] by auto
    then have "reg_endpoint (uh_registry r) (m, ep_id ep) = None"
      by (simp add: reg_endpoint_def)
    with uh_wf_rel [OF assms(1), of "(m, ep_id ep)"] have "map_of (uh_records r) (m, ep_id ep) = None"
      by (cases "map_of (uh_records r) (m, ep_id ep)") auto
    with Pair Inr assms uh_wf_parts(2) [OF assms(1)] show ?thesis
      by (auto simp: uh_insert_endpoint_def Let_def push_health_event_def map_of_bt_insert)
  qed
qed

lemma remove_endpoint_keeps:
  "(m, j) \<noteq> (n, i) \<Longrightarrow>
     map_of (uh_records (snd (uh_remove_endpoint m j r))) (n, i) = map_of (uh_records r) (n, i)"
  by (auto simp: uh_remove_endpoint_def map_of_bt_remove split: prod.split sum.split)

lemma remove_cluster_keeps:
  "m \<noteq> n \<Longrightarrow> map_of (uh_records (snd (uh_remove_cluster m r))) (n, i) = map_of (uh_records r) (n, i)"
  by (simp add: uh_remove_cluster_def case_prod_beta map_of_bt_retain)

lemma advance_time_lookup:
  "map_of (uh_records (advance_time d r)) key =
     (if d = 0 then map_of (uh_records r) key
      else map_option (advance_record (uh_policy r) d) (map_of (uh_records r) key))"
  by (simp add: advance_time_records map_of_map_val) (simp add: advance_time_def)

lemma advance_record_still_ejected:
  "hr_status rec = Ejected \<Longrightarrow> e < hr_remaining_ejection rec \<Longrightarrow>
     advance_record policy e rec = rec\<lparr>hr_remaining_ejection := hr_remaining_ejection rec - e\<rparr>"
  by (simp add: advance_record_def advance_warmup_def advance_ejection_def)

lemma advance_time_ejected:
  "ejected_for n i d r \<Longrightarrow> e < d \<Longrightarrow> ejected_for n i (d - e) (advance_time e r)"
  by (auto simp: ejected_for_def advance_time_lookup advance_record_still_ejected)

lemma health_step_ejected:
  assumes "uh_wf r" and "ejected_for n i d r" and "retains n i op" and "elapsed_by op < d"
  shows "ejected_for n i (d - elapsed_by op) (health_step r op)"
proof -
  from assms(2) obtain rec where rec: "map_of (uh_records r) (n, i) = Some rec"
    "hr_status rec = Ejected" "hr_remaining_ejection rec = d"
    by (auto simp: ejected_for_def)
  note keeps = insert_cluster_keeps [OF assms(1) rec(1)] insert_endpoint_keeps [OF assms(1) rec(1)]
    remove_endpoint_keeps remove_cluster_keeps
  show ?thesis
  proof (cases op)
    case (HAdvanceTime e)
    with assms advance_time_ejected show ?thesis by simp
  qed (use assms rec keeps uh_wf_parts(2) [OF assms(1)] in
    \<open>auto simp: note_signal_defs apply_signal_ejected ejected_for_def [of n i d "snd (uh_insert_cluster _ r)"]
       ejected_for_def [of n i d "snd (uh_insert_endpoint _ _ r)"]
       ejected_for_def [of n i d "snd (uh_remove_endpoint _ _ r)"]
       ejected_for_def [of n i d "snd (uh_remove_cluster _ r)"]
       ejected_for_def [of n i d "snd (uh_set_endpoint_state _ _ _ r)"] split: sum.split\<close>)
qed

lemma health_run_ejected:
  assumes "list_all (\<lambda>op. health_op_typed op \<and> retains n i op) ops"
    and "uh_wf r" and "ejected_for n i d r" and "sum_list (map elapsed_by ops) < d"
  shows "uh_wf (foldl health_step r ops) \<and>
    ejected_for n i (d - sum_list (map elapsed_by ops)) (foldl health_step r ops)"
  using assms
proof (induction ops arbitrary: r d)
  case (Cons op ops)
  have "ejected_for n i (d - elapsed_by op) (health_step r op)"
    using Cons.prems by (intro health_step_ejected) auto
  moreover have "uh_wf (health_step r op)"
    using Cons.prems by (simp add: health_step_wf)
  moreover have "sum_list (map elapsed_by ops) < d - elapsed_by op"
    using Cons.prems(4) by simp
  ultimately have "uh_wf (foldl health_step (health_step r op) ops) \<and>
      ejected_for n i (d - elapsed_by op - sum_list (map elapsed_by ops)) (foldl health_step (health_step r op) ops)"
    using Cons.prems(1) by (intro Cons.IH) simp_all
  then show ?case by simp
qed simp

lemma ejected_not_candidate:
  assumes "uh_wf r" and "ejected_for n i d r" and "selection_candidates r n unh = Ok cs"
  shows "i \<notin> sc_endpoint_id ` set cs"
proof -
  obtain c where "map_of (er_clusters (uh_registry r)) n = Some c" "cluster_wf c"
    and cs: "cs = sort_key sc_endpoint_id
      (candidate_list (uh_policy r) n (uh_records r) unh (cl_endpoints c))"
    using selection_candidates_Ok [OF assms(1,3)] .
  from cs assms(2) show ?thesis
    by (auto simp: candidate_list_mem candidate_of_def ejected_for_def admits_def is_available_def)
qed

text \<open>
  C29. An ejected endpoint stays out of rotation for its whole ejection time: whatever
  signals, insertions, state changes and removals of other endpoints happen, as long as the
  time advanced in total is less than the remaining ejection time, the endpoint is still
  ejected and is not among the selection candidates, not even in panic mode.
\<close>

theorem ejected_until_expiry:
  assumes "uh_wf r" and "ejected_for n i d r"
    and "list_all (\<lambda>op. health_op_typed op \<and> retains n i op) ops"
    and "sum_list (map elapsed_by ops) < d"
    and "selection_candidates (foldl health_step r ops) n unh = Ok cs"
  shows "ejected_for n i (d - sum_list (map elapsed_by ops)) (foldl health_step r ops) \<and>
    i \<notin> sc_endpoint_id ` set cs"
  using health_run_ejected [OF assms(3,1,2,4)] ejected_not_candidate assms(5) by blast

definition ejected_registry :: upstream_health_registry where
  "ejected_registry = health_run eager_policy (take 2 eject_ops)"

definition quiet_ops :: "health_op list" where
  "quiet_ops = [HActiveSuccess ''c'' ''a'', HAdvanceTime (secs 29), HPassiveSuccess ''c'' ''a'' ProtoGrpc]"

definition late_candidates :: "endpoint_selection_candidate list" where
  "late_candidates =
     (case selection_candidates (foldl health_step ejected_registry quiet_ops) ''c'' True of
        Inr cs \<Rightarrow> cs | Inl _ \<Rightarrow> [])"

lemma late_candidates_eq:
  "selection_candidates (foldl health_step ejected_registry quiet_ops) ''c'' True = Ok late_candidates"
proof -
  have "is_ok (selection_candidates (foldl health_step ejected_registry quiet_ops) ''c'' True)"
    by code_simp
  then show ?thesis by (simp add: late_candidates_def is_ok_def split: sum.splits)
qed

lemma ejected_registry_state:
  "uh_wf ejected_registry" "ejected_for ''c'' ''a'' (secs 30) ejected_registry"
proof -
  show "uh_wf ejected_registry"
    unfolding ejected_registry_def using eject_ops_ok(2,3)
    by (intro health_run_wf) (auto simp: list_all_iff dest: in_set_takeD)
  have "map_option (\<lambda>rec. (hr_status rec, hr_remaining_ejection rec))
      (map_of (uh_records ejected_registry) (''c'', ''a'')) = Some (Ejected, secs 30)"
    by code_simp
  then show "ejected_for ''c'' ''a'' (secs 30) ejected_registry"
    by (auto simp: ejected_for_def)
qed

theorem ejected_until_expiry_witness:
  "ejected_for ''c'' ''a'' (secs 30) ejected_registry \<and>
   ejected_for ''c'' ''a'' (secs 1) (foldl health_step ejected_registry quiet_ops) \<and>
   ''a'' \<notin> sc_endpoint_id ` set late_candidates"
proof -
  have ops: "list_all (\<lambda>op. health_op_typed op \<and> retains ''c'' ''a'' op) quiet_ops"
    "sum_list (map elapsed_by quiet_ops) = secs 29"
    by (simp_all add: quiet_ops_def)
  from ejected_until_expiry [OF ejected_registry_state ops(1) _ late_candidates_eq] ops(2)
    ejected_registry_state(2) show ?thesis
    by (simp add: secs_def)
qed

section \<open>Warm-up and recovery\<close>

lemma warmup_progress_le:
  assumes "el < wd"
  shows "nominal * as_millis el div max (as_millis wd) 1 \<le> nominal"
proof -
  have "as_millis el \<le> max (as_millis wd) 1"
    using as_millis_mono [of el wd] assms by simp
  then have "nominal * as_millis el \<le> nominal * max (as_millis wd) 1"
    by (rule mult_le_mono2)
  then have "nominal * as_millis el div max (as_millis wd) 1
      \<le> nominal * max (as_millis wd) 1 div max (as_millis wd) 1"
    by (rule div_le_mono)
  then show ?thesis by (subst (asm) nonzero_mult_div_cancel_right) simp_all
qed

lemma warmup_weight_open:
  assumes "el < wd" and "nominal < 2 ^ 16"
  shows "warmup_weight nominal el wd pct =
    min (max (nominal * as_millis el div max (as_millis wd) 1)
             (cast_to 16 (max (sat_mul 32 nominal (max pct 1) div 100) 1))) nominal"
proof -
  have "nominal * as_millis el div max (as_millis wd) 1 < 2 ^ 16"
    using warmup_progress_le [OF assms(1), of nominal] assms(2) by simp
  with assms(1) show ?thesis by (simp add: warmup_weight_def Let_def cast_to_id)
qed

text \<open>
  The slow start is a ramp: for a weight of 16 bits the weight of a warming endpoint never
  decreases as the warm-up time elapses, always lies between one and the configured weight,
  and is the configured weight once the warm-up duration has elapsed.
\<close>

lemma warmup_weight_ramp:
  assumes "1 \<le> nominal" and "nominal < 2 ^ 16" and "pct \<le> 100" and "e1 \<le> e2"
  shows "1 \<le> warmup_weight nominal e1 wd pct \<and>
    warmup_weight nominal e1 wd pct \<le> warmup_weight nominal e2 wd pct \<and>
    warmup_weight nominal e2 wd pct \<le> nominal \<and>
    (wd \<le> e2 \<longrightarrow> warmup_weight nominal e2 wd pct = nominal)"
proof -
  have "warmup_weight nominal e1 wd pct \<le> warmup_weight nominal e2 wd pct"
  proof (cases "e2 < wd")
    case True
    have "nominal * as_millis e1 div max (as_millis wd) 1 \<le> nominal * as_millis e2 div max (as_millis wd) 1"
      using as_millis_mono [OF assms(4)] by (intro div_le_mono mult_le_mono2)
    with True assms(2,4) show ?thesis
      by (simp add: warmup_weight_open min.coboundedI1 min.coboundedI2 max.coboundedI1)
  next
    case False
    then have "warmup_weight nominal e2 wd pct = nominal" by (simp add: warmup_weight_def)
    with warmup_weight_bounds [OF assms(1-3)] show ?thesis by simp
  qed
  moreover have "wd \<le> e2 \<longrightarrow> warmup_weight nominal e2 wd pct = nominal"
    by (simp add: warmup_weight_def)
  ultimately show ?thesis using warmup_weight_bounds [OF assms(1-3)] by blast
qed

text \<open>What one signal does to an endpoint that is neither ejected nor about to be.\<close>

lemma transition_on_success_unhealthy:
  assumes "hr_status rec = Unhealthy \<or> hr_status rec = Degraded"
    and "Suc (hr_recovery_successes rec) < hp_recovery_success_threshold policy"
    and "hp_recovery_success_threshold policy < 2 ^ 32"
  shows "transition_on_success policy rec =
    rec\<lparr>hr_recovery_successes := Suc (hr_recovery_successes rec)\<rparr>"
proof -
  have "sat_add 32 (hr_recovery_successes rec) 1 = Suc (hr_recovery_successes rec)"
    using assms(2,3) by (simp add: sat_add_def uint_max_def)
  with assms(1,2) show ?thesis by (auto simp: transition_on_success_def Let_def)
qed

lemma transition_on_success_recovers:
  assumes "hr_status rec = Unhealthy \<or> hr_status rec = Degraded"
    and "hp_recovery_success_threshold policy \<le> Suc (hr_recovery_successes rec)"
    and "hp_recovery_success_threshold policy < 2 ^ 32"
  shows "hr_status (transition_on_success policy rec) =
      (if hp_warmup_duration policy = 0 then Healthy else Warming) \<and>
    hr_effective_weight (transition_on_success policy rec) =
      (if hp_warmup_duration policy = 0 then hr_nominal_weight rec else 1) \<and>
    hr_active_failures (transition_on_success policy rec) = 0 \<and>
    hr_passive_failures (transition_on_success policy rec) = 0"
proof -
  have "\<not> sat_add 32 (hr_recovery_successes rec) 1 < hp_recovery_success_threshold policy"
    using assms(2,3) by (simp add: sat_add_def uint_max_def min_def)
  with assms(1) show ?thesis
    by (auto simp: transition_on_success_def Let_def clear_protocol_failure_state_def)
qed

lemma transition_on_success_iter:
  assumes "hr_status rec = Unhealthy" and "hr_recovery_successes rec = 0"
    and "hp_recovery_success_threshold policy < 2 ^ 32" and "k < hp_recovery_success_threshold policy"
  shows "(transition_on_success policy ^^ k) rec = rec\<lparr>hr_recovery_successes := k\<rparr>"
  using assms(4)
proof (induction k)
  case 0
  then show ?case using assms(2) by simp
next
  case (Suc k)
  then show ?case
    using assms(1,3) by (simp add: transition_on_success_unhealthy)
qed

lemma success_run_record:
  assumes "bt_ok (uh_records r)" and "map_of (uh_records r) (n, i) = Some rec"
  shows "map_of (uh_records (foldl health_step r (replicate k (HActiveSuccess n i)))) (n, i)
    = Some ((transition_on_success (uh_policy r) ^^ k) rec)"
  using assms
proof (induction k arbitrary: r rec)
  case (Suc k)
  let ?s = "signalled_record n i ActiveSuccess r rec"
  have ne: "hr_status (transition_on_success (uh_policy r) rec) = Ejected \<Longrightarrow> hr_status rec = Ejected"
    by (cases "hr_status rec") (auto simp: transition_on_success_def Let_def clear_protocol_failure_state_def
        split: if_splits)
  have sr: "signalled_record n i ActiveSuccess (r\<lparr>uh_metrics := x\<rparr>) rec = transition_on_success (uh_policy r) rec" for x
    using ne by (auto simp: signalled_record_def signal_record_def Let_def)
  let ?r = "health_step r (HActiveSuccess n i)"
  have "map_of (uh_records ?r) (n, i) = Some (transition_on_success (uh_policy r) rec)"
    "bt_ok (uh_records ?r)"
    using Suc.prems by (simp_all add: note_active_success_def apply_signal_records sr map_of_bt_insert bt_insert_ok)
  from Suc.IH [OF this(2,1)] show ?case
    by (simp del: health_step.simps add: funpow_Suc_right del: funpow.simps)
qed simp

text \<open>
  Recovery takes exactly the configured number of successes: an unhealthy endpoint without
  recovery credit stays unhealthy, with weight zero, through any smaller number of successful
  probes, and on the success that reaches the threshold it re-enters service, warming up with
  weight one (or at once healthy when no warm-up is configured).
\<close>

lemma recovery_threshold_exact:
  assumes "uh_wf r" and "map_of (uh_records r) (n, i) = Some rec"
    and "hr_status rec = Unhealthy" and "hr_recovery_successes rec = 0"
    and "1 \<le> hp_recovery_success_threshold (uh_policy r)"
    and "hp_recovery_success_threshold (uh_policy r) < 2 ^ 32"
    and "k \<le> hp_recovery_success_threshold (uh_policy r)"
  shows "\<exists>rec'. map_of (uh_records (foldl health_step r (replicate k (HActiveSuccess n i)))) (n, i) = Some rec' \<and>
    (if k < hp_recovery_success_threshold (uh_policy r)
     then hr_status rec' = Unhealthy \<and> hr_effective_weight rec' = 0
     else if hp_warmup_duration (uh_policy r) = 0
     then hr_status rec' = Healthy \<and> hr_effective_weight rec' = hr_nominal_weight rec
     else hr_status rec' = Warming \<and> hr_effective_weight rec' = 1)"
proof (cases "k < hp_recovery_success_threshold (uh_policy r)")
  case True
  moreover have "hr_effective_weight rec = 0"
    using uh_wf_record_wf [OF assms(1,2)] assms(3) by (simp add: record_wf_def status_weight_ok_def)
  ultimately show ?thesis
    using success_run_record [OF uh_wf_parts(2) [OF assms(1)] assms(2), of k]
      transition_on_success_iter [OF assms(3,4,6) True] assms(3) by simp
next
  case False
  then obtain j where j: "hp_recovery_success_threshold (uh_policy r) = Suc j" "k = Suc j"
    using assms(5,7) by (cases k) auto
  let ?rec = "rec\<lparr>hr_recovery_successes := j\<rparr>"
  have "(transition_on_success (uh_policy r) ^^ k) rec = transition_on_success (uh_policy r) ?rec"
    using transition_on_success_iter [OF assms(3,4,6), of j] j by simp
  with transition_on_success_recovers [of ?rec "uh_policy r"] assms(3,6) j
    success_run_record [OF uh_wf_parts(2) [OF assms(1)] assms(2), of k]
  show ?thesis by simp
qed

definition unhealthy_registry :: upstream_health_registry where
  "unhealthy_registry = health_run health_policy_default
     [HInsertCluster ''c'' [sample_endpoint ''a'' 4],
      HActiveFailure ''c'' ''a'', HActiveFailure ''c'' ''a'']"

lemma unhealthy_registry_wf: "uh_wf unhealthy_registry"
  unfolding unhealthy_registry_def
  by (intro health_run_wf)
    (simp_all add: health_policy_ok_def health_policy_default_def endpoint_typed_def sample_endpoint_def)

definition unhealthy_record :: endpoint_health_record where
  "unhealthy_record = the (map_of (uh_records unhealthy_registry) (''c'', ''a''))"

definition bypass_ops :: "health_op list" where
  "bypass_ops =
     [HInsertCluster ''c'' [sample_endpoint ''a'' 4], HAdvanceTime (secs 15),
      HPassiveFailure ''c'' ''a'' ProtoGeneric, HPassiveFailure ''c'' ''a'' ProtoGeneric,
      HPassiveSuccess ''c'' ''a'' ProtoGeneric]"

definition weight_and_status ::
  "upstream_health_registry \<Rightarrow> cluster_name \<Rightarrow> endpoint_id \<Rightarrow> (endpoint_health_status \<times> nat) option" where
  "weight_and_status r n i =
     map_option (\<lambda>rec. (hr_status rec, hr_effective_weight rec)) (map_of (uh_records r) (n, i))"

text \<open>
  With the default policy a failing request can put an unhealthy endpoint back into full
  service. After two passive failures and one success the endpoint is unhealthy with weight
  zero, one success short of the recovery threshold; the next passive failure is counted
  from zero again, makes the endpoint degraded and restores its full weight, without the
  second success and without the warm-up that a recovery goes through.
\<close>

lemma failure_restores_unhealthy_endpoint:
  "weight_and_status (health_run health_policy_default bypass_ops) ''c'' ''a'' = Some (Unhealthy, 0) \<and>
   weight_and_status (health_run health_policy_default
     (bypass_ops @ [HPassiveFailure ''c'' ''a'' ProtoGeneric])) ''c'' ''a'' = Some (Degraded, 4)"
  by code_simp

end
