(* ===== verification/Fair_Share.thy ===== *)
theory Fair_Share
  imports LB_Prelude
begin

text \<open>
  The contract of smooth weighted round robin, shared by the choice among the endpoints of
  a cluster and by the choice among the destinations of a weighted route.

  Every step gives each key its weight as credit, picks a key with the largest credit and
  takes the sum of all weights from the picked key. From these laws alone follows how often
  each key is picked: from a state without credits, never a full turn ahead of its share,
  and exactly its weight in every round of as many picks as the sum of the weights.
\<close>

section \<open>Repeated picks\<close>

fun run_picks :: "('s \<Rightarrow> 'a \<times> 's) \<Rightarrow> nat \<Rightarrow> 's \<Rightarrow> 'a list \<times> 's" where
  "run_picks f 0 s = ([], s)"
| "run_picks f (Suc n) s =
     (case f s of (a, s1) \<Rightarrow> (case run_picks f n s1 of (as, s2) \<Rightarrow> (a # as, s2)))"

lemma run_picks_length: "length (fst (run_picks f n s)) = n"
  by (induction n arbitrary: s) (simp_all add: case_prod_beta)

lemma run_picks_Suc:
  "fst (run_picks f (Suc n) s) = fst (f s) # fst (run_picks f n (snd (f s)))"
  "snd (run_picks f (Suc n) s) = snd (run_picks f n (snd (f s)))"
  by (simp_all add: case_prod_beta)

lemma sum_count_list:
  assumes "finite A" and "set xs \<subseteq> A"
  shows "(\<Sum>a\<in>A. count_list xs a) = length xs"
  using assms(2)
proof (induction xs)
  case (Cons x xs)
  have "(\<Sum>a\<in>A. count_list (x # xs) a) = (\<Sum>a\<in>A. (if a = x then 1 else 0) + count_list xs a)"
    by (intro sum.cong) auto
  also have "\<dots> = 1 + length xs"
    using Cons assms(1) by (simp add: sum.distrib)
  finally show ?case by simp
qed simp

lemma sum_le_eq:
  fixes f g :: "'a \<Rightarrow> int"
  assumes "finite A" and "\<And>a. a \<in> A \<Longrightarrow> f a \<le> g a" and "sum f A = sum g A" and "a \<in> A"
  shows "f a = g a"
proof (rule ccontr)
  assume "f a \<noteq> g a"
  with assms(2,4) have "f a < g a" by force
  with assms have "sum f A < sum g A" by (intro sum_strict_mono_ex1) auto
  with assms(3) show False by simp
qed

section \<open>The contract and its consequences\<close>

locale smooth_round_robin =
  fixes step :: "'s \<Rightarrow> 'k \<times> 's"
    and valid :: "'s \<Rightarrow> bool"
    and keys :: "'s \<Rightarrow> 'k set"
    and weight :: "'s \<Rightarrow> 'k \<Rightarrow> int"
    and credit :: "'s \<Rightarrow> 'k \<Rightarrow> int"
  assumes keys_finite: "valid s \<Longrightarrow> finite (keys s)"
    and weight_pos: "valid s \<Longrightarrow> k \<in> keys s \<Longrightarrow> 1 \<le> weight s k"
    and step_valid: "valid s \<Longrightarrow> valid (snd (step s))"
    and step_keys: "valid s \<Longrightarrow> keys (snd (step s)) = keys s"
    and step_weight: "valid s \<Longrightarrow> weight (snd (step s)) = weight s"
    and step_pick: "valid s \<Longrightarrow> fst (step s) \<in> keys s"
    and step_max: "valid s \<Longrightarrow> k \<in> keys s \<Longrightarrow>
      credit s k + weight s k \<le> credit s (fst (step s)) + weight s (fst (step s))"
    and step_credit: "valid s \<Longrightarrow> k \<in> keys s \<Longrightarrow>
      credit (snd (step s)) k =
        credit s k + weight s k - (if k = fst (step s) then sum (weight s) (keys s) else 0)"
begin

lemma total_pos: "valid s \<Longrightarrow> 0 < sum (weight s) (keys s)"
proof -
  assume v: "valid s"
  have "keys s \<noteq> {}" using step_pick [OF v] by blast
  moreover have "0 < weight s k" if "k \<in> keys s" for k
    using weight_pos [OF v that] by simp
  ultimately show ?thesis
    using keys_finite [OF v] by (intro sum_pos)
qed

lemma run_frame:
  "valid s \<Longrightarrow>
     valid (snd (run_picks step n s)) \<and> keys (snd (run_picks step n s)) = keys s \<and>
     weight (snd (run_picks step n s)) = weight s \<and> set (fst (run_picks step n s)) \<subseteq> keys s"
proof (induction n arbitrary: s)
  case (Suc n)
  from Suc.IH [OF step_valid [OF Suc.prems]] Suc.prems show ?case
    by (simp add: run_picks_Suc step_keys step_weight step_pick del: run_picks.simps(2))
qed simp

lemma run_credit:
  "valid s \<Longrightarrow> k \<in> keys s \<Longrightarrow>
     credit (snd (run_picks step n s)) k =
       credit s k + int n * weight s k
         - int (count_list (fst (run_picks step n s)) k) * sum (weight s) (keys s)"
proof (induction n arbitrary: s)
  case (Suc n)
  have "k \<in> keys (snd (step s))" using Suc.prems by (simp add: step_keys)
  from Suc.IH [OF step_valid [OF Suc.prems(1)] this] Suc.prems show ?case
    by (auto simp: run_picks_Suc step_keys step_weight step_credit algebra_simps
        simp del: run_picks.simps(2))
qed simp

lemma step_sum: "valid s \<Longrightarrow> sum (credit (snd (step s))) (keys s) = sum (credit s) (keys s)"
proof -
  assume v: "valid s"
  let ?T = "sum (weight s) (keys s)"
  have "sum (credit (snd (step s))) (keys s) =
      (\<Sum>k\<in>keys s. credit s k + weight s k - (if k = fst (step s) then ?T else 0))"
    using v by (intro sum.cong) (simp_all add: step_credit)
  also have "\<dots> = sum (credit s) (keys s) + ?T - ?T"
    using v by (simp add: sum.distrib sum_subtractf keys_finite step_pick)
  finally show ?thesis by simp
qed

definition balanced :: "'s \<Rightarrow> bool" where
  "balanced s \<longleftrightarrow> sum (credit s) (keys s) = 0 \<and> (\<forall>k\<in>keys s. - sum (weight s) (keys s) < credit s k)"

lemma step_balanced:
  assumes v: "valid s" and b: "balanced s"
  shows "balanced (snd (step s))"
proof -
  let ?T = "sum (weight s) (keys s)" and ?p = "fst (step s)"
  have T: "0 < ?T" using v by (rule total_pos)
  have "0 < credit s ?p + weight s ?p"
  proof (rule ccontr)
    assume "\<not> 0 < credit s ?p + weight s ?p"
    then have "\<forall>k\<in>keys s. credit s k + weight s k \<le> 0"
      using step_max [OF v] by force
    then have "(\<Sum>k\<in>keys s. credit s k + weight s k) \<le> 0"
      by (intro sum_nonpos) simp
    with b T show False by (simp add: sum.distrib balanced_def)
  qed
  then have "- ?T < credit (snd (step s)) k" if "k \<in> keys s" for k
    using that v b weight_pos [OF v that] by (auto simp: step_credit balanced_def)
  moreover have "sum (credit (snd (step s))) (keys s) = 0"
    using v b by (simp add: step_sum balanced_def)
  ultimately show ?thesis
    using v by (simp add: balanced_def step_keys step_weight)
qed

lemma run_balanced: "valid s \<Longrightarrow> balanced s \<Longrightarrow> balanced (snd (run_picks step n s))"
  by (induction n arbitrary: s)
    (simp_all add: run_picks_Suc step_valid step_balanced del: run_picks.simps(2))

lemma zero_balanced:
  assumes "valid s" and "\<And>k. k \<in> keys s \<Longrightarrow> credit s k = 0"
  shows "balanced s"
  using assms total_pos [OF assms(1)] by (simp add: balanced_def)

text \<open>No key is ever a full turn ahead of its share.\<close>

lemma run_share:
  assumes "valid s" and "\<And>k. k \<in> keys s \<Longrightarrow> credit s k = 0" and "k \<in> keys s"
  shows "int (count_list (fst (run_picks step n s)) k) * sum (weight s) (keys s)
    < int n * weight s k + sum (weight s) (keys s)"
proof -
  have "balanced (snd (run_picks step n s))"
    using assms(1) zero_balanced [OF assms(1,2)] by (rule run_balanced)
  then have "- sum (weight s) (keys s) < credit (snd (run_picks step n s)) k"
    using assms(3) run_frame [OF assms(1), of n] by (simp add: balanced_def)
  then show ?thesis
    by (simp only: run_credit [OF assms(1,3)] assms(2) [OF assms(3)])
qed

text \<open>In one round every key is picked exactly as often as its weight says.\<close>

lemma run_round:
  assumes v: "valid s" and z: "\<And>k. k \<in> keys s \<Longrightarrow> credit s k = 0" and k: "k \<in> keys s"
    and n: "int n = sum (weight s) (keys s)"
  shows "int (count_list (fst (run_picks step n s)) k) = weight s k \<and>
    credit (snd (run_picks step n s)) k = 0"
proof -
  let ?T = "sum (weight s) (keys s)" and ?c = "\<lambda>k. int (count_list (fst (run_picks step n s)) k)"
  have T: "0 < ?T" using v by (rule total_pos)
  have le: "?c j \<le> weight s j" if "j \<in> keys s" for j
  proof -
    have "?c j * ?T < (weight s j + 1) * ?T"
      using run_share [OF v z that, of n] n by (simp add: algebra_simps)
    then show ?thesis using T by simp
  qed
  have "(\<Sum>j\<in>keys s. count_list (fst (run_picks step n s)) j) = n"
    using sum_count_list [OF keys_finite [OF v], of "fst (run_picks step n s)"] run_frame [OF v, of n]
    by (simp add: run_picks_length)
  then have "sum ?c (keys s) = int n"
    by (metis of_nat_sum)
  then have "sum ?c (keys s) = sum (weight s) (keys s)" using n by simp
  from sum_le_eq [OF keys_finite [OF v] le this k] have "?c k = weight s k" .
  with run_credit [OF v k, of n] z [OF k] n show ?thesis by simp
qed

text \<open>The credits stay below the number of keys times the sum of the weights.\<close>

lemma balanced_bound:
  assumes v: "valid s" and b: "balanced s" and k: "k \<in> keys s"
  shows "credit s k < int (card (keys s)) * sum (weight s) (keys s)"
proof -
  let ?T = "sum (weight s) (keys s)"
  have T: "0 < ?T" using v by (rule total_pos)
  have "(\<Sum>j\<in>keys s - {k}. - ?T) \<le> sum (credit s) (keys s - {k})"
    using b by (intro sum_mono) (force simp: balanced_def)
  moreover have "sum (credit s) (keys s - {k}) = - credit s k"
    using b k keys_finite [OF v] by (simp add: sum_diff1 balanced_def)
  ultimately have "credit s k \<le> int (card (keys s - {k})) * ?T" by simp
  also have "\<dots> < int (card (keys s)) * ?T"
    using T k keys_finite [OF v] card_Diff1_less [of "keys s" k] by simp
  finally show ?thesis .
qed

end

end
