(* ===== verification/Upstream_Balancer.thy ===== *)
theory Upstream_Balancer
  imports Upstream_Health Fair_Share
begin

text \<open>
  \<open>UpstreamBalancer\<close> of \<open>crates/runtime/src/upstream_balancer.rs\<close>: the choice of one
  endpoint among the candidates of the health registry by round robin, smooth weighted
  round robin, power of two choices or key affinity, after the locality preference, with
  the counters the code keeps.

  A selection reads the registry up to three times; the model reads one and the same state.
  Candidate indices are reduced modulo the number of candidates, which is not zero where
  they are used. The score of the affinity hash is a parameter \<open>score\<close>: it is computed with
  \<open>DefaultHasher\<close>, whose algorithm is not specified, and with \<open>f64::ln\<close>. Its value is
  the integer that \<open>f64::total_cmp\<close> compares, so \<open>NEG_INFINITY_KEY\<close> stands for the initial
  best score.
\<close>

unbundle bit_operations_syntax

section \<open>Policies and contexts\<close>

datatype load_balancing_algorithm = RoundRobin | WeightedRoundRobin | PowerOfTwoChoices

datatype locality_routing_policy =
    LocalityDisabled | PreferLocality | PreferZone | PreferLocalityThenZone

datatype no_healthy_fallback = FallbackFail | IncludeUnhealthy

datatype affinity_fallback_policy = BalanceHealthy

datatype affinity_policy =
    HeaderHash string affinity_fallback_policy
  | CookieHash string affinity_fallback_policy

record upstream_selection_policy =
  usp_algorithm :: load_balancing_algorithm
  usp_locality :: locality_routing_policy
  usp_no_healthy_fallback :: no_healthy_fallback
  usp_affinity :: "affinity_policy option"

definition selection_policy_default :: upstream_selection_policy where
  "selection_policy_default =
     \<lparr>usp_algorithm = RoundRobin, usp_locality = LocalityDisabled,
      usp_no_healthy_fallback = FallbackFail, usp_affinity = None\<rparr>"

record selection_context =
  sx_preferred_locality :: "string option"
  sx_preferred_zone :: "string option"
  sx_affinity_key :: "string option"
  sx_request_hash :: nat

record selected_endpoint =
  se_cluster_name :: cluster_name
  se_endpoint_id :: endpoint_id
  se_address :: socket_addr
  se_effective_weight :: nat
  se_health_status :: endpoint_health_status
  se_locality_matched :: bool

datatype upstream_selection_error =
    SelectionHealth upstream_health_error
  | NoEligibleEndpoints cluster_name

record selection_counters =
  mc_round_robin :: nat
  mc_weighted_round_robin :: nat
  mc_power_of_two :: nat
  mc_locality_preference_hit :: nat
  mc_no_healthy_endpoint :: nat
  mc_unhealthy_fallback :: nat
  mc_affinity_hit :: nat
  mc_affinity_fallback :: nat

type_synonym cluster_cursor_key = "cluster_name \<times> bool"

record weighted_state =
  ws_total_weight :: int
  ws_current_weights :: "(endpoint_id, int) btree_map"

record upstream_balancer =
  ub_round_robin_cursors :: "(cluster_cursor_key, nat) btree_map"
  ub_weighted_states :: "(cluster_cursor_key, weighted_state) btree_map"
  ub_metrics :: selection_counters

definition selection_counters_zero :: selection_counters where
  "selection_counters_zero =
     \<lparr>mc_round_robin = 0, mc_weighted_round_robin = 0, mc_power_of_two = 0,
      mc_locality_preference_hit = 0, mc_no_healthy_endpoint = 0, mc_unhealthy_fallback = 0,
      mc_affinity_hit = 0, mc_affinity_fallback = 0\<rparr>"

definition balancer_new :: upstream_balancer where
  "balancer_new =
     \<lparr>ub_round_robin_cursors = [], ub_weighted_states = [], ub_metrics = selection_counters_zero\<rparr>"

text \<open>\<open>fetch_add(1)\<close> on one of the counters.\<close>

definition bump ::
  "((nat \<Rightarrow> nat) \<Rightarrow> selection_counters \<Rightarrow> selection_counters) \<Rightarrow> upstream_balancer \<Rightarrow> upstream_balancer" where
  "bump upd b = b\<lparr>ub_metrics := upd (\<lambda>n. wrap_add 64 n 1) (ub_metrics b)\<rparr>"

section \<open>Locality\<close>

definition prefer_by_field ::
  "endpoint_selection_candidate list \<Rightarrow> (endpoint_selection_candidate \<Rightarrow> bool) \<Rightarrow>
     endpoint_selection_candidate list \<times> bool" where
  "prefer_by_field cs predicate =
     (let filtered = filter predicate cs in
      if filtered = [] then (cs, False) else (filtered, True))"

definition apply_locality_preference ::
  "endpoint_selection_candidate list \<Rightarrow> upstream_selection_policy \<Rightarrow> selection_context \<Rightarrow>
     endpoint_selection_candidate list \<times> bool" where
  "apply_locality_preference cs policy cx =
     (let by_locality = (\<lambda>l c. em_locality (sc_metadata c) = Some l);
          by_zone = (\<lambda>z c. em_zone (sc_metadata c) = Some z)
      in case usp_locality policy of
        LocalityDisabled \<Rightarrow> (cs, False)
      | PreferLocality \<Rightarrow>
          (case sx_preferred_locality cx of
             Some l \<Rightarrow> prefer_by_field cs (by_locality l) | None \<Rightarrow> (cs, False))
      | PreferZone \<Rightarrow>
          (case sx_preferred_zone cx of
             Some z \<Rightarrow> prefer_by_field cs (by_zone z) | None \<Rightarrow> (cs, False))
      | PreferLocalityThenZone \<Rightarrow>
          (let zone_step =
             (case sx_preferred_zone cx of
                Some z \<Rightarrow> prefer_by_field cs (by_zone z) | None \<Rightarrow> (cs, False))
           in case sx_preferred_locality cx of
             Some l \<Rightarrow>
               (case prefer_by_field cs (by_locality l) of
                  (filtered, matched) \<Rightarrow> if matched then (filtered, True) else zone_step)
           | None \<Rightarrow> zone_step))"

section \<open>Algorithms\<close>

definition select_round_robin ::
  "cluster_name \<Rightarrow> endpoint_selection_candidate list \<Rightarrow> bool \<Rightarrow> upstream_balancer \<Rightarrow>
     endpoint_selection_candidate \<times> upstream_balancer" where
  "select_round_robin n cs fallback_used b =
     (let key = (n, fallback_used);
          cursor = bt_get_or key 0 (ub_round_robin_cursors b);
          index = cursor mod length cs
      in (cs ! index,
          b\<lparr>ub_round_robin_cursors :=
              bt_insert key ((cursor + 1) mod length cs) (ub_round_robin_cursors b)\<rparr>))"

definition candidate_weight :: "endpoint_selection_candidate \<Rightarrow> int" where
  "candidate_weight c = int (max (hs_effective_weight (sc_health c)) 1)"

text \<open>
  The loop over \<open>candidates.iter().enumerate()\<close>: each iteration adds the weight to the entry
  of the candidate and keeps the best index so far with its credit.
\<close>

fun weighted_loop ::
  "endpoint_selection_candidate list \<Rightarrow> nat \<Rightarrow> endpoint_selection_candidate list \<Rightarrow>
     (endpoint_id, int) btree_map \<Rightarrow> (nat \<times> int) option \<Rightarrow>
     (endpoint_id, int) btree_map \<times> (nat \<times> int) option" where
  "weighted_loop cs index [] weights best = (weights, best)"
| "weighted_loop cs index (c # rest) weights best =
     (let weights1 = bt_entry (sc_endpoint_id c) 0 (\<lambda>x. x + candidate_weight c) weights;
          current = bt_get_or (sc_endpoint_id c) 0 weights1;
          best1 = (case best of
             None \<Rightarrow> Some (index, current)
           | Some (best_index, best_weight) \<Rightarrow>
               if best_weight < current \<or>
                  current = best_weight \<and> sc_endpoint_id (cs ! index) < sc_endpoint_id (cs ! best_index)
               then Some (index, current) else best)
      in weighted_loop cs (Suc index) rest weights1 best1)"

definition weighted_state_step ::
  "endpoint_selection_candidate list \<Rightarrow> weighted_state \<Rightarrow> endpoint_selection_candidate \<times> weighted_state" where
  "weighted_state_step cs st =
     (let tot = sum_list (map candidate_weight cs);
          retained = bt_retain (\<lambda>i. list_ex (\<lambda>c. sc_endpoint_id c = i) cs) (ws_current_weights st)
      in case weighted_loop cs 0 cs retained None of
        (weights, best) \<Rightarrow>
          let best_index = fst (case best of None \<Rightarrow> (0, 0) | Some p \<Rightarrow> p);
              i = sc_endpoint_id (cs ! best_index);
              weights1 = (case map_of weights i of
                 None \<Rightarrow> weights | Some current \<Rightarrow> bt_insert i (current - tot) weights)
          in (cs ! best_index, \<lparr>ws_total_weight = tot, ws_current_weights = weights1\<rparr>))"

definition weighted_state_default :: weighted_state where
  "weighted_state_default = \<lparr>ws_total_weight = 0, ws_current_weights = []\<rparr>"

definition select_weighted_round_robin ::
  "cluster_name \<Rightarrow> endpoint_selection_candidate list \<Rightarrow> bool \<Rightarrow> upstream_balancer \<Rightarrow>
     endpoint_selection_candidate \<times> upstream_balancer" where
  "select_weighted_round_robin n cs fallback_used b =
     (let key = (n, fallback_used);
          (selected, st) = weighted_state_step cs
             (bt_get_or key weighted_state_default (ub_weighted_states b))
      in (selected, b\<lparr>ub_weighted_states := bt_insert key st (ub_weighted_states b)\<rparr>))"

definition mix64 :: "64 word \<Rightarrow> 64 word" where
  "mix64 x =
     (let v1 = x + 0x9e3779b97f4a7c15;
          v2 = (v1 XOR drop_bit 30 v1) * 0xbf58476d1ce4e5b9;
          v3 = (v2 XOR drop_bit 27 v2) * 0x94d049bb133111eb
      in v3 XOR drop_bit 31 v3)"

datatype cmp_ordering = CmpLess | CmpEqual | CmpGreater

definition cmp :: "'a::linorder \<Rightarrow> 'a \<Rightarrow> cmp_ordering" where
  "cmp x y = (if x < y then CmpLess else if x = y then CmpEqual else CmpGreater)"

definition then_with :: "cmp_ordering \<Rightarrow> cmp_ordering \<Rightarrow> cmp_ordering" where
  "then_with a b = (if a = CmpEqual then b else a)"

definition health_rank :: "endpoint_health_status \<Rightarrow> nat" where
  "health_rank s =
     (case s of Healthy \<Rightarrow> 4 | Warming \<Rightarrow> 3 | Degraded \<Rightarrow> 2 | Unhealthy \<Rightarrow> 1 | Ejected \<Rightarrow> 0)"

definition candidate_score :: "endpoint_selection_candidate \<Rightarrow> nat \<times> nat \<times> nat" where
  "candidate_score c =
     (health_rank (hs_status (sc_health c)), hs_effective_weight (sc_health c), em_weight (sc_metadata c))"

definition compare_candidates ::
  "endpoint_selection_candidate \<Rightarrow> endpoint_selection_candidate \<Rightarrow> cmp_ordering" where
  "compare_candidates l r =
     then_with (cmp (candidate_score l) (candidate_score r)) (cmp (sc_endpoint_id r) (sc_endpoint_id l))"

definition select_power_of_two ::
  "endpoint_selection_candidate list \<Rightarrow> nat \<Rightarrow> endpoint_selection_candidate" where
  "select_power_of_two cs request_hash =
     (if length cs = 1 then cs ! 0
      else let h = word_of_nat request_hash;
               first_index = unat (mix64 h) mod length cs;
               second_index0 = unat (mix64 (h XOR 0x9e3779b97f4a7c15)) mod length cs;
               second_index = (if second_index0 = first_index
                 then (second_index0 + 1) mod length cs else second_index0);
               first = cs ! first_index;
               second = cs ! second_index
           in if compare_candidates first second \<noteq> CmpLess then first else second)"

section \<open>Affinity\<close>

type_synonym affinity_score = "string \<Rightarrow> endpoint_selection_candidate \<Rightarrow> int"

definition NEG_INFINITY_KEY :: int where
  "NEG_INFINITY_KEY = -9218868437227405313"

fun affinity_loop ::
  "(endpoint_selection_candidate \<Rightarrow> int) \<Rightarrow> endpoint_selection_candidate list \<Rightarrow> nat \<Rightarrow>
     endpoint_selection_candidate list \<Rightarrow> nat \<Rightarrow> int \<Rightarrow> nat" where
  "affinity_loop score cs index [] best_index best_score = best_index"
| "affinity_loop score cs index (c # rest) best_index best_score =
     (if best_score < score c \<or>
         score c = best_score \<and> sc_endpoint_id c < sc_endpoint_id (cs ! best_index)
      then affinity_loop score cs (Suc index) rest index (score c)
      else affinity_loop score cs (Suc index) rest best_index best_score)"

definition select_affinity_candidate ::
  "affinity_score \<Rightarrow> endpoint_selection_candidate list \<Rightarrow> string \<Rightarrow> endpoint_selection_candidate" where
  "select_affinity_candidate score cs key = cs ! affinity_loop (score key) cs 0 cs 0 NEG_INFINITY_KEY"

definition try_select_affinity_candidate ::
  "affinity_score \<Rightarrow> upstream_health_registry \<Rightarrow> cluster_name \<Rightarrow> upstream_selection_policy \<Rightarrow>
     selection_context \<Rightarrow> endpoint_selection_candidate list \<Rightarrow> upstream_balancer \<Rightarrow>
     (endpoint_selection_candidate option, upstream_selection_error) result \<times> upstream_balancer" where
  "try_select_affinity_candidate score reg n policy cx eligible b =
     (case (usp_affinity policy, sx_affinity_key cx) of
        (Some affinity, Some key) \<Rightarrow>
          (case selection_candidates reg n True of
             Inl e \<Rightarrow> (Err (SelectionHealth e), b)
           | Inr all \<Rightarrow>
               let cs = fst (apply_locality_preference all policy cx) in
               if cs = [] then (Ok None, b)
               else let preferred = select_affinity_candidate score cs key in
                 case find (\<lambda>c. sc_endpoint_id c = sc_endpoint_id preferred) eligible of
                   Some selected \<Rightarrow> (Ok (Some selected), bump mc_affinity_hit_update b)
                 | None \<Rightarrow>
                     (case affinity of
                        HeaderHash _ BalanceHealthy \<Rightarrow> (Ok None, bump mc_affinity_fallback_update b)
                      | CookieHash _ BalanceHealthy \<Rightarrow> (Ok None, bump mc_affinity_fallback_update b)))
      | _ \<Rightarrow> (Ok None, b))"

section \<open>Selection\<close>

definition select_by_algorithm ::
  "cluster_name \<Rightarrow> upstream_selection_policy \<Rightarrow> selection_context \<Rightarrow> endpoint_selection_candidate list \<Rightarrow>
     bool \<Rightarrow> upstream_balancer \<Rightarrow> endpoint_selection_candidate \<times> upstream_balancer" where
  "select_by_algorithm n policy cx cs fallback_used b =
     (case usp_algorithm policy of
        RoundRobin \<Rightarrow> select_round_robin n cs fallback_used (bump mc_round_robin_update b)
      | WeightedRoundRobin \<Rightarrow>
          select_weighted_round_robin n cs fallback_used (bump mc_weighted_round_robin_update b)
      | PowerOfTwoChoices \<Rightarrow>
          (select_power_of_two cs (sx_request_hash cx), bump mc_power_of_two_update b))"

definition selected_of :: "endpoint_selection_candidate \<Rightarrow> bool \<Rightarrow> selected_endpoint" where
  "selected_of c matched =
     \<lparr>se_cluster_name = sc_cluster_name c, se_endpoint_id = sc_endpoint_id c,
      se_address = sc_address c, se_effective_weight = hs_effective_weight (sc_health c),
      se_health_status = hs_status (sc_health c), se_locality_matched = matched\<rparr>"

text \<open>The candidates with the fallback flag, and the balancer with its no-healthy counter.\<close>

definition gather_candidates ::
  "upstream_health_registry \<Rightarrow> cluster_name \<Rightarrow> upstream_selection_policy \<Rightarrow> upstream_balancer \<Rightarrow>
     (endpoint_selection_candidate list \<times> bool, upstream_selection_error) result \<times> upstream_balancer" where
  "gather_candidates reg n policy b =
     (case selection_candidates reg n False of
        Inl e \<Rightarrow> (Err (SelectionHealth e), b)
      | Inr cs \<Rightarrow>
          if cs \<noteq> [] then (Ok (cs, False), b)
          else let b1 = bump mc_no_healthy_endpoint_update b in
            if usp_no_healthy_fallback policy = IncludeUnhealthy
            then (case selection_candidates reg n True of
                    Inl e \<Rightarrow> (Err (SelectionHealth e), b1)
                  | Inr cs' \<Rightarrow> (if cs' = [] then Err (NoEligibleEndpoints n) else Ok (cs', True), b1))
            else (Err (NoEligibleEndpoints n), b1))"

definition select_endpoint ::
  "affinity_score \<Rightarrow> upstream_health_registry \<Rightarrow> cluster_name \<Rightarrow> upstream_selection_policy \<Rightarrow>
     selection_context \<Rightarrow> upstream_balancer \<Rightarrow>
     (selected_endpoint, upstream_selection_error) result \<times> upstream_balancer" where
  "select_endpoint score reg n policy cx b =
     (case gather_candidates reg n policy b of
        (Inl e, b1) \<Rightarrow> (Err e, b1)
      | (Inr (cs0, fallback_used), b1) \<Rightarrow>
          (case apply_locality_preference cs0 policy cx of
             (cs, matched) \<Rightarrow>
               let b2 = (if matched then bump mc_locality_preference_hit_update b1 else b1) in
               case try_select_affinity_candidate score reg n policy cx cs b2 of
                 (Inl e, b3) \<Rightarrow> (Err e, b3)
               | (Inr preferred, b3) \<Rightarrow>
                   let (c, b4) = (case preferred of
                          Some c \<Rightarrow> (c, b3)
                        | None \<Rightarrow> select_by_algorithm n policy cx cs fallback_used b3);
                       b5 = (if fallback_used then bump mc_unhealthy_fallback_update b4 else b4)
                   in (Ok (selected_of c matched), b5)))"

section \<open>Smooth weighted round robin: one step\<close>

definition weight_of :: "endpoint_selection_candidate list \<Rightarrow> endpoint_id \<Rightarrow> int" where
  "weight_of cs i = (case find (\<lambda>c. sc_endpoint_id c = i) cs of None \<Rightarrow> 0 | Some c \<Rightarrow> candidate_weight c)"

lemma candidate_weight_pos: "1 \<le> candidate_weight c"
  by (simp add: candidate_weight_def)

lemma weight_of_mem:
  "distinct (map sc_endpoint_id cs) \<Longrightarrow> c \<in> set cs \<Longrightarrow> weight_of cs (sc_endpoint_id c) = candidate_weight c"
  by (induction cs) (auto simp: weight_of_def)

lemma weight_of_notin: "i \<notin> sc_endpoint_id ` set cs \<Longrightarrow> weight_of cs i = 0"
proof -
  assume "i \<notin> sc_endpoint_id ` set cs"
  then have "find (\<lambda>c. sc_endpoint_id c = i) cs = None" by (auto simp: find_None_iff)
  then show ?thesis by (simp add: weight_of_def)
qed

lemma sum_weight_of:
  assumes "distinct (map sc_endpoint_id cs)"
  shows "sum (weight_of cs) (sc_endpoint_id ` set cs) = sum_list (map candidate_weight cs)"
proof -
  have "sum (weight_of cs) (sc_endpoint_id ` set cs) = sum (\<lambda>c. weight_of cs (sc_endpoint_id c)) (set cs)"
    using assms by (subst sum.reindex) (auto simp: distinct_map)
  also have "\<dots> = sum candidate_weight (set cs)"
    using assms by (intro sum.cong) (simp_all add: weight_of_mem)
  also have "\<dots> = sum_list (map candidate_weight cs)"
    using assms by (simp add: sum_list_distinct_conv_sum_set distinct_map)
  finally show ?thesis .
qed

lemma weighted_loop_frame:
  "bt_ok weights \<Longrightarrow> distinct (map sc_endpoint_id rest) \<Longrightarrow>
     bt_ok (fst (weighted_loop cs idx rest weights best)) \<and>
     (\<forall>i. bt_get_or i 0 (fst (weighted_loop cs idx rest weights best)) = bt_get_or i 0 weights + weight_of rest i)"
proof (induction rest arbitrary: idx weights best)
  case Nil
  then show ?case by (simp add: weight_of_def)
next
  case (Cons c rest)
  let ?w = "bt_entry (sc_endpoint_id c) 0 (\<lambda>x. x + candidate_weight c) weights"
  have "bt_ok ?w" using Cons.prems(1) by (rule bt_entry_ok)
  moreover have "bt_get_or i 0 ?w = bt_get_or i 0 weights + (if i = sc_endpoint_id c then candidate_weight c else 0)" for i
    using Cons.prems(1) by (simp add: bt_get_or_bt_entry)
  moreover have "weight_of (c # rest) i = (if i = sc_endpoint_id c then candidate_weight c else weight_of rest i)" for i
    by (simp add: weight_of_def)
  moreover have "weight_of rest (sc_endpoint_id c) = 0"
    using Cons.prems(2) by (intro weight_of_notin) simp
  ultimately show ?case
    using Cons.IH [of ?w] Cons.prems(2) by (auto simp: Let_def)
qed

lemma weighted_loop_has:
  "bt_ok weights \<Longrightarrow> bt_has i (fst (weighted_loop cs idx rest weights best)) \<longleftrightarrow>
     bt_has i weights \<or> i \<in> sc_endpoint_id ` set rest"
proof (induction rest arbitrary: idx weights best)
  case (Cons c rest)
  let ?w = "bt_entry (sc_endpoint_id c) 0 (\<lambda>x. x + candidate_weight c) weights"
  have "bt_ok ?w" "bt_has i ?w \<longleftrightarrow> bt_has i weights \<or> i = sc_endpoint_id c"
    using Cons.prems by (auto simp: bt_entry_ok bt_has_def map_of_bt_entry)
  with Cons.IH [of ?w] show ?case by (auto simp: Let_def)
qed simp

definition best_so_far ::
  "endpoint_selection_candidate list \<Rightarrow> nat \<Rightarrow> (endpoint_id, int) btree_map \<Rightarrow> (nat \<times> int) option \<Rightarrow> bool" where
  "best_so_far cs idx weights best \<longleftrightarrow>
     (case best of
        None \<Rightarrow> idx = 0
      | Some (bi, bw) \<Rightarrow> bi < idx \<and> bw = bt_get_or (sc_endpoint_id (cs ! bi)) 0 weights \<and>
          (\<forall>j<idx. bt_get_or (sc_endpoint_id (cs ! j)) 0 weights \<le> bw))"

lemma best_so_far_step:
  assumes "bt_ok weights" and "distinct (map sc_endpoint_id cs)" and "idx < length cs"
    and "best_so_far cs idx weights best" and "c = cs ! idx"
    and w1: "w1 = bt_entry (sc_endpoint_id c) 0 (\<lambda>x. x + candidate_weight c) weights"
  shows "best_so_far cs (Suc idx) w1
    (case best of None \<Rightarrow> Some (idx, bt_get_or (sc_endpoint_id c) 0 w1)
     | Some (bi, bw) \<Rightarrow>
         if bw < bt_get_or (sc_endpoint_id c) 0 w1 \<or>
            bt_get_or (sc_endpoint_id c) 0 w1 = bw \<and> sc_endpoint_id (cs ! idx) < sc_endpoint_id (cs ! bi)
         then Some (idx, bt_get_or (sc_endpoint_id c) 0 w1) else best)"
proof -
  have old: "bt_get_or (sc_endpoint_id (cs ! j)) 0 w1 = bt_get_or (sc_endpoint_id (cs ! j)) 0 weights"
    if "j < idx" for j
  proof -
    have "sc_endpoint_id (cs ! j) \<noteq> sc_endpoint_id c"
      using that assms(2,3,5) nth_eq_iff_index_eq [of "map sc_endpoint_id cs" j idx] by simp
    with assms(1) show ?thesis by (simp add: w1 bt_get_or_bt_entry)
  qed
  show ?thesis
  proof (cases best)
    case None
    with assms(4,5) show ?thesis by (simp add: best_so_far_def)
  next
    case (Some p)
    obtain bi bw where p: "p = (bi, bw)" by (cases p)
    with Some assms(4) have "bi < idx" "bw = bt_get_or (sc_endpoint_id (cs ! bi)) 0 weights"
      "\<forall>j<idx. bt_get_or (sc_endpoint_id (cs ! j)) 0 weights \<le> bw"
      by (auto simp: best_so_far_def)
    with Some p old assms(5) show ?thesis
      by (auto simp: best_so_far_def less_Suc_eq)
  qed
qed

lemma weighted_loop_best:
  assumes "bt_ok weights" and "distinct (map sc_endpoint_id cs)" and "rest = drop idx cs"
    and "idx \<le> length cs" and "best_so_far cs idx weights best"
  shows "best_so_far cs (length cs) (fst (weighted_loop cs idx rest weights best))
    (snd (weighted_loop cs idx rest weights best))"
  using assms
proof (induction rest arbitrary: idx weights best)
  case Nil
  then show ?case by simp
next
  case (Cons c rest)
  then have idx: "idx < length cs" by (metis drop_eq_Nil2 list.distinct(1) not_le)
  with Cons.prems(3) have c: "c = cs ! idx" "rest = drop (Suc idx) cs"
    by (simp_all add: Cons_nth_drop_Suc [symmetric])
  note step = best_so_far_step [OF Cons.prems(1,2) idx Cons.prems(5) c(1) refl]
  have "bt_ok (bt_entry (sc_endpoint_id c) 0 (\<lambda>x. x + candidate_weight c) weights)"
    using Cons.prems(1) by (rule bt_entry_ok)
  from Cons.IH [OF this Cons.prems(2) c(2) _ step] idx show ?case
    by (simp add: Let_def)
qed

definition credit_of :: "weighted_state \<Rightarrow> endpoint_id \<Rightarrow> int" where
  "credit_of st i = bt_get_or i 0 (ws_current_weights st)"

lemma weighted_state_step_spec:
  assumes ok: "bt_ok (ws_current_weights st)" and d: "distinct (map sc_endpoint_id cs)" and ne: "cs \<noteq> []"
  obtains c st' where "weighted_state_step cs st = (c, st')" "c \<in> set cs" "bt_ok (ws_current_weights st')"
    "\<And>i. i \<in> sc_endpoint_id ` set cs \<Longrightarrow>
       credit_of st i + weight_of cs i \<le> credit_of st (sc_endpoint_id c) + weight_of cs (sc_endpoint_id c)"
    "\<And>i. i \<in> sc_endpoint_id ` set cs \<Longrightarrow> credit_of st' i =
       credit_of st i + weight_of cs i - (if i = sc_endpoint_id c then sum_list (map candidate_weight cs) else 0)"
proof -
  let ?ret = "bt_retain (\<lambda>i. list_ex (\<lambda>c. sc_endpoint_id c = i) cs) (ws_current_weights st)"
  obtain weights best where loop: "weighted_loop cs 0 cs ?ret None = (weights, best)" by (cases "weighted_loop cs 0 cs ?ret None")
  have ret: "bt_get_or i 0 ?ret = credit_of st i" if "i \<in> sc_endpoint_id ` set cs" for i
    using that by (auto simp: bt_get_or_def credit_of_def map_of_bt_retain list_ex_iff)
  have w: "bt_ok weights" "\<And>i. bt_get_or i 0 weights = bt_get_or i 0 ?ret + weight_of cs i"
    using weighted_loop_frame [of ?ret cs cs 0 None] ok d loop by (auto simp: bt_retain_ok)
  have "best_so_far cs (length cs) weights best"
    using weighted_loop_best [of ?ret cs cs 0 None] ok d loop by (simp add: bt_retain_ok best_so_far_def)
  with ne obtain bi bw where best: "best = Some (bi, bw)" "bi < length cs"
    "bw = bt_get_or (sc_endpoint_id (cs ! bi)) 0 weights"
    "\<forall>j<length cs. bt_get_or (sc_endpoint_id (cs ! j)) 0 weights \<le> bw"
    by (cases best) (auto simp: best_so_far_def)
  let ?c = "cs ! bi" and ?tot = "sum_list (map candidate_weight cs)"
  let ?w = "case map_of weights (sc_endpoint_id ?c) of None \<Rightarrow> weights
              | Some x \<Rightarrow> bt_insert (sc_endpoint_id ?c) (x - ?tot) weights"
  have c: "?c \<in> set cs" using best(2) by simp
  show ?thesis
  proof
    show "weighted_state_step cs st = (?c, \<lparr>ws_total_weight = ?tot, ws_current_weights = ?w\<rparr>)"
      using loop best(1) by (simp add: weighted_state_step_def Let_def split: option.split)
    show "?c \<in> set cs" by (rule c)
    show "bt_ok (ws_current_weights \<lparr>ws_total_weight = ?tot, ws_current_weights = ?w\<rparr>)"
      using w(1) by (simp add: bt_insert_ok split: option.split)
    show "credit_of st i + weight_of cs i \<le> credit_of st (sc_endpoint_id ?c) + weight_of cs (sc_endpoint_id ?c)"
      if i: "i \<in> sc_endpoint_id ` set cs" for i
    proof -
      from i obtain j where "j < length cs" "i = sc_endpoint_id (cs ! j)" by (auto simp: in_set_conv_nth)
      with best(3,4) have "bt_get_or i 0 weights \<le> bt_get_or (sc_endpoint_id ?c) 0 weights" by simp
      with i c show ?thesis by (simp add: w(2) ret)
    qed
    show "credit_of \<lparr>ws_total_weight = ?tot, ws_current_weights = ?w\<rparr> i =
        credit_of st i + weight_of cs i - (if i = sc_endpoint_id ?c then ?tot else 0)"
      if i: "i \<in> sc_endpoint_id ` set cs" for i
    proof -
      have "map_of weights (sc_endpoint_id ?c) \<noteq> None"
        using weighted_loop_has [of ?ret "sc_endpoint_id ?c" cs 0 cs None] ok loop c
        by (auto simp: bt_retain_ok bt_has_def)
      then have "bt_get_or i 0 ?w = bt_get_or i 0 weights - (if i = sc_endpoint_id ?c then ?tot else 0)"
        using w(1) by (auto simp: bt_get_or_def map_of_bt_insert)
      with i show ?thesis by (simp add: credit_of_def w(2) ret)
    qed
  qed
qed

section \<open>Smooth weighted round robin: fairness\<close>

definition balancer_ok :: "upstream_balancer \<Rightarrow> bool" where
  "balancer_ok b \<longleftrightarrow> bt_ok (ub_round_robin_cursors b) \<and> bt_ok (ub_weighted_states b) \<and>
     (\<forall>key st. map_of (ub_weighted_states b) key = Some st \<longrightarrow> bt_ok (ws_current_weights st))"

definition cluster_weights :: "cluster_cursor_key \<Rightarrow> upstream_balancer \<Rightarrow> weighted_state" where
  "cluster_weights key b = bt_get_or key weighted_state_default (ub_weighted_states b)"

lemma cluster_weights_ok: "balancer_ok b \<Longrightarrow> bt_ok (ws_current_weights (cluster_weights key b))"
  by (cases key) (simp add: cluster_weights_def bt_get_or_def balancer_ok_def weighted_state_default_def
      split: option.split)

lemma select_weighted_eq:
  assumes "balancer_ok b" and "weighted_state_step cs (cluster_weights (n, fb) b) = (c, st)"
  shows "fst (select_weighted_round_robin n cs fb b) = c"
    "cluster_weights (n, fb) (snd (select_weighted_round_robin n cs fb b)) = st"
  using assms
  by (simp_all add: select_weighted_round_robin_def Let_def cluster_weights_def balancer_ok_def
      bt_get_or_def map_of_bt_insert)

lemma select_weighted_ok:
  assumes "balancer_ok b" and "distinct (map sc_endpoint_id cs)" and "cs \<noteq> []"
  shows "balancer_ok (snd (select_weighted_round_robin n cs fb b))"
proof -
  obtain c st where st: "weighted_state_step cs (cluster_weights (n, fb) b) = (c, st)" "bt_ok (ws_current_weights st)"
    using weighted_state_step_spec [OF cluster_weights_ok [OF assms(1)] assms(2,3)] by metis
  with assms(1) show ?thesis
    by (auto simp: balancer_ok_def select_weighted_round_robin_def Let_def cluster_weights_def
        bt_insert_ok map_of_bt_insert)
qed

text \<open>
  The state of a steady phase: the cluster, the candidates and the fallback flag do not
  change, and the balancer is threaded through.
\<close>

type_synonym steady = "cluster_name \<times> endpoint_selection_candidate list \<times> bool \<times> upstream_balancer"

definition steady_step :: "steady \<Rightarrow> endpoint_id \<times> steady" where
  "steady_step s =
     (case s of (n, cs, fb, b) \<Rightarrow>
        (case select_weighted_round_robin n cs fb b of (c, b') \<Rightarrow> (sc_endpoint_id c, (n, cs, fb, b'))))"

definition steady_valid :: "steady \<Rightarrow> bool" where
  "steady_valid s = (case s of (n, cs, fb, b) \<Rightarrow>
     cs \<noteq> [] \<and> distinct (map sc_endpoint_id cs) \<and> balancer_ok b)"

definition steady_credit :: "steady \<Rightarrow> endpoint_id \<Rightarrow> int" where
  "steady_credit s i = (case s of (n, cs, fb, b) \<Rightarrow> credit_of (cluster_weights (n, fb) b) i)"

definition steady_keys :: "steady \<Rightarrow> endpoint_id set" where
  "steady_keys s = (case s of (n, cs, fb, b) \<Rightarrow> sc_endpoint_id ` set cs)"

definition steady_weight :: "steady \<Rightarrow> endpoint_id \<Rightarrow> int" where
  "steady_weight s = (case s of (n, cs, fb, b) \<Rightarrow> weight_of cs)"

lemmas steady_defs = steady_valid_def steady_credit_def steady_keys_def steady_weight_def

lemma steady_step_law:
  assumes "steady_valid s"
  shows "steady_valid (snd (steady_step s)) \<and> steady_keys (snd (steady_step s)) = steady_keys s \<and>
    steady_weight (snd (steady_step s)) = steady_weight s \<and> fst (steady_step s) \<in> steady_keys s \<and>
    (\<forall>k\<in>steady_keys s. steady_credit s k + steady_weight s k
       \<le> steady_credit s (fst (steady_step s)) + steady_weight s (fst (steady_step s)) \<and>
     steady_credit (snd (steady_step s)) k = steady_credit s k + steady_weight s k
       - (if k = fst (steady_step s) then sum (steady_weight s) (steady_keys s) else 0))"
proof -
  obtain n cs fb b where s: "s = (n, cs, fb, b)" by (cases s) auto
  with assms have v: "cs \<noteq> []" "distinct (map sc_endpoint_id cs)" "balancer_ok b"
    by (simp_all add: steady_valid_def)
  obtain c st where st: "weighted_state_step cs (cluster_weights (n, fb) b) = (c, st)" "c \<in> set cs"
    "\<And>i. i \<in> sc_endpoint_id ` set cs \<Longrightarrow> credit_of (cluster_weights (n, fb) b) i + weight_of cs i
       \<le> credit_of (cluster_weights (n, fb) b) (sc_endpoint_id c) + weight_of cs (sc_endpoint_id c)"
    "\<And>i. i \<in> sc_endpoint_id ` set cs \<Longrightarrow> credit_of st i = credit_of (cluster_weights (n, fb) b) i
       + weight_of cs i - (if i = sc_endpoint_id c then sum_list (map candidate_weight cs) else 0)"
    using weighted_state_step_spec [OF cluster_weights_ok [OF v(3)] v(2,1)] by metis
  let ?b = "snd (select_weighted_round_robin n cs fb b)"
  have step: "steady_step (n, cs, fb, b) = (sc_endpoint_id c, (n, cs, fb, ?b))"
    using select_weighted_eq(1) [OF v(3) st(1)] by (simp add: steady_step_def case_prod_beta)
  have tot: "sum (weight_of cs) (sc_endpoint_id ` set cs) = sum_list (map candidate_weight cs)"
    using v(2) by (rule sum_weight_of)
  show ?thesis
    unfolding s
    using v st(2-4) select_weighted_ok [OF v(3,2,1)] select_weighted_eq(2) [OF v(3) st(1)]
    by (simp add: step steady_defs tot)
qed

interpretation wrr: smooth_round_robin steady_step steady_valid steady_keys steady_weight steady_credit
proof
  fix s k
  assume v: "steady_valid s"
  show "finite (steady_keys s)" by (simp add: steady_keys_def split: prod.split)
  show "1 \<le> steady_weight s k" if "k \<in> steady_keys s"
    using that v by (auto simp: steady_defs weight_of_mem candidate_weight_pos split: prod.splits)
  show "steady_valid (snd (steady_step s))" "steady_keys (snd (steady_step s)) = steady_keys s"
    "steady_weight (snd (steady_step s)) = steady_weight s" "fst (steady_step s) \<in> steady_keys s"
    using steady_step_law [OF v] by blast+
  show "steady_credit s k + steady_weight s k
      \<le> steady_credit s (fst (steady_step s)) + steady_weight s (fst (steady_step s))"
    "steady_credit (snd (steady_step s)) k = steady_credit s k + steady_weight s k
       - (if k = fst (steady_step s) then sum (steady_weight s) (steady_keys s) else 0)"
    if "k \<in> steady_keys s"
    using steady_step_law [OF v] that by blast+
qed

lemma steady_run:
  "fst (run_picks steady_step k (n, cs, fb, b)) =
     map sc_endpoint_id (fst (run_picks (select_weighted_round_robin n cs fb) k b))"
  by (induction k arbitrary: b) (simp_all add: steady_step_def case_prod_beta)

text \<open>
  C2. Weighted round robin is exact: with a steady set of candidates and no credits yet, in
  every round of as many selections as the weights sum up to, each candidate is selected
  exactly as often as its effective weight says (at least once), and at no point in the
  round is any candidate a full turn ahead of its proportional share.
\<close>

theorem weighted_round_robin_exact:
  assumes "balancer_ok b" and "map_of (ub_weighted_states b) (n, fb) = None"
    and "distinct (map sc_endpoint_id cs)" and "c \<in> set cs"
  shows "int (count_list (map sc_endpoint_id (fst (run_picks (select_weighted_round_robin n cs fb)
        (nat (sum_list (map candidate_weight cs))) b))) (sc_endpoint_id c)) = candidate_weight c \<and>
    int (count_list (map sc_endpoint_id (fst (run_picks (select_weighted_round_robin n cs fb) k b)))
        (sc_endpoint_id c)) * sum_list (map candidate_weight cs)
      < int k * candidate_weight c + sum_list (map candidate_weight cs)"
proof -
  let ?s = "(n, cs, fb, b)" and ?T = "sum_list (map candidate_weight cs)"
  have v: "steady_valid ?s" using assms by (auto simp: steady_valid_def)
  have z: "steady_credit ?s i = 0" for i
    using assms(2) by (simp add: steady_credit_def credit_of_def cluster_weights_def bt_get_or_def
        weighted_state_default_def)
  have m: "sc_endpoint_id c \<in> steady_keys ?s" using assms(4) by (simp add: steady_keys_def)
  have t: "sum (steady_weight ?s) (steady_keys ?s) = ?T"
    using sum_weight_of [OF assms(3)] by (simp add: steady_defs)
  have w: "steady_weight ?s (sc_endpoint_id c) = candidate_weight c"
    using assms(3,4) by (simp add: steady_weight_def weight_of_mem)
  have "0 \<le> ?T"
    using candidate_weight_pos by (intro sum_list_nonneg) (auto intro: order_trans [of 0 1])
  then have "int (nat ?T) = sum (steady_weight ?s) (steady_keys ?s)" by (simp add: t)
  from wrr.run_round [OF v z m this] wrr.run_share [OF v z m, of k] show ?thesis
    by (simp add: steady_run t w)
qed

lemma balancer_new_ok: "balancer_ok balancer_new"
  by (simp add: balancer_ok_def balancer_new_def)

definition sample_candidate :: "string \<Rightarrow> nat \<Rightarrow> endpoint_health_status \<Rightarrow> endpoint_selection_candidate" where
  "sample_candidate i w s =
     \<lparr>sc_cluster_name = ''c'', sc_endpoint_id = i, sc_address = \<lparr>sa_ip = V4 0x0a000001, sa_port = 80\<rparr>,
      sc_metadata = \<lparr>em_zone = None, em_locality = None, em_weight = w\<rparr>,
      sc_health = \<lparr>hs_status = s, hs_active_failures = 0, hs_passive_failures = 0, hs_recovery_successes = 0,
        hs_effective_weight = w, hs_remaining_ejection = None, hs_remaining_warmup = None,
        hs_passive_failures_by_protocol = []\<rparr>\<rparr>"

definition sample_pair :: "endpoint_selection_candidate list" where
  "sample_pair = [sample_candidate ''a'' 1 Healthy, sample_candidate ''b'' 3 Healthy]"

lemma sample_pair_simps:
  "map sc_endpoint_id sample_pair = [''a'', ''b'']"
  "sample_candidate ''b'' 3 Healthy \<in> set sample_pair"
  "sum_list (map candidate_weight sample_pair) = 4"
  "candidate_weight (sample_candidate ''b'' 3 Healthy) = 3"
  "sc_endpoint_id (sample_candidate ''b'' 3 Healthy) = ''b''"
  by (simp_all add: sample_pair_def sample_candidate_def candidate_weight_def)

theorem weighted_round_robin_exact_witness:
  "map_of (ub_weighted_states balancer_new) (''c'', False) = None \<and>
   count_list (map sc_endpoint_id (fst (run_picks
     (select_weighted_round_robin ''c'' sample_pair False) 4 balancer_new))) ''b'' = 3"
  using weighted_round_robin_exact
    [of balancer_new "''c''" False sample_pair "sample_candidate ''b'' 3 Healthy" 0]
  by (simp add: balancer_new_ok sample_pair_simps) (simp add: balancer_new_def)

section \<open>Round robin\<close>

lemma select_round_robin_run:
  assumes "bt_ok (ub_round_robin_cursors b)" and "cs \<noteq> []"
  shows "fst (run_picks (select_round_robin n cs fb) k b) =
    map (\<lambda>i. cs ! ((bt_get_or (n, fb) 0 (ub_round_robin_cursors b) + i) mod length cs)) [0..<k]"
  using assms
proof (induction k arbitrary: b)
  case (Suc k)
  let ?b = "snd (select_round_robin n cs fb b)" and ?c = "bt_get_or (n, fb) 0 (ub_round_robin_cursors b)"
  have b: "bt_ok (ub_round_robin_cursors ?b)"
    "bt_get_or (n, fb) 0 (ub_round_robin_cursors ?b) = (?c + 1) mod length cs"
    using Suc.prems by (simp_all add: select_round_robin_def Let_def bt_insert_ok bt_get_or_def map_of_bt_insert)
  have "fst (run_picks (select_round_robin n cs fb) (Suc k) b) =
      cs ! (?c mod length cs) # map (\<lambda>i. cs ! ((?c + 1 + i) mod length cs)) [0..<k]"
    using Suc.IH [OF b(1) Suc.prems(2)] b(2)
    by (simp add: run_picks_Suc mod_add_left_eq del: run_picks.simps(2))
      (simp add: select_round_robin_def Let_def)
  also have "\<dots> = map (\<lambda>i. cs ! ((?c + i) mod length cs)) [0..<Suc k]"
    by (simp add: upt_conv_Cons map_Suc_upt [symmetric] del: upt_Suc)
  finally show ?case .
qed simp

text \<open>
  Round robin visits every candidate once per cycle: from any cursor left behind by
  earlier selections, also one of a longer candidate list, as many selections as there are
  candidates return a rotation of the candidate list.
\<close>

lemma round_robin_cycle:
  assumes "balancer_ok b" and "cs \<noteq> []"
  shows "fst (run_picks (select_round_robin n cs fb) (length cs) b) =
    rotate (bt_get_or (n, fb) 0 (ub_round_robin_cursors b)) cs"
proof -
  have "bt_ok (ub_round_robin_cursors b)" using assms(1) by (simp add: balancer_ok_def)
  note run = select_round_robin_run [OF this assms(2), of n fb "length cs"]
  show ?thesis
    unfolding run by (rule nth_equalityI) (simp_all add: nth_rotate)
qed

section \<open>Power of two choices\<close>

lemma cmp_flip: "cmp x y = CmpLess \<longleftrightarrow> cmp y x = CmpGreater"
  by (auto simp: cmp_def)

lemma compare_candidates_flip:
  "compare_candidates l r = CmpLess \<longleftrightarrow> compare_candidates r l = CmpGreater"
  by (auto simp: compare_candidates_def then_with_def cmp_def)

lemma compare_candidates_Equal:
  "compare_candidates l r = CmpEqual \<Longrightarrow> sc_endpoint_id l = sc_endpoint_id r"
  by (auto simp: compare_candidates_def then_with_def cmp_def split: if_splits)

lemma compare_candidates_rank:
  "compare_candidates l r = CmpGreater \<Longrightarrow>
     health_rank (hs_status (sc_health r)) \<le> health_rank (hs_status (sc_health l))"
  by (auto simp: compare_candidates_def then_with_def cmp_def candidate_score_def less_prod_def'
      split: if_splits)

text \<open>
  Power of two choices compares two different candidates: with at least two candidates it
  returns a candidate that beats another one in the order of health rank, effective weight,
  configured weight and identifier. It never returns the worst candidate.
\<close>

lemma power_of_two_beats_another:
  assumes "distinct (map sc_endpoint_id cs)" and "2 \<le> length cs"
  shows "select_power_of_two cs h \<in> set cs \<and>
    (\<exists>d\<in>set cs. compare_candidates (select_power_of_two cs h) d = CmpGreater)"
proof -
  let ?n = "length cs"
  let ?i = "unat (mix64 (word_of_nat h)) mod ?n"
  let ?j0 = "unat (mix64 (word_of_nat h XOR 0x9e3779b97f4a7c15)) mod ?n"
  let ?j = "if ?j0 = ?i then (?j0 + 1) mod ?n else ?j0"
  have sel: "select_power_of_two cs h =
      (if compare_candidates (cs ! ?i) (cs ! ?j) \<noteq> CmpLess then cs ! ?i else cs ! ?j)"
    using assms(2) by (simp add: select_power_of_two_def Let_def)
  have n: "0 < ?n" using assms(2) by linarith
  have ij: "?i < ?n" "?j < ?n" using mod_less_divisor [OF n] by (simp_all only: if_split) auto
  have "(k + 1) mod ?n \<noteq> k" if "k < ?n" for k
    using assms(2) that by (cases "k + 1 = ?n") simp_all
  with ij(1) have "?i \<noteq> ?j" by metis
  with assms(1) ij have "sc_endpoint_id (cs ! ?i) \<noteq> sc_endpoint_id (cs ! ?j)"
    using nth_eq_iff_index_eq [of "map sc_endpoint_id cs" ?i ?j] by simp
  then have "compare_candidates (cs ! ?i) (cs ! ?j) \<noteq> CmpEqual"
    using compare_candidates_Equal by blast
  then show ?thesis
    using ij compare_candidates_flip [of "cs ! ?i" "cs ! ?j"] nth_mem [OF ij(1)] nth_mem [OF ij(2)]
    unfolding sel by (cases "compare_candidates (cs ! ?i) (cs ! ?j)") auto
qed

section \<open>Affinity\<close>

definition affinity_best ::
  "(endpoint_selection_candidate \<Rightarrow> int) \<Rightarrow> endpoint_selection_candidate list \<Rightarrow>
     endpoint_selection_candidate \<Rightarrow> bool" where
  "affinity_best score cs c \<longleftrightarrow> c \<in> set cs \<and>
     (\<forall>d\<in>set cs. score d < score c \<or> score d = score c \<and> sc_endpoint_id c \<le> sc_endpoint_id d)"

lemma affinity_best_unique:
  assumes "distinct (map sc_endpoint_id cs)" and "affinity_best score cs c" and "affinity_best score cs d"
  shows "c = d"
proof -
  have "sc_endpoint_id c = sc_endpoint_id d"
    using assms(2,3) by (force simp: affinity_best_def)
  with assms show ?thesis by (auto simp: affinity_best_def distinct_map dest: inj_onD)
qed

lemma affinity_loop_best:
  assumes "sorted_wrt (<) (map sc_endpoint_id cs)" and "\<forall>c\<in>set cs. NEG_INFINITY_KEY \<le> score c"
    and "rest = drop idx cs" and "0 < idx" and "idx \<le> length cs"
    and "bi < idx" and "bs = score (cs ! bi)"
    and "\<forall>j<idx. score (cs ! j) < bs \<or> score (cs ! j) = bs \<and> bi \<le> j"
  shows "affinity_loop score cs idx rest bi bs < length cs \<and>
    (\<forall>j<length cs. score (cs ! j) < score (cs ! affinity_loop score cs idx rest bi bs) \<or>
       score (cs ! j) = score (cs ! affinity_loop score cs idx rest bi bs) \<and>
       affinity_loop score cs idx rest bi bs \<le> j)"
  using assms
proof (induction rest arbitrary: idx bi bs)
  case Nil
  then show ?case by simp
next
  case (Cons c rest)
  then have idx: "idx < length cs" by (metis drop_eq_Nil2 list.distinct(1) not_le)
  with Cons.prems(3) have c: "c = cs ! idx" "rest = drop (Suc idx) cs"
    by (simp_all add: Cons_nth_drop_Suc [symmetric])
  have tie: "\<not> sc_endpoint_id c < sc_endpoint_id (cs ! bi)"
    using sorted_wrt_nth_less [OF Cons.prems(1), of bi idx] Cons.prems(6) idx c(1) by simp
  show ?case
  proof (cases "bs < score c")
    case True
    have "\<forall>j<Suc idx. score (cs ! j) < score c \<or> score (cs ! j) = score c \<and> idx \<le> j"
      using Cons.prems(8) True c(1) by (force simp: less_Suc_eq)
    with Cons.IH [OF Cons.prems(1,2) c(2), of idx "score c"] True idx c(1) show ?thesis by simp
  next
    case False
    have "\<forall>j<Suc idx. score (cs ! j) < bs \<or> score (cs ! j) = bs \<and> bi \<le> j"
      using Cons.prems(6,8) False c(1) by (auto simp: less_Suc_eq)
    with Cons.IH [OF Cons.prems(1,2) c(2), of bi bs] False tie idx Cons.prems(6,7) show ?thesis by simp
  qed
qed

lemma select_affinity_best:
  assumes "sorted_wrt (<) (map sc_endpoint_id cs)" and "cs \<noteq> []"
    and "\<forall>c\<in>set cs. NEG_INFINITY_KEY \<le> score key c"
  shows "affinity_best (score key) cs (select_affinity_candidate score cs key)"
proof -
  obtain c rest where cs: "cs = c # rest" using assms(2) by (cases cs) auto
  define k where "k = affinity_loop (score key) cs 1 rest 0 (score key c)"
  have "affinity_loop (score key) cs 0 cs 0 NEG_INFINITY_KEY = k"
    using assms(3) by (cases "NEG_INFINITY_KEY < score key c") (auto simp: cs k_def)
  then have sel: "select_affinity_candidate score cs key = cs ! k"
    by (simp add: select_affinity_candidate_def)
  have k: "k < length cs" "\<forall>j<length cs. score key (cs ! j) < score key (cs ! k) \<or>
      score key (cs ! j) = score key (cs ! k) \<and> k \<le> j"
    using affinity_loop_best [OF assms(1,3), of rest 1 0 "score key c"] by (auto simp: cs k_def)
  have mono: "sc_endpoint_id (cs ! k) \<le> sc_endpoint_id (cs ! j)" if "k \<le> j" "j < length cs" for j
    using sorted_wrt_nth_less [OF assms(1), of k j] that by (cases "k = j") auto
  show ?thesis
    unfolding sel affinity_best_def
  proof (intro conjI ballI)
    show "cs ! k \<in> set cs" using k(1) by simp
    fix d assume "d \<in> set cs"
    then obtain j where "j < length cs" "d = cs ! j" by (auto simp: in_set_conv_nth)
    with k(2) mono show "score key d < score key (cs ! k) \<or>
        score key d = score key (cs ! k) \<and> sc_endpoint_id (cs ! k) \<le> sc_endpoint_id d" by blast
  qed
qed

text \<open>
  Affinity hashing disturbs as little as possible: when other candidates leave and the
  preferred endpoint of a key stays, it is still the preferred endpoint of that key. The
  score of every candidate is at least negative infinity, as every number is.
\<close>

lemma affinity_minimal_disruption:
  assumes "sorted_wrt (<) (map sc_endpoint_id cs)" and "sorted_wrt (<) (map sc_endpoint_id ds)"
    and "set ds \<subseteq> set cs" and "\<forall>c\<in>set cs. NEG_INFINITY_KEY \<le> score key c"
    and "select_affinity_candidate score cs key \<in> set ds"
  shows "select_affinity_candidate score ds key = select_affinity_candidate score cs key"
proof -
  have ne: "cs \<noteq> []" "ds \<noteq> []" using assms(3,5) by auto
  have "affinity_best (score key) ds (select_affinity_candidate score cs key)"
    using select_affinity_best [of cs score key, OF assms(1) ne(1) assms(4)] assms(3,5) by (auto simp: affinity_best_def)
  moreover have "affinity_best (score key) ds (select_affinity_candidate score ds key)"
    using assms(2-4) ne(2) by (intro select_affinity_best) auto
  moreover have "distinct (map sc_endpoint_id ds)"
    using assms(2) by (simp add: strict_sorted_iff)
  ultimately show ?thesis using affinity_best_unique by blast
qed

definition sample_score :: affinity_score where
  "sample_score key c = int (hs_effective_weight (sc_health c))"

section \<open>Selection\<close>

lemma bump_ok [simp]: "balancer_ok (bump upd b) = balancer_ok b"
  by (simp add: bump_def balancer_ok_def)

lemma prefer_by_field_cases:
  "prefer_by_field cs P = (cs, False) \<or> prefer_by_field cs P = (filter P cs, True) \<and> filter P cs \<noteq> []"
  by (simp add: prefer_by_field_def Let_def)

lemma apply_locality_shape:
  "\<exists>P. fst (apply_locality_preference cs policy cx) = filter P cs \<and> (cs \<noteq> [] \<longrightarrow> filter P cs \<noteq> [])"
proof -
  have id: "cs = filter (\<lambda>_. True) cs" by simp
  have pf: "\<exists>P. fst (prefer_by_field cs Q) = filter P cs \<and> (cs \<noteq> [] \<longrightarrow> filter P cs \<noteq> [])" for Q
    using prefer_by_field_cases [of cs Q] id by (metis fst_conv)
  have self: "\<exists>P. cs = filter P cs \<and> (cs \<noteq> [] \<longrightarrow> filter P cs \<noteq> [])"
    using id by metis
  show ?thesis
    using pf self
    by (auto simp: apply_locality_preference_def Let_def split: locality_routing_policy.split option.split prod.split)
      (metis fst_conv)+
qed

lemma sorted_filter_ids:
  "sorted_wrt (<) (map sc_endpoint_id cs) \<Longrightarrow> sorted_wrt (<) (map sc_endpoint_id (filter P cs))"
  by (induction cs) auto

lemma sorted_distinct_ids: "sorted_wrt (<) (map sc_endpoint_id cs) \<Longrightarrow> distinct (map sc_endpoint_id cs)"
  by (simp add: strict_sorted_iff)

lemma gather_candidates_Ok:
  assumes "gather_candidates reg n policy b = (Ok (cs, fb), b1)"
  shows "cs \<noteq> [] \<and> (balancer_ok b \<longrightarrow> balancer_ok b1) \<and> selection_candidates reg n fb = Ok cs \<and>
    (fb \<longrightarrow> usp_no_healthy_fallback policy = IncludeUnhealthy \<and> selection_candidates reg n False = Ok [])"
  using assms by (auto simp: gather_candidates_def Let_def split: sum.splits if_splits)

lemma select_by_algorithm_sound:
  assumes "balancer_ok b" and "distinct (map sc_endpoint_id cs)" and "cs \<noteq> []"
  shows "fst (select_by_algorithm n policy cx cs fb b) \<in> set cs \<and>
    balancer_ok (snd (select_by_algorithm n policy cx cs fb b))"
proof (cases "usp_algorithm policy")
  case RoundRobin
  with assms show ?thesis
    by (auto simp: select_by_algorithm_def select_round_robin_def Let_def balancer_ok_def bump_def bt_insert_ok)
next
  case WeightedRoundRobin
  let ?b = "bump mc_weighted_round_robin_update b"
  have b: "balancer_ok ?b" using assms(1) by simp
  obtain c st where "weighted_state_step cs (cluster_weights (n, fb) ?b) = (c, st)" "c \<in> set cs"
    using weighted_state_step_spec [OF cluster_weights_ok [OF b] assms(2,3)] by metis
  with WeightedRoundRobin select_weighted_eq(1) [OF b this(1)] select_weighted_ok [OF b assms(2,3)]
  show ?thesis by (simp add: select_by_algorithm_def)
next
  case PowerOfTwoChoices
  have n: "0 < length cs" using assms(3) by simp
  have "select_power_of_two cs h \<in> set cs" for h
    using mod_less_divisor [OF n] n by (auto simp: select_power_of_two_def Let_def intro!: nth_mem)
  with PowerOfTwoChoices assms(1) show ?thesis by (simp add: select_by_algorithm_def)
qed

lemma try_affinity_cases:
  assumes "balancer_ok b" and "try_select_affinity_candidate score reg n policy cx eligible b = (res, b1)"
  shows "balancer_ok b1 \<and> (\<forall>c. res = Ok (Some c) \<longrightarrow> c \<in> set eligible) \<and>
    (\<forall>e. res = Err e \<longrightarrow> (\<exists>h. e = SelectionHealth h \<and> selection_candidates reg n True = Err h))"
  using assms
  by (auto simp: try_select_affinity_candidate_def Let_def find_Some_iff
      split: option.splits sum.splits if_splits affinity_policy.splits affinity_fallback_policy.splits)

lemma selection_candidates_total:
  "uh_wf r \<Longrightarrow> selection_candidates r n unh = Err e \<longleftrightarrow>
     map_of (er_clusters (uh_registry r)) n = None \<and> e = HealthRegistry (ClusterNotFound n)"
  using selection_candidates_eq [of r n _ unh]
  by (cases "map_of (er_clusters (uh_registry r)) n")
    (auto simp: selection_candidates_def reg_cluster_def)

lemma select_endpoint_preferred:
  assumes "gather_candidates r n policy b = (Ok (cs0, fb), b1)"
    and "apply_locality_preference cs0 policy cx = (cs, matched)"
    and "try_select_affinity_candidate score r n policy cx cs
      (if matched then bump mc_locality_preference_hit_update b1 else b1) = (Ok pref, b3)"
    and "(case pref of Some c \<Rightarrow> (c, b3) | None \<Rightarrow> select_by_algorithm n policy cx cs fb b3) = (c, b4)"
  shows "select_endpoint score r n policy cx b =
    (Ok (selected_of c matched), if fb then bump mc_unhealthy_fallback_update b4 else b4)"
  using assms by (cases pref) (simp_all add: select_endpoint_def Let_def)

lemma selected_candidate:
  assumes wf: "uh_wf r" and ok: "balancer_ok b"
    and sel: "select_endpoint score r n policy cx b = (res, b')"
  shows "balancer_ok b' \<and>
    (\<forall>s. res = Ok s \<longrightarrow> (\<exists>c cs fb matched. s = selected_of c matched \<and> c \<in> set cs \<and>
       selection_candidates r n fb = Ok cs \<and>
       (fb \<longrightarrow> usp_no_healthy_fallback policy = IncludeUnhealthy \<and> selection_candidates r n False = Ok [])))"
proof (cases "gather_candidates r n policy b")
  case (Pair g b1)
  show ?thesis
  proof (cases g)
    case (Inl e)
    with Pair sel ok show ?thesis
      by (auto simp: select_endpoint_def gather_candidates_def Let_def split: sum.splits if_splits)
  next
    case (Inr p)
    obtain cs0 fb where p: "p = (cs0, fb)" by (cases p)
    have g: "cs0 \<noteq> []" "balancer_ok b1" "selection_candidates r n fb = Ok cs0"
      "fb \<longrightarrow> usp_no_healthy_fallback policy = IncludeUnhealthy \<and> selection_candidates r n False = Ok []"
      using gather_candidates_Ok [of r n policy b cs0 fb b1] Pair Inr p ok by auto
    obtain cs matched where loc: "apply_locality_preference cs0 policy cx = (cs, matched)"
      by (cases "apply_locality_preference cs0 policy cx")
    obtain P where P: "cs = filter P cs0" "cs \<noteq> []"
      using apply_locality_shape [of cs0 policy cx] loc g(1) by auto
    have d: "distinct (map sc_endpoint_id cs)"
      using selection_candidates_facts [OF wf g(3)] P(1) sorted_filter_ids sorted_distinct_ids by blast
    define b2 where "b2 = (if matched then bump mc_locality_preference_hit_update b1 else b1)"
    obtain a b3 where aff: "try_select_affinity_candidate score r n policy cx cs b2 = (a, b3)"
      by (cases "try_select_affinity_candidate score r n policy cx cs b2")
    have b2: "balancer_ok b2" using g(2) by (simp add: b2_def)
    note a = try_affinity_cases [OF b2 aff]
    show ?thesis
    proof (cases a)
      case (Inl e)
      with sel Pair \<open>g = Inr p\<close> p loc aff a show ?thesis
        by (auto simp: select_endpoint_def Let_def b2_def)
    next
      case (Inr pref)
      obtain c b4 where cb: "(case pref of Some c \<Rightarrow> (c, b3) | None \<Rightarrow> select_by_algorithm n policy cx cs fb b3) = (c, b4)"
        by (cases "case pref of Some c \<Rightarrow> (c, b3) | None \<Rightarrow> select_by_algorithm n policy cx cs fb b3")
      have "c \<in> set cs \<and> balancer_ok b4"
        using a Inr cb select_by_algorithm_sound [OF _ d P(2), of b3 n policy cx fb]
        by (auto split: option.splits)
      moreover have "select_endpoint score r n policy cx b =
          (Ok (selected_of c matched), if fb then bump mc_unhealthy_fallback_update b4 else b4)"
        using Pair \<open>g = Inr p\<close> p loc aff Inr cb by (intro select_endpoint_preferred) (auto simp: b2_def)
      ultimately show ?thesis using sel P(1) g(3,4) by auto
    qed
  qed
qed

lemma selected_endpoint_facts:
  assumes "uh_wf r" and "balancer_ok b" and "select_endpoint score r n policy cx b = (Ok s, b')"
  shows "balancer_ok b' \<and> se_cluster_name s = n \<and>
    (\<exists>ep rec. reg_endpoint (uh_registry r) (n, se_endpoint_id s) = Some ep \<and> ep_state ep = StateReady \<and>
       se_address s = ep_address ep \<and> map_of (uh_records r) (n, se_endpoint_id s) = Some rec \<and>
       se_health_status s = hr_status rec \<and> se_effective_weight s = hr_effective_weight rec \<and>
       (is_available (hr_status rec) \<or>
        hr_status rec = Unhealthy \<and> usp_no_healthy_fallback policy = IncludeUnhealthy \<and>
        selection_candidates r n False = Ok []))"
proof -
  obtain c cs fb matched where c: "s = selected_of c matched" "c \<in> set cs"
    and cs: "selection_candidates r n fb = Ok cs"
    and fb: "fb \<longrightarrow> usp_no_healthy_fallback policy = IncludeUnhealthy \<and> selection_candidates r n False = Ok []"
    and ok: "balancer_ok b'"
    using selected_candidate [OF assms] by blast
  note facts = selection_candidates_facts [OF assms(1) cs]
  have snd: "candidate_sound r n c" using facts c(2) by (auto simp: list_all_iff)
  have "sc_endpoint_id c \<in> sc_endpoint_id ` set cs" using c(2) by simp
  with facts obtain rec where "map_of (uh_records r) (n, sc_endpoint_id c) = Some rec" "admits fb (hr_status rec)"
    by auto
  with snd c(1) fb ok show ?thesis
    by (auto simp: candidate_sound_def selected_of_def record_snapshot_def admits_def)
qed

text \<open>
  C1. Traffic only goes where the health registry allows it: an endpoint that the balancer
  selects is registered in the cluster and ready, is returned with its own address, status
  and effective weight, and is available. The only exception is an unhealthy, never an
  ejected, endpoint, and only when the policy allows the fallback and no endpoint of the
  cluster is available. Selection keeps the balancer well formed.
\<close>

theorem selected_endpoint_admissible:
  assumes "uh_wf r" and "balancer_ok b" and "select_endpoint score r n policy cx b = (Ok s, b')"
  shows "balancer_ok b' \<and> se_cluster_name s = n \<and>
    (\<exists>ep rec. reg_endpoint (uh_registry r) (n, se_endpoint_id s) = Some ep \<and> ep_state ep = StateReady \<and>
       se_address s = ep_address ep \<and> map_of (uh_records r) (n, se_endpoint_id s) = Some rec \<and>
       se_health_status s = hr_status rec \<and> se_effective_weight s = hr_effective_weight rec \<and>
       (is_available (hr_status rec) \<or>
        hr_status rec = Unhealthy \<and> usp_no_healthy_fallback policy = IncludeUnhealthy \<and>
        selection_candidates r n False = Ok []))"
  using assms by (rule selected_endpoint_facts)

definition sample_pick :: "(selected_endpoint, upstream_selection_error) result \<times> upstream_balancer" where
  "sample_pick = select_endpoint sample_score sample_registry ''c'' selection_policy_default
     \<lparr>sx_preferred_locality = None, sx_preferred_zone = None, sx_affinity_key = None, sx_request_hash = 0\<rparr>
     balancer_new"

lemma sample_pick_Ok: "\<exists>s b. sample_pick = (Ok s, b) \<and> se_endpoint_id s = ''a''"
proof -
  have "(case fst sample_pick of Inr s \<Rightarrow> se_endpoint_id s = ''a'' | Inl _ \<Rightarrow> False)"
    by code_simp
  then show ?thesis by (cases "fst sample_pick") (auto intro: prod.collapse [symmetric, THEN trans])
qed

theorem selected_endpoint_admissible_witness:
  "\<exists>s b. sample_pick = (Ok s, b) \<and> se_endpoint_id s = ''a'' \<and>
     (\<exists>ep. reg_endpoint (uh_registry sample_registry) (''c'', ''a'') = Some ep \<and> ep_state ep = StateReady \<and>
       se_address s = ep_address ep)"
proof -
  obtain s b where s: "sample_pick = (Ok s, b)" "se_endpoint_id s = ''a''"
    using sample_pick_Ok by blast
  from selected_endpoint_admissible [OF sample_registry_wf balancer_new_ok s(1) [unfolded sample_pick_def]] s
  show ?thesis by auto
qed

definition has_candidate :: "upstream_health_registry \<Rightarrow> cluster_name \<Rightarrow> bool \<Rightarrow> bool" where
  "has_candidate r n unh \<longleftrightarrow>
     (\<exists>i ep rec. reg_endpoint (uh_registry r) (n, i) = Some ep \<and> ep_state ep = StateReady \<and>
        map_of (uh_records r) (n, i) = Some rec \<and> admits unh (hr_status rec))"

lemma selection_candidates_nonempty:
  assumes "uh_wf r" and "map_of (er_clusters (uh_registry r)) n = Some c"
  obtains cs where "selection_candidates r n unh = Ok cs" "cs \<noteq> [] \<longleftrightarrow> has_candidate r n unh"
proof -
  obtain cs where cs: "selection_candidates r n unh = Ok cs"
    using selection_candidates_eq [OF assms, of unh] by blast
  have "cs \<noteq> [] \<longleftrightarrow> sc_endpoint_id ` set cs \<noteq> {}" by simp
  also have "\<dots> \<longleftrightarrow> has_candidate r n unh"
    using selection_candidates_facts [OF assms(1) cs] by (auto simp: has_candidate_def)
  finally show ?thesis using cs that by blast
qed

lemma has_candidate_mono: "has_candidate r n False \<Longrightarrow> has_candidate r n True"
  by (auto simp: has_candidate_def admits_def)

lemma select_endpoint_result:
  assumes "selection_candidates r n True = Ok all"
  shows "(case fst (gather_candidates r n policy b) of
      Inl e \<Rightarrow> fst (select_endpoint score r n policy cx b) = Err e
    | Inr _ \<Rightarrow> is_ok (fst (select_endpoint score r n policy cx b)))"
proof -
  have "is_ok (fst (try_select_affinity_candidate score r n policy cx cs b2))" for cs b2
    using assms
    by (auto simp: try_select_affinity_candidate_def Let_def
        split: option.split affinity_policy.split affinity_fallback_policy.split)
  then have aff: "\<exists>pref b3. try_select_affinity_candidate score r n policy cx cs b2 = (Ok pref, b3)" for cs b2
    by (metis is_ok_simps(2) prod.collapse sum.exhaust)
  show ?thesis
  proof (cases "gather_candidates r n policy b")
    case (Pair g b1)
    show ?thesis
    proof (cases g)
      case (Inl e)
      with Pair show ?thesis by (simp add: select_endpoint_def)
    next
      case (Inr p)
      obtain cs0 fb where p: "p = (cs0, fb)" by (cases p)
      obtain cs matched where loc: "apply_locality_preference cs0 policy cx = (cs, matched)"
        by (cases "apply_locality_preference cs0 policy cx")
      obtain pref b3 where "try_select_affinity_candidate score r n policy cx cs
          (if matched then bump mc_locality_preference_hit_update b1 else b1) = (Ok pref, b3)"
        using aff by blast
      with Pair Inr p loc show ?thesis
        by (simp add: select_endpoint_preferred [OF _ loc _ surjective_pairing])
    qed
  qed
qed

lemma select_endpoint_outcome:
  assumes "uh_wf r" and "map_of (er_clusters (uh_registry r)) n = Some c"
  shows "if has_candidate r n (usp_no_healthy_fallback policy = IncludeUnhealthy)
    then \<exists>s. fst (select_endpoint score r n policy cx b) = Ok s
    else fst (select_endpoint score r n policy cx b) = Err (NoEligibleEndpoints n)"
proof -
  obtain hs where hs: "selection_candidates r n False = Ok hs" "hs \<noteq> [] \<longleftrightarrow> has_candidate r n False"
    using selection_candidates_nonempty [OF assms] .
  obtain all where all: "selection_candidates r n True = Ok all" "all \<noteq> [] \<longleftrightarrow> has_candidate r n True"
    using selection_candidates_nonempty [OF assms] .
  have "fst (gather_candidates r n policy b) =
    (if hs \<noteq> [] then Ok (hs, False)
     else if usp_no_healthy_fallback policy = IncludeUnhealthy \<and> all \<noteq> [] then Ok (all, True)
     else Err (NoEligibleEndpoints n))"
    using hs(1) all(1) by (simp add: gather_candidates_def Let_def)
  with select_endpoint_result [OF all(1), where policy = policy and b = b and score = score and cx = cx] hs(2) all(2) has_candidate_mono [of r n]
  show ?thesis
    by (cases "fst (select_endpoint score r n policy cx b)";
        cases "usp_no_healthy_fallback policy = IncludeUnhealthy") (auto split: if_splits)
qed

text \<open>
  C17. Selection fails exactly when it has to: in a registered cluster it returns an endpoint
  when some ready endpoint has a status that the policy admits, and otherwise it reports
  that no endpoint of the cluster is eligible.
\<close>

theorem selection_complete:
  assumes "uh_wf r" and "map_of (er_clusters (uh_registry r)) n = Some c"
  shows "if has_candidate r n (usp_no_healthy_fallback policy = IncludeUnhealthy)
    then \<exists>s. fst (select_endpoint score r n policy cx b) = Ok s
    else fst (select_endpoint score r n policy cx b) = Err (NoEligibleEndpoints n)"
  using assms by (rule select_endpoint_outcome)

theorem selection_complete_witness:
  "has_candidate sample_registry ''c'' False \<and> (\<exists>s. fst sample_pick = Ok s)"
proof -
  obtain c where c: "map_of (er_clusters (uh_registry sample_registry)) ''c'' = Some c"
    using selection_candidates_Ok [OF sample_registry_wf sample_candidates_eq(1)] by metis
  have "has_candidate sample_registry ''c'' False"
  proof -
    obtain cs where "selection_candidates sample_registry ''c'' False = Ok cs"
      "cs \<noteq> [] \<longleftrightarrow> has_candidate sample_registry ''c'' False"
      using selection_candidates_nonempty [OF sample_registry_wf c] .
    then show ?thesis using sample_candidates_eq by auto
  qed
  with selection_complete [OF sample_registry_wf c, of selection_policy_default sample_score
      "\<lparr>sx_preferred_locality = None, sx_preferred_zone = None, sx_affinity_key = None, sx_request_hash = 0\<rparr>"
      balancer_new]
  show ?thesis by (simp add: sample_pick_def selection_policy_default_def)
qed

section \<open>Sticky sessions\<close>

lemma affinity_loop_less:
  "idx + length rest \<le> length cs \<Longrightarrow> bi < length cs \<Longrightarrow>
     affinity_loop score cs idx rest bi bs < length cs"
  by (induction rest arbitrary: idx bi bs) auto

lemma select_affinity_mem: "cs \<noteq> [] \<Longrightarrow> select_affinity_candidate score cs key \<in> set cs"
  by (simp add: select_affinity_candidate_def affinity_loop_less)

lemma prefer_by_field_filter:
  "c \<in> set (fst (prefer_by_field cs Q)) \<Longrightarrow> P c \<Longrightarrow>
     c \<in> set (fst (prefer_by_field (filter P cs) Q)) \<and>
     snd (prefer_by_field (filter P cs) Q) = snd (prefer_by_field cs Q)"
  by (auto simp: prefer_by_field_def Let_def filter_empty_conv split: if_splits)

lemma prefer_by_field_unmatched:
  "\<not> snd (prefer_by_field cs Q) \<Longrightarrow> prefer_by_field (filter P cs) Q = (filter P cs, False)"
  by (auto simp: prefer_by_field_def Let_def filter_empty_conv split: if_splits)

lemma apply_locality_filter:
  "c \<in> set (fst (apply_locality_preference cs policy cx)) \<Longrightarrow> P c \<Longrightarrow>
     c \<in> set (fst (apply_locality_preference (filter P cs) policy cx))"
  using prefer_by_field_filter [of c cs _ P] prefer_by_field_unmatched [of cs _ P]
  by (auto simp: apply_locality_preference_def Let_def case_prod_beta
      split: locality_routing_policy.splits option.splits if_splits)

lemma candidate_list_available:
  "candidate_list policy n records False eps =
     filter (\<lambda>c. is_available (hs_status (sc_health c))) (candidate_list policy n records True eps)"
  by (induction eps) (auto simp: candidate_list_def candidate_of_def record_snapshot_def admits_def)

lemma selection_candidates_available:
  assumes "uh_wf r" and "selection_candidates r n True = Ok all"
  shows "selection_candidates r n False = Ok (filter (\<lambda>c. is_available (hs_status (sc_health c))) all)"
proof -
  obtain c where c: "map_of (er_clusters (uh_registry r)) n = Some c" "cluster_wf c"
    "all = sort_key sc_endpoint_id (candidate_list (uh_policy r) n (uh_records r) True (cl_endpoints c))"
    using selection_candidates_Ok [OF assms] .
  show ?thesis
    unfolding c(3) filter_sort candidate_list_available [symmetric]
    by (rule selection_candidates_eq [OF assms(1) c(1)])
qed

lemma affinity_preferred_selected:
  assumes "uh_wf r" and "usp_affinity policy = Some a" and "sx_affinity_key cx = Some key"
    and "selection_candidates r n True = Ok all"
    and "fst (apply_locality_preference all policy cx) = loc" and "loc \<noteq> []"
    and "is_available (hs_status (sc_health (select_affinity_candidate score loc key)))"
  shows "\<exists>s b'. select_endpoint score r n policy cx b = (Ok s, b') \<and>
    se_endpoint_id s = sc_endpoint_id (select_affinity_candidate score loc key)"
proof -
  let ?av = "\<lambda>c. is_available (hs_status (sc_health c))"
  let ?p = "select_affinity_candidate score loc key"
  obtain P where P: "loc = filter P all" using apply_locality_shape [of all policy cx] assms(5) by auto
  have pm: "?p \<in> set loc" using assms(6) by (rule select_affinity_mem)
  have pa: "?p \<in> set (filter ?av all)" using pm assms(7) P by auto
  then have g: "gather_candidates r n policy b = (Ok (filter ?av all, False), b)"
    using selection_candidates_available [OF assms(1,4)]
    by (auto simp: gather_candidates_def filter_empty_conv)
  obtain cs matched where l: "apply_locality_preference (filter ?av all) policy cx = (cs, matched)"
    by (cases "apply_locality_preference (filter ?av all) policy cx")
  have "?p \<in> set cs"
    using apply_locality_filter [of ?p all policy cx ?av] pm assms(5,7) l by simp
  then obtain s where s: "find (\<lambda>c. sc_endpoint_id c = sc_endpoint_id ?p) cs = Some s"
    "sc_endpoint_id s = sc_endpoint_id ?p"
    by (cases "find (\<lambda>c. sc_endpoint_id c = sc_endpoint_id ?p) cs") (auto simp: find_None_iff find_Some_iff)
  with assms(2-6) have
    "try_select_affinity_candidate score r n policy cx cs b2 = (Ok (Some s), bump mc_affinity_hit_update b2)" for b2
    by (simp add: try_select_affinity_candidate_def Let_def)
  from select_endpoint_preferred [OF g l this] s(2) show ?thesis
    by (simp add: selected_of_def)
qed

text \<open>
  What the affinity score of the code depends on: the key, the endpoint and its weight. The
  score is a number, so it is at least negative infinity.
\<close>

definition affinity_score_laws :: "affinity_score \<Rightarrow> string \<Rightarrow> bool" where
  "affinity_score_laws score key \<longleftrightarrow>
     (\<forall>c. NEG_INFINITY_KEY \<le> score key c) \<and>
     (\<forall>c d. sc_endpoint_id c = sc_endpoint_id d \<longrightarrow>
        hs_effective_weight (sc_health c) = hs_effective_weight (sc_health d) \<longrightarrow> score key c = score key d)"

text \<open>No candidate joined and none changed its weight; candidates may have left.\<close>

definition candidates_shrank :: "endpoint_selection_candidate list \<Rightarrow> endpoint_selection_candidate list \<Rightarrow> bool" where
  "candidates_shrank cs ds \<longleftrightarrow>
     list_all (\<lambda>d. list_ex (\<lambda>c. sc_endpoint_id c = sc_endpoint_id d \<and>
       hs_effective_weight (sc_health c) = hs_effective_weight (sc_health d)) cs) ds"

lemma affinity_preferred_stays:
  assumes "affinity_score_laws score key" and "candidates_shrank cs ds"
    and "sorted_wrt (<) (map sc_endpoint_id cs)" and "sorted_wrt (<) (map sc_endpoint_id ds)"
    and "sc_endpoint_id (select_affinity_candidate score cs key) \<in> sc_endpoint_id ` set ds"
  shows "sc_endpoint_id (select_affinity_candidate score ds key) =
    sc_endpoint_id (select_affinity_candidate score cs key)"
proof -
  let ?p = "select_affinity_candidate score cs key" and ?q = "select_affinity_candidate score ds key"
  note law = assms(1) [unfolded affinity_score_laws_def, THEN conjunct2]
  have same: "\<exists>c\<in>set cs. sc_endpoint_id c = sc_endpoint_id d \<and> score key c = score key d" if dm: "d \<in> set ds" for d
  proof -
    obtain c where c: "c \<in> set cs" "sc_endpoint_id c = sc_endpoint_id d"
      "hs_effective_weight (sc_health c) = hs_effective_weight (sc_health d)"
      using assms(2) dm unfolding candidates_shrank_def list_all_iff list_ex_iff by blast
    have "score key c = score key d" by (rule law [rule_format, OF c(2,3)])
    with c(1,2) show ?thesis by (intro bexI conjI)
  qed
  obtain d where d: "d \<in> set ds" "sc_endpoint_id d = sc_endpoint_id ?p" using assms(5) by (metis imageE)
  obtain c where c: "c \<in> set cs" "sc_endpoint_id c = sc_endpoint_id d" "score key c = score key d"
    using same [OF d(1)] by blast
  have ne: "ds \<noteq> []" "cs \<noteq> []" using d(1) c(1) by (metis empty_iff empty_set)+
  have inf: "\<forall>c\<in>set xs. NEG_INFINITY_KEY \<le> score key c" for xs
    using assms(1) [unfolded affinity_score_laws_def, THEN conjunct1] by (intro ballI) (rule spec)
  have p: "affinity_best (score key) cs ?p" by (rule select_affinity_best [of cs score key, OF assms(3) ne(2) inf])
  have q: "affinity_best (score key) ds ?q" by (rule select_affinity_best [of ds score key, OF assms(4) ne(1) inf])
  obtain e where e: "e \<in> set cs" "sc_endpoint_id e = sc_endpoint_id ?q" "score key e = score key ?q"
    using same [of ?q] q unfolding affinity_best_def by blast
  have "inj_on sc_endpoint_id (set cs)" using sorted_distinct_ids [OF assms(3)] by (simp add: distinct_map)
  then have "c = ?p" by (rule inj_onD) (use c d p in \<open>simp_all add: affinity_best_def\<close>)
  then have "score key d = score key ?p" using c(3) by simp
  moreover have "score key e < score key ?p \<or> score key e = score key ?p \<and> sc_endpoint_id ?p \<le> sc_endpoint_id e"
    using p e(1) unfolding affinity_best_def by blast
  moreover have "score key d < score key ?q \<or> score key d = score key ?q \<and> sc_endpoint_id ?q \<le> sc_endpoint_id d"
    using q d(1) unfolding affinity_best_def by blast
  ultimately have "sc_endpoint_id ?p \<le> sc_endpoint_id ?q" "sc_endpoint_id ?q \<le> sc_endpoint_id ?p"
    unfolding d(2) e(2,3) by linarith+
  then show ?thesis by (rule order.antisym [rotated])
qed

lemma located_sorted:
  assumes "uh_wf r" and "selection_candidates r n unh = Ok all"
  shows "sorted_wrt (<) (map sc_endpoint_id (fst (apply_locality_preference all policy cx)))"
proof -
  obtain P where P: "fst (apply_locality_preference all policy cx) = filter P all"
    using apply_locality_shape [of all policy cx] by blast
  have "sorted_wrt (<) (map sc_endpoint_id all)" using selection_candidates_facts [OF assms] by blast
  then show ?thesis unfolding P by (rule sorted_filter_ids)
qed

lemma apply_locality_preference_hash:
  "apply_locality_preference xs policy (cx\<lparr>sx_request_hash := h\<rparr>) = apply_locality_preference xs policy cx"
  by (cases "usp_locality policy") (simp_all add: apply_locality_preference_def)

text \<open>
  C35. Sessions stick over time. Two requests with the same affinity key and the same locality
  preferences arrive in two states of the cluster. If the candidates of the later request are
  candidates of the earlier one with the same weights, that is, candidates may have left but none joined
  or changed its weight, and the endpoint that the key prefers is available at both times, then
  both requests go to that endpoint, whatever the balancing algorithm and whatever selections
  were made before and in between. The score may be any function of key, endpoint and weight.
\<close>

theorem affinity_sticky:
  assumes "affinity_score_laws score key" and "usp_affinity policy = Some a"
    and "sx_affinity_key cx = Some key" and "cx' = cx\<lparr>sx_request_hash := h\<rparr>"
    and "uh_wf r" and "selection_candidates r n True = Ok all" and "cs = fst (apply_locality_preference all policy cx)"
    and "uh_wf r'" and "selection_candidates r' n True = Ok all'" and "ds = fst (apply_locality_preference all' policy cx)"
    and "candidates_shrank cs ds" and "cs \<noteq> []"
    and "is_available (hs_status (sc_health (select_affinity_candidate score cs key)))"
    and "\<exists>d\<in>set ds. sc_endpoint_id d = sc_endpoint_id (select_affinity_candidate score cs key) \<and>
      is_available (hs_status (sc_health d))"
  shows "\<exists>s b1 s' b1'. select_endpoint score r n policy cx b = (Ok s, b1) \<and>
    select_endpoint score r' n policy cx' b' = (Ok s', b1') \<and>
    se_endpoint_id s = sc_endpoint_id (select_affinity_candidate score cs key) \<and> se_endpoint_id s' = se_endpoint_id s"
proof -
  have cx': "sx_affinity_key cx' = Some key" "apply_locality_preference xs policy cx' = apply_locality_preference xs policy cx" for xs
    using assms(3,4) by (simp_all add: apply_locality_preference_hash)
  have sorted: "sorted_wrt (<) (map sc_endpoint_id cs)" "sorted_wrt (<) (map sc_endpoint_id ds)"
    using located_sorted [OF assms(5,6)] located_sorted [OF assms(8,9)] assms(7,10) by auto
  obtain d where d: "d \<in> set ds" "sc_endpoint_id d = sc_endpoint_id (select_affinity_candidate score cs key)"
    "is_available (hs_status (sc_health d))" using assms(14) by blast
  have stay: "sc_endpoint_id (select_affinity_candidate score ds key) = sc_endpoint_id (select_affinity_candidate score cs key)"
    using d by (intro affinity_preferred_stays [OF assms(1,11) sorted]) (auto intro: rev_image_eqI)
  have ne: "ds \<noteq> []" using d(1) by auto
  have "inj_on sc_endpoint_id (set ds)" using sorted_distinct_ids [OF sorted(2)] by (simp add: distinct_map)
  then have "select_affinity_candidate score ds key = d"
    by (rule inj_onD) (use d(1,2) stay select_affinity_mem [OF ne, of score key] in simp_all)
  with d(3) have av: "is_available (hs_status (sc_health (select_affinity_candidate score ds key)))" by simp
  obtain s b1 where "select_endpoint score r n policy cx b = (Ok s, b1)"
      "se_endpoint_id s = sc_endpoint_id (select_affinity_candidate score cs key)"
    using affinity_preferred_selected [OF assms(5,2,3,6) assms(7) [symmetric] assms(12,13)] by blast
  moreover obtain s' b1' where "select_endpoint score r' n policy cx' b' = (Ok s', b1')"
      "se_endpoint_id s' = sc_endpoint_id (select_affinity_candidate score ds key)"
    using affinity_preferred_selected [OF assms(8,2) cx'(1) assms(9) _ ne av] cx'(2) assms(10) by metis
  ultimately show ?thesis using stay by auto
qed

definition sticky_policy :: upstream_selection_policy where
  "sticky_policy = selection_policy_default\<lparr>usp_affinity := Some (CookieHash ''sid'' BalanceHealthy)\<rparr>"

definition sticky_context :: selection_context where
  "sticky_context = \<lparr>sx_preferred_locality = None, sx_preferred_zone = None, sx_affinity_key = Some ''k'', sx_request_hash = 0\<rparr>"

definition shrunk_registry :: upstream_health_registry where
  "shrunk_registry = snd (uh_remove_endpoint ''c'' ''a'' sample_registry)"

definition located :: "upstream_health_registry \<Rightarrow> endpoint_selection_candidate list" where
  "located r = (case selection_candidates r ''c'' True of
     Inr cs \<Rightarrow> fst (apply_locality_preference cs sticky_policy sticky_context) | Inl _ \<Rightarrow> [])"

lemma sticky_eval:
  "is_ok (selection_candidates sample_registry ''c'' True) \<and> is_ok (selection_candidates shrunk_registry ''c'' True) \<and>
   map sc_endpoint_id (located sample_registry) = [''a'', ''b''] \<and>
   map sc_endpoint_id (located shrunk_registry) = [''b''] \<and>
   candidates_shrank (located sample_registry) (located shrunk_registry) \<and>
   sc_endpoint_id (select_affinity_candidate sample_score (located sample_registry) ''k'') = ''b'' \<and>
   is_available (hs_status (sc_health (select_affinity_candidate sample_score (located sample_registry) ''k''))) \<and>
   list_ex (\<lambda>d. sc_endpoint_id d = ''b'' \<and> is_available (hs_status (sc_health d))) (located shrunk_registry)"
  by code_simp

lemma sample_score_laws: "affinity_score_laws sample_score key"
  by (auto simp: affinity_score_laws_def sample_score_def NEG_INFINITY_KEY_def)

theorem affinity_sticky_witness:
  "\<exists>s b1 s' b1'.
     select_endpoint sample_score sample_registry ''c'' sticky_policy sticky_context balancer_new = (Ok s, b1) \<and>
     select_endpoint sample_score shrunk_registry ''c'' sticky_policy
       (sticky_context\<lparr>sx_request_hash := 7\<rparr>) b1 = (Ok s', b1') \<and>
     se_endpoint_id s = ''b'' \<and> se_endpoint_id s' = ''b''"
proof -
  note e = sticky_eval
  obtain all all' where c: "selection_candidates sample_registry ''c'' True = Ok all"
      "selection_candidates shrunk_registry ''c'' True = Ok all'"
    using e by (auto simp: is_ok_def split: sum.splits)
  then have l: "located sample_registry = fst (apply_locality_preference all sticky_policy sticky_context)"
      "located shrunk_registry = fst (apply_locality_preference all' sticky_policy sticky_context)"
    by (simp_all add: located_def)
  have p: "usp_affinity sticky_policy = Some (CookieHash ''sid'' BalanceHealthy)"
      "sx_affinity_key sticky_context = Some ''k''"
    by (simp_all add: sticky_policy_def sticky_context_def)
  have wf: "uh_wf shrunk_registry"
    unfolding shrunk_registry_def by (rule uh_remove_endpoint_wf [OF sample_registry_wf])
  have ne: "located sample_registry \<noteq> []" using e by force
  have ex: "\<exists>d\<in>set (located shrunk_registry). sc_endpoint_id d =
      sc_endpoint_id (select_affinity_candidate sample_score (located sample_registry) ''k'') \<and>
      is_available (hs_status (sc_health d))"
    using e by (simp add: list_ex_iff)
  obtain s b1 where s: "select_endpoint sample_score sample_registry ''c'' sticky_policy sticky_context balancer_new = (Ok s, b1)"
    using affinity_sticky [OF sample_score_laws p refl sample_registry_wf c(1) l(1) wf c(2) l(2) _ ne _ ex, of balancer_new 7 balancer_new]
      e by blast
  with affinity_sticky [OF sample_score_laws p refl sample_registry_wf c(1) l(1) wf c(2) l(2) _ ne _ ex, of balancer_new 7 b1]
    e show ?thesis by auto
qed

section \<open>Credits fit in 64 bits\<close>

lemma steady_run_state:
  "snd (run_picks steady_step k (n, cs, fb, b)) = (n, cs, fb, snd (run_picks (select_weighted_round_robin n cs fb) k b))"
  by (induction k arbitrary: b) (simp_all add: steady_step_def case_prod_beta)

lemma total_weight_bound:
  "\<forall>c\<in>set cs. hs_effective_weight (sc_health c) < 2 ^ 16 \<Longrightarrow>
     sum_list (map candidate_weight cs) \<le> int (length cs) * 2 ^ 16"
proof (induction cs)
  case (Cons c cs)
  have "candidate_weight c \<le> 2 ^ 16"
    using Cons.prems by (auto simp: candidate_weight_def)
  with Cons show ?case by (simp add: algebra_simps)
qed simp

text \<open>
  The signed 64-bit credits of weighted round robin cannot overflow: with 16-bit weights
  and at most a million candidates, however many selections are made in a steady phase that
  starts without credits, every credit plus a weight and minus the sum of the weights is
  within the range of \<open>i64\<close>.
\<close>

lemma weighted_credits_fit_i64:
  assumes "balancer_ok b" and "map_of (ub_weighted_states b) (n, fb) = None"
    and "distinct (map sc_endpoint_id cs)" and "c \<in> set cs"
    and "\<forall>c\<in>set cs. hs_effective_weight (sc_health c) < 2 ^ 16" and "length cs \<le> 2 ^ 20"
  shows "- (2 ^ 63) \<le> credit_of (cluster_weights (n, fb) (snd (run_picks (select_weighted_round_robin n cs fb) k b)))
       (sc_endpoint_id c) - sum_list (map candidate_weight cs) \<and>
    credit_of (cluster_weights (n, fb) (snd (run_picks (select_weighted_round_robin n cs fb) k b)))
       (sc_endpoint_id c) + candidate_weight c < 2 ^ 63"
proof -
  let ?s = "(n, cs, fb, b)" and ?T = "sum_list (map candidate_weight cs)"
  let ?t = "snd (run_picks steady_step k ?s)"
  have v: "steady_valid ?s" using assms by (auto simp: steady_valid_def)
  have z: "steady_credit ?s i = 0" for i
    using assms(2) by (simp add: steady_credit_def credit_of_def cluster_weights_def bt_get_or_def
        weighted_state_default_def)
  have vt: "steady_valid ?t" "steady_keys ?t = steady_keys ?s" "steady_weight ?t = steady_weight ?s"
    using wrr.run_frame [OF v, of k] by blast+
  have bal: "wrr.balanced ?t"
    using v wrr.zero_balanced [OF v z] by (rule wrr.run_balanced)
  have m: "sc_endpoint_id c \<in> steady_keys ?t" unfolding vt(2) using assms(4) by (simp add: steady_keys_def)
  have tot: "sum (steady_weight ?t) (steady_keys ?t) = ?T"
    unfolding vt using sum_weight_of [OF assms(3)] by (simp add: steady_defs)
  have card: "card (steady_keys ?t) \<le> 2 ^ 20"
    unfolding vt(2) using assms(6) card_image_le [of "set cs" sc_endpoint_id] card_length [of cs]
    by (simp add: steady_keys_def)
  have T: "?T \<le> 2 ^ 36" "0 \<le> ?T"
    using total_weight_bound [OF assms(5)] assms(6) wrr.total_pos [OF vt(1)] tot by simp_all
  have "steady_credit ?t (sc_endpoint_id c) < int (card (steady_keys ?t)) * ?T"
    using wrr.balanced_bound [OF vt(1) bal m] tot by simp
  also have "\<dots> \<le> 2 ^ 20 * 2 ^ 36"
    using of_nat_mono [OF card, where 'a = int] T by (intro mult_mono) simp_all
  finally have up: "steady_credit ?t (sc_endpoint_id c) < 2 ^ 56" by simp
  have lo: "- ?T < steady_credit ?t (sc_endpoint_id c)"
    using bal m tot by (simp add: wrr.balanced_def)
  have "candidate_weight c \<le> 2 ^ 16" using assms(4,5) by (auto simp: candidate_weight_def)
  with up lo T show ?thesis
    by (simp add: steady_run_state steady_credit_def)
qed

end
