(* ===== verification/Route_Pool.thy ===== *)
theory Route_Pool
  imports Upstream_Balancer
begin

text \<open>
  \<open>RouteBackendPool\<close> of \<open>crates/runtime/src/upstream_balancer.rs\<close>: the backend of a route is
  one cluster, or several weighted destinations of one cluster each, tried in the order of
  a smooth weighted round robin over the destinations.

  The builder rejects nested weighted pools, so the destinations of a weighted pool are
  single pools. Pools are shared by \<open>Arc\<close>; the model follows one pool, whose destinations do
  not share a pool among each other. A selected backend keeps a handle on the pool that
  gave it: the pool itself, or the destination it came from.
\<close>

section \<open>Pools\<close>

datatype upstream_transport = TransportHttp1 | TransportHttp2 | TransportHttp3

record upstream_target =
  ut_name :: string
  ut_address :: socket_addr
  ut_transport :: upstream_transport

definition upstream_target_new :: "string \<Rightarrow> socket_addr \<Rightarrow> upstream_target" where
  "upstream_target_new name address =
     \<lparr>ut_name = name, ut_address = address, ut_transport = TransportHttp1\<rparr>"

record single_pool =
  sp_cluster_name :: cluster_name
  sp_registry :: upstream_health_registry
  sp_balancer :: upstream_balancer
  sp_selection_policy :: upstream_selection_policy

record weighted_destination =
  wd_weight :: nat
  wd_pool :: single_pool

record destination_state =
  ds_total_weight :: int
  ds_current_weights :: "(cluster_name, int) btree_map"
  ds_weighted_route_selection_count :: nat
  ds_route_destination_fallback_count :: nat
  ds_route_destination_selection_counts :: "(cluster_name, nat) btree_map"

datatype route_backend_pool =
    Single single_pool
  | Weighted "weighted_destination list" destination_state

datatype route_backend_pool_build_error =
    EmptyDestinations
  | ZeroWeightDestination string
  | NestedWeightedDestination

abbreviation wd_name :: "weighted_destination \<Rightarrow> cluster_name" where
  "wd_name d \<equiv> sp_cluster_name (wd_pool d)"

definition destination_state_default :: destination_state where
  "destination_state_default =
     \<lparr>ds_total_weight = 0, ds_current_weights = [], ds_weighted_route_selection_count = 0,
      ds_route_destination_fallback_count = 0, ds_route_destination_selection_counts = []\<rparr>"

definition pool_cluster_name :: "route_backend_pool \<Rightarrow> cluster_name" where
  "pool_cluster_name pool =
     (case pool of Single sp \<Rightarrow> sp_cluster_name sp | Weighted ds _ \<Rightarrow> wd_name (ds ! 0))"

definition pool_cluster_names :: "route_backend_pool \<Rightarrow> cluster_name list" where
  "pool_cluster_names pool =
     (case pool of Single sp \<Rightarrow> [sp_cluster_name sp] | Weighted ds _ \<Rightarrow> map wd_name ds)"

definition from_cluster ::
  "upstream_cluster \<Rightarrow> endpoint_health_policy \<Rightarrow> upstream_selection_policy \<Rightarrow>
     (route_backend_pool, upstream_health_error) result" where
  "from_cluster c health_policy selection_policy =
     (case uh_insert_cluster c (health_registry_new health_policy) of
        (Inl e, _) \<Rightarrow> Err e
      | (Inr _, reg) \<Rightarrow>
          Ok (Single \<lparr>sp_cluster_name = cl_name c, sp_registry = reg, sp_balancer = balancer_new,
                      sp_selection_policy = selection_policy\<rparr>))"

fun check_destinations ::
  "(nat \<times> route_backend_pool) list \<Rightarrow> (weighted_destination list, route_backend_pool_build_error) result" where
  "check_destinations [] = Ok []"
| "check_destinations ((w, pool) # rest) =
     (if w = 0 then Err (ZeroWeightDestination (pool_cluster_name pool))
      else case pool of
          Weighted _ _ \<Rightarrow> Err NestedWeightedDestination
        | Single sp \<Rightarrow>
            and_then (check_destinations rest) (\<lambda>ds. Ok (\<lparr>wd_weight = w, wd_pool = sp\<rparr> # ds)))"

definition from_weighted_destinations ::
  "(nat \<times> route_backend_pool) list \<Rightarrow> (route_backend_pool, route_backend_pool_build_error) result" where
  "from_weighted_destinations input =
     (if input = [] then Err EmptyDestinations
      else and_then (check_destinations input) (\<lambda>ds.
        Ok (Weighted (sort_key wd_name ds) destination_state_default)))"

section \<open>The order of the destinations\<close>

fun best_destination_loop ::
  "weighted_destination list \<Rightarrow> (cluster_name, int) btree_map \<Rightarrow> nat \<Rightarrow> weighted_destination list \<Rightarrow>
     (nat \<times> int) option \<Rightarrow> (nat \<times> int) option" where
  "best_destination_loop ds weights index [] best = best"
| "best_destination_loop ds weights index (d # rest) best =
     (let current = bt_get_or (wd_name d) 0 weights in
      best_destination_loop ds weights (Suc index) rest
        (case best of
           None \<Rightarrow> Some (index, current)
         | Some (best_index, best_weight) \<Rightarrow>
             if best_weight < current \<or> current = best_weight \<and> wd_name d < wd_name (ds ! best_index)
             then Some (index, current) else best))"

definition best_weighted_route_destination_index ::
  "weighted_destination list \<Rightarrow> (cluster_name, int) btree_map \<Rightarrow> nat option" where
  "best_weighted_route_destination_index ds weights =
     map_option fst (best_destination_loop ds weights 0 ds None)"

text \<open>
  The comparison that \<open>max_by\<close> uses for the fallback order, and \<open>max_by\<close>, which keeps the
  later of two equal elements.
\<close>

definition compare_destinations ::
  "weighted_destination list \<Rightarrow> (cluster_name, int) btree_map \<Rightarrow> nat \<Rightarrow> nat \<Rightarrow> cmp_ordering" where
  "compare_destinations ds weights l r =
     then_with (cmp (bt_get_or (wd_name (ds ! l)) 0 weights) (bt_get_or (wd_name (ds ! r)) 0 weights))
       (then_with (cmp (wd_name (ds ! r)) (wd_name (ds ! l))) (cmp r l))"

fun max_by :: "('a \<Rightarrow> 'a \<Rightarrow> cmp_ordering) \<Rightarrow> 'a \<Rightarrow> 'a list \<Rightarrow> 'a" where
  "max_by compare best [] = best"
| "max_by compare best (x # xs) =
     max_by compare (if compare best x = CmpGreater then best else x) xs"

definition next_destination ::
  "weighted_destination list \<Rightarrow> (cluster_name, int) btree_map \<Rightarrow> nat list \<Rightarrow> nat option" where
  "next_destination ds weights order =
     (case filter (\<lambda>i. i \<notin> set order) [0..<length ds] of
        [] \<Rightarrow> None
      | i # is \<Rightarrow> Some (max_by (compare_destinations ds weights) i is))"

definition debit :: "cluster_name \<Rightarrow> int \<Rightarrow> (cluster_name, int) btree_map \<Rightarrow> (cluster_name, int) btree_map" where
  "debit n amount weights =
     (case map_of weights n of None \<Rightarrow> weights | Some x \<Rightarrow> bt_insert n (x - amount) weights)"

text \<open>
  \<open>while order.len() < destinations.len()\<close>: every iteration appends a new index, so the
  number of the destinations is enough fuel.
\<close>

fun fallback_order ::
  "nat \<Rightarrow> weighted_destination list \<Rightarrow> int \<Rightarrow> (cluster_name, int) btree_map \<Rightarrow> nat list \<Rightarrow> nat list" where
  "fallback_order 0 ds tot weights order = order"
| "fallback_order (Suc fuel) ds tot weights order =
     (if length order < length ds
      then case next_destination ds weights order of
          None \<Rightarrow> order
        | Some i \<Rightarrow> fallback_order fuel ds tot (debit (wd_name (ds ! i)) tot weights) (order @ [i])
      else order)"

definition select_weighted_route_destination_order ::
  "weighted_destination list \<Rightarrow> destination_state \<Rightarrow> nat list \<times> destination_state" where
  "select_weighted_route_destination_order ds st =
     (let retained = bt_retain (\<lambda>n. list_ex (\<lambda>d. wd_name d = n) ds) (ds_current_weights st);
          tot = sum_list (map (\<lambda>d. int (wd_weight d)) ds);
          weights = fold (\<lambda>d. bt_entry (wd_name d) 0 (\<lambda>x. x + int (wd_weight d))) ds retained
      in case best_weighted_route_destination_index ds weights of
           None \<Rightarrow> ([], st\<lparr>ds_total_weight := tot, ds_current_weights := weights\<rparr>)
         | Some best \<Rightarrow>
             let weights1 = debit (wd_name (ds ! best)) tot weights
             in (fallback_order (length ds) ds tot weights1 [best],
                 st\<lparr>ds_total_weight := tot, ds_current_weights := weights1\<rparr>))"

section \<open>Selection\<close>

datatype pool_handle = WholePool | Destination nat

record selected_route_backend =
  srb_pool :: pool_handle
  srb_endpoint_id :: endpoint_id
  srb_upstream :: upstream_target

definition single_select ::
  "affinity_score \<Rightarrow> selection_context \<Rightarrow> pool_handle \<Rightarrow> single_pool \<Rightarrow>
     (selected_route_backend, upstream_selection_error) result \<times> single_pool" where
  "single_select score cx handle sp =
     (case select_endpoint score (sp_registry sp) (sp_cluster_name sp) (sp_selection_policy sp) cx
             (sp_balancer sp) of
        (res, b) \<Rightarrow>
          (and_then res (\<lambda>s. Ok \<lparr>srb_pool = handle, srb_endpoint_id = se_endpoint_id s,
             srb_upstream = upstream_target_new (sp_cluster_name sp @ '':'' @ se_endpoint_id s) (se_address s)\<rparr>),
           sp\<lparr>sp_balancer := b\<rparr>))"

definition set_pool :: "nat \<Rightarrow> single_pool \<Rightarrow> weighted_destination list \<Rightarrow> weighted_destination list" where
  "set_pool i sp ds = ds[i := (ds ! i)\<lparr>wd_pool := sp\<rparr>]"

definition note_route_selection :: "nat \<Rightarrow> cluster_name \<Rightarrow> destination_state \<Rightarrow> destination_state" where
  "note_route_selection rank n st =
     (let st1 = st\<lparr>ds_weighted_route_selection_count := sat_add 64 (ds_weighted_route_selection_count st) 1\<rparr>;
          st2 = (if 0 < rank
                 then st1\<lparr>ds_route_destination_fallback_count :=
                        sat_add 64 (ds_route_destination_fallback_count st1) 1\<rparr>
                 else st1)
      in st2\<lparr>ds_route_destination_selection_counts :=
           bt_entry n 0 (\<lambda>c. sat_add 64 c 1) (ds_route_destination_selection_counts st2)\<rparr>)"

fun try_destinations ::
  "affinity_score \<Rightarrow> selection_context \<Rightarrow> nat \<Rightarrow> nat list \<Rightarrow> upstream_selection_error option \<Rightarrow>
     weighted_destination list \<Rightarrow> destination_state \<Rightarrow>
     (selected_route_backend, upstream_selection_error) result \<times> weighted_destination list \<times> destination_state" where
  "try_destinations score cx rank [] last_error ds st =
     (Err (case last_error of Some e \<Rightarrow> e | None \<Rightarrow> NoEligibleEndpoints (wd_name (ds ! 0))), ds, st)"
| "try_destinations score cx rank (i # order) last_error ds st =
     (case single_select score cx (Destination i) (wd_pool (ds ! i)) of
        (res, sp) \<Rightarrow>
          (let ds1 = set_pool i sp ds in
           case res of
             Inr selected \<Rightarrow> (Ok selected, ds1, note_route_selection rank (wd_name (ds ! i)) st)
           | Inl (NoEligibleEndpoints _) \<Rightarrow>
               try_destinations score cx (Suc rank) order (Some (NoEligibleEndpoints (wd_name (ds ! i)))) ds1 st
           | Inl e \<Rightarrow> try_destinations score cx (Suc rank) order (Some e) ds1 st))"

definition select_backend_with_context ::
  "affinity_score \<Rightarrow> selection_context \<Rightarrow> route_backend_pool \<Rightarrow>
     (selected_route_backend, upstream_selection_error) result \<times> route_backend_pool" where
  "select_backend_with_context score cx pool =
     (case pool of
        Single sp \<Rightarrow> (case single_select score cx WholePool sp of (res, sp') \<Rightarrow> (res, Single sp'))
      | Weighted ds st \<Rightarrow>
          (case select_weighted_route_destination_order ds st of
             (order, st1) \<Rightarrow>
               (case try_destinations score cx 0 order None ds st1 of
                  (res, ds', st2) \<Rightarrow> (res, Weighted ds' st2))))"

definition hash_context :: "nat \<Rightarrow> selection_context" where
  "hash_context request_hash =
     \<lparr>sx_preferred_locality = None, sx_preferred_zone = None, sx_affinity_key = None,
      sx_request_hash = request_hash\<rparr>"

definition select_backend ::
  "affinity_score \<Rightarrow> nat \<Rightarrow> route_backend_pool \<Rightarrow>
     (selected_route_backend, upstream_selection_error) result \<times> route_backend_pool" where
  "select_backend score request_hash pool = select_backend_with_context score (hash_context request_hash) pool"

definition select_upstream_with_context ::
  "affinity_score \<Rightarrow> selection_context \<Rightarrow> route_backend_pool \<Rightarrow>
     (upstream_target, upstream_selection_error) result \<times> route_backend_pool" where
  "select_upstream_with_context score cx pool =
     (case select_backend_with_context score cx pool of
        (res, pool') \<Rightarrow> (and_then res (\<lambda>s. Ok (srb_upstream s)), pool'))"

definition select_upstream ::
  "affinity_score \<Rightarrow> nat \<Rightarrow> route_backend_pool \<Rightarrow>
     (upstream_target, upstream_selection_error) result \<times> route_backend_pool" where
  "select_upstream score request_hash pool =
     (case select_backend score request_hash pool of
        (res, pool') \<Rightarrow> (and_then res (\<lambda>s. Ok (srb_upstream s)), pool'))"

definition select_upstream_with_context_and_transport ::
  "affinity_score \<Rightarrow> selection_context \<Rightarrow> upstream_transport \<Rightarrow> route_backend_pool \<Rightarrow>
     (upstream_target, upstream_selection_error) result \<times> route_backend_pool" where
  "select_upstream_with_context_and_transport score cx transport pool =
     (case select_upstream_with_context score cx pool of
        (res, pool') \<Rightarrow> (and_then res (\<lambda>u. Ok (u\<lparr>ut_transport := transport\<rparr>)), pool'))"

definition select_upstream_with_transport ::
  "affinity_score \<Rightarrow> nat \<Rightarrow> upstream_transport \<Rightarrow> route_backend_pool \<Rightarrow>
     (upstream_target, upstream_selection_error) result \<times> route_backend_pool" where
  "select_upstream_with_transport score request_hash transport pool =
     select_upstream_with_context_and_transport score (hash_context request_hash) transport pool"

section \<open>Health feedback and probing\<close>

record active_probe_target =
  apt_endpoint_id :: endpoint_id
  apt_address :: socket_addr
  apt_health :: endpoint_health_snapshot

definition single_probe_targets ::
  "single_pool \<Rightarrow> (active_probe_target list, upstream_health_error) result" where
  "single_probe_targets sp =
     and_then (selection_candidates (sp_registry sp) (sp_cluster_name sp) True) (\<lambda>cs.
       Ok (map (\<lambda>c. \<lparr>apt_endpoint_id = sc_endpoint_id c, apt_address = sc_address c,
                     apt_health = sc_health c\<rparr>) cs))"

fun collect_probe_targets ::
  "weighted_destination list \<Rightarrow> (active_probe_target list, upstream_health_error) result" where
  "collect_probe_targets [] = Ok []"
| "collect_probe_targets (d # ds) =
     and_then (single_probe_targets (wd_pool d)) (\<lambda>ts.
     and_then (collect_probe_targets ds) (\<lambda>rest. Ok (ts @ rest)))"

definition active_probe_targets ::
  "route_backend_pool \<Rightarrow> (active_probe_target list, upstream_health_error) result" where
  "active_probe_targets pool =
     (case pool of Single sp \<Rightarrow> single_probe_targets sp | Weighted ds _ \<Rightarrow> collect_probe_targets ds)"

type_synonym registry_note =
  "cluster_name \<Rightarrow> endpoint_id \<Rightarrow> upstream_health_registry \<Rightarrow>
     (endpoint_health_snapshot, upstream_health_error) result \<times> upstream_health_registry"

definition single_note ::
  "registry_note \<Rightarrow> endpoint_id \<Rightarrow> single_pool \<Rightarrow>
     (endpoint_health_snapshot, upstream_health_error) result \<times> single_pool" where
  "single_note note i sp =
     (case note (sp_cluster_name sp) i (sp_registry sp) of
        (res, reg) \<Rightarrow> (res, sp\<lparr>sp_registry := reg\<rparr>))"

text \<open>The index of the destination whose probe targets have the endpoint.\<close>

fun find_destination ::
  "endpoint_id \<Rightarrow> nat \<Rightarrow> weighted_destination list \<Rightarrow> (nat option, upstream_health_error) result" where
  "find_destination i index [] = Ok None"
| "find_destination i index (d # ds) =
     and_then (single_probe_targets (wd_pool d)) (\<lambda>ts.
       if list_ex (\<lambda>t. apt_endpoint_id t = i) ts then Ok (Some index)
       else find_destination i (Suc index) ds)"

definition note_endpoint_across_weighted_destinations ::
  "registry_note \<Rightarrow> endpoint_id \<Rightarrow> weighted_destination list \<Rightarrow>
     (endpoint_health_snapshot, upstream_health_error) result \<times> weighted_destination list" where
  "note_endpoint_across_weighted_destinations note i ds =
     (case find_destination i 0 ds of
        Inl e \<Rightarrow> (Err e, ds)
      | Inr (Some k) \<Rightarrow>
          (case single_note note i (wd_pool (ds ! k)) of (res, sp) \<Rightarrow> (res, set_pool k sp ds))
      | Inr None \<Rightarrow>
          (Err (EndpointNotTracked
             (case ds of d # _ \<Rightarrow> wd_name d | [] \<Rightarrow> ''weighted-destinations'') i), ds))"

definition pool_note ::
  "registry_note \<Rightarrow> endpoint_id \<Rightarrow> route_backend_pool \<Rightarrow>
     (endpoint_health_snapshot, upstream_health_error) result \<times> route_backend_pool" where
  "pool_note note i pool =
     (case pool of
        Single sp \<Rightarrow> (case single_note note i sp of (res, sp') \<Rightarrow> (res, Single sp'))
      | Weighted ds st \<Rightarrow>
          (case note_endpoint_across_weighted_destinations note i ds of
             (res, ds') \<Rightarrow> (res, Weighted ds' st)))"

definition pool_note_passive_success ::
  "endpoint_id \<Rightarrow> route_backend_pool \<Rightarrow>
     (endpoint_health_snapshot, upstream_health_error) result \<times> route_backend_pool" where
  "pool_note_passive_success = pool_note note_passive_success"

definition pool_note_passive_failure ::
  "endpoint_id \<Rightarrow> route_backend_pool \<Rightarrow>
     (endpoint_health_snapshot, upstream_health_error) result \<times> route_backend_pool" where
  "pool_note_passive_failure = pool_note note_passive_failure"

definition pool_note_active_success ::
  "endpoint_id \<Rightarrow> route_backend_pool \<Rightarrow>
     (endpoint_health_snapshot, upstream_health_error) result \<times> route_backend_pool" where
  "pool_note_active_success = pool_note note_active_success"

definition pool_note_active_failure ::
  "endpoint_id \<Rightarrow> route_backend_pool \<Rightarrow>
     (endpoint_health_snapshot, upstream_health_error) result \<times> route_backend_pool" where
  "pool_note_active_failure = pool_note note_active_failure"

definition pool_endpoint_health ::
  "endpoint_id \<Rightarrow> route_backend_pool \<Rightarrow> (endpoint_health_snapshot, upstream_health_error) result" where
  "pool_endpoint_health i pool =
     fst (pool_note (\<lambda>n i reg. (uh_endpoint_health reg n i, reg)) i pool)"

text \<open>The feedback through a selected backend goes to the pool of its handle.\<close>

definition backend_note ::
  "registry_note \<Rightarrow> selected_route_backend \<Rightarrow> route_backend_pool \<Rightarrow>
     (endpoint_health_snapshot, upstream_health_error) result \<times> route_backend_pool" where
  "backend_note note s pool =
     (case (srb_pool s, pool) of
        (Destination k, Weighted ds st) \<Rightarrow>
          (case single_note note (srb_endpoint_id s) (wd_pool (ds ! k)) of
             (res, sp) \<Rightarrow> (res, Weighted (set_pool k sp ds) st))
      | _ \<Rightarrow> pool_note note (srb_endpoint_id s) pool)"

definition pool_advance_time :: "duration \<Rightarrow> route_backend_pool \<Rightarrow> route_backend_pool" where
  "pool_advance_time elapsed pool =
     (let tick = (\<lambda>sp. sp\<lparr>sp_registry := advance_time elapsed (sp_registry sp)\<rparr>) in
      case pool of
        Single sp \<Rightarrow> Single (tick sp)
      | Weighted ds st \<Rightarrow> Weighted (map (\<lambda>d. d\<lparr>wd_pool := tick (wd_pool d)\<rparr>) ds) st)"

definition pool_affinity_policy :: "route_backend_pool \<Rightarrow> affinity_policy option" where
  "pool_affinity_policy pool =
     (case pool of
        Single sp \<Rightarrow> usp_affinity (sp_selection_policy sp)
      | Weighted [] _ \<Rightarrow> None
      | Weighted (d # ds) _ \<Rightarrow>
          (case usp_affinity (sp_selection_policy (wd_pool d)) of
             None \<Rightarrow> None
           | Some first \<Rightarrow>
               if list_all (\<lambda>e. usp_affinity (sp_selection_policy (wd_pool e)) = Some first) ds
               then Some first else None))"

section \<open>Metrics\<close>

record upstream_selection_metrics =
  sm_counters :: selection_counters
  sm_weighted_route_selection_count :: nat
  sm_route_destination_fallback_count :: nat
  sm_route_destination_selection_counts :: "(string, nat) btree_map"

definition balancer_metrics :: "upstream_balancer \<Rightarrow> upstream_selection_metrics" where
  "balancer_metrics b =
     \<lparr>sm_counters = ub_metrics b, sm_weighted_route_selection_count = 0,
      sm_route_destination_fallback_count = 0, sm_route_destination_selection_counts = []\<rparr>"

definition add_counters :: "selection_counters \<Rightarrow> selection_counters \<Rightarrow> selection_counters" where
  "add_counters a m =
     \<lparr>mc_round_robin = wrap_add 64 (mc_round_robin a) (mc_round_robin m),
      mc_weighted_round_robin = wrap_add 64 (mc_weighted_round_robin a) (mc_weighted_round_robin m),
      mc_power_of_two = wrap_add 64 (mc_power_of_two a) (mc_power_of_two m),
      mc_locality_preference_hit = wrap_add 64 (mc_locality_preference_hit a) (mc_locality_preference_hit m),
      mc_no_healthy_endpoint = wrap_add 64 (mc_no_healthy_endpoint a) (mc_no_healthy_endpoint m),
      mc_unhealthy_fallback = wrap_add 64 (mc_unhealthy_fallback a) (mc_unhealthy_fallback m),
      mc_affinity_hit = wrap_add 64 (mc_affinity_hit a) (mc_affinity_hit m),
      mc_affinity_fallback = wrap_add 64 (mc_affinity_fallback a) (mc_affinity_fallback m)\<rparr>"

definition selection_metrics :: "route_backend_pool \<Rightarrow> upstream_selection_metrics" where
  "selection_metrics pool =
     (case pool of
        Single sp \<Rightarrow> balancer_metrics (sp_balancer sp)
      | Weighted ds st \<Rightarrow>
          \<lparr>sm_counters = fold (\<lambda>d a. add_counters a (ub_metrics (sp_balancer (wd_pool d)))) ds selection_counters_zero,
           sm_weighted_route_selection_count = wrap_add 64 0 (ds_weighted_route_selection_count st),
           sm_route_destination_fallback_count = wrap_add 64 0 (ds_route_destination_fallback_count st),
           sm_route_destination_selection_counts =
             fold (\<lambda>(n, c). bt_entry n 0 (\<lambda>x. wrap_add 64 x c)) (ds_route_destination_selection_counts st) []\<rparr>)"

section \<open>The order visits every destination once\<close>

lemma max_by_mem: "max_by f x xs \<in> insert x (set xs)"
proof (induction xs arbitrary: x)
  case (Cons y xs)
  then show ?case by (cases "f x y = CmpGreater") auto
qed simp

lemma next_destination_new:
  assumes "distinct order" and "set order \<subseteq> {..<length ds}" and "length order < length ds"
  obtains i where "next_destination ds weights order = Some i" "i \<notin> set order" "i < length ds"
proof -
  have "set order \<noteq> {..<length ds}"
    using assms(1,3) distinct_card by fastforce
  with assms(2) obtain j where "j < length ds" "j \<notin> set order" by auto
  then have "j \<in> set (filter (\<lambda>i. i \<notin> set order) [0..<length ds])" by simp
  then obtain i rest where f: "filter (\<lambda>i. i \<notin> set order) [0..<length ds] = i # rest"
    by (cases "filter (\<lambda>i. i \<notin> set order) [0..<length ds]") auto
  let ?m = "max_by (compare_destinations ds weights) i rest"
  have "?m \<in> set (filter (\<lambda>i. i \<notin> set order) [0..<length ds])"
    using max_by_mem [of "compare_destinations ds weights" i rest] by (simp add: f)
  then have "?m \<notin> set order" "?m < length ds" by simp_all
  then show ?thesis by (intro that [of ?m]) (simp_all add: next_destination_def f)
qed

lemma fallback_order_perm:
  assumes "distinct order" and "set order \<subseteq> {..<length ds}" and "length ds \<le> length order + fuel"
  shows "\<exists>rest. fallback_order fuel ds tot weights order = order @ rest \<and>
    distinct (order @ rest) \<and> set (order @ rest) = {..<length ds}"
  using assms
proof (induction fuel arbitrary: weights order)
  case 0
  have "card (set order) = length order" using 0 by (simp add: distinct_card)
  moreover have "length order \<le> length ds"
    using card_mono [OF finite_lessThan 0(2)] 0 by (simp add: distinct_card)
  ultimately have "set order = {..<length ds}"
    using 0 by (intro card_subset_eq) simp_all
  with 0 show ?case by simp
next
  case (Suc fuel)
  show ?case
  proof (cases "length order < length ds")
    case True
    then obtain i where i: "next_destination ds weights order = Some i" "i \<notin> set order" "i < length ds"
      using next_destination_new Suc.prems by metis
    have "\<exists>rest. fallback_order fuel ds tot (debit (wd_name (ds ! i)) tot weights) (order @ [i]) = (order @ [i]) @ rest \<and>
        distinct ((order @ [i]) @ rest) \<and> set ((order @ [i]) @ rest) = {..<length ds}"
      using Suc.prems i by (intro Suc.IH) auto
    with True i show ?thesis by auto
  next
    case False
    have "length order \<le> length ds"
      using card_mono [OF finite_lessThan Suc.prems(2)] Suc.prems by (simp add: distinct_card)
    then have "set order = {..<length ds}"
      using Suc.prems False by (intro card_subset_eq) (simp_all add: distinct_card)
    with Suc.prems False show ?thesis by simp
  qed
qed

definition best_destination ::
  "weighted_destination list \<Rightarrow> (cluster_name, int) btree_map \<Rightarrow> nat \<Rightarrow> (nat \<times> int) option \<Rightarrow> bool" where
  "best_destination ds weights idx best \<longleftrightarrow>
     (case best of
        None \<Rightarrow> idx = 0
      | Some (bi, bw) \<Rightarrow> bi < idx \<and> bw = bt_get_or (wd_name (ds ! bi)) 0 weights \<and>
          (\<forall>j<idx. bt_get_or (wd_name (ds ! j)) 0 weights \<le> bw))"

lemma best_destination_loop_best:
  assumes "rest = drop idx ds" and "idx \<le> length ds" and "best_destination ds weights idx best"
  shows "best_destination ds weights (length ds) (best_destination_loop ds weights idx rest best)"
  using assms
proof (induction rest arbitrary: idx best)
  case Nil
  then show ?case by simp
next
  case (Cons d rest)
  then have idx: "idx < length ds" by (metis drop_eq_Nil2 list.distinct(1) not_le)
  with Cons.prems(1) have d: "d = ds ! idx" "rest = drop (Suc idx) ds"
    by (simp_all add: Cons_nth_drop_Suc [symmetric])
  let ?cur = "bt_get_or (wd_name d) 0 weights"
  let ?best = "case best of None \<Rightarrow> Some (idx, ?cur)
     | Some (bi, bw) \<Rightarrow> if bw < ?cur \<or> ?cur = bw \<and> wd_name d < wd_name (ds ! bi) then Some (idx, ?cur) else best"
  have "best_destination ds weights (Suc idx) ?best"
    using Cons.prems(3) d(1) by (cases best) (auto simp: best_destination_def less_Suc_eq split: prod.splits)
  from Cons.IH [OF d(2) _ this] idx show ?case by (simp add: Let_def)
qed

lemma best_index_spec:
  assumes "ds \<noteq> []"
  obtains bi where "best_weighted_route_destination_index ds weights = Some bi" "bi < length ds"
    "\<forall>d\<in>set ds. bt_get_or (wd_name d) 0 weights \<le> bt_get_or (wd_name (ds ! bi)) 0 weights"
proof -
  have "best_destination ds weights (length ds) (best_destination_loop ds weights 0 ds None)"
    by (rule best_destination_loop_best) (simp_all add: best_destination_def)
  with assms obtain bi where "best_destination_loop ds weights 0 ds None =
      Some (bi, bt_get_or (wd_name (ds ! bi)) 0 weights)" "bi < length ds"
    "\<forall>j<length ds. bt_get_or (wd_name (ds ! j)) 0 weights \<le> bt_get_or (wd_name (ds ! bi)) 0 weights"
    by (auto simp: best_destination_def split: option.splits)
  then show ?thesis
    by (intro that [of bi]) (auto simp: best_weighted_route_destination_index_def in_set_conv_nth)
qed

definition destination_weights ::
  "weighted_destination list \<Rightarrow> (cluster_name, int) btree_map \<Rightarrow> (cluster_name, int) btree_map" where
  "destination_weights ds weights =
     fold (\<lambda>d. bt_entry (wd_name d) 0 (\<lambda>x. x + int (wd_weight d))) ds
       (bt_retain (\<lambda>n. list_ex (\<lambda>d. wd_name d = n) ds) weights)"

lemma select_order_eq:
  assumes "ds \<noteq> []"
  obtains bi rest where "bi < length ds"
    "\<forall>d\<in>set ds. bt_get_or (wd_name d) 0 (destination_weights ds (ds_current_weights st))
       \<le> bt_get_or (wd_name (ds ! bi)) 0 (destination_weights ds (ds_current_weights st))"
    "select_weighted_route_destination_order ds st =
       (bi # rest, st\<lparr>ds_total_weight := sum_list (map (\<lambda>d. int (wd_weight d)) ds),
          ds_current_weights := debit (wd_name (ds ! bi)) (sum_list (map (\<lambda>d. int (wd_weight d)) ds))
            (destination_weights ds (ds_current_weights st))\<rparr>)"
    "distinct (bi # rest)" "set (bi # rest) = {..<length ds}"
proof -
  let ?w = "destination_weights ds (ds_current_weights st)"
  let ?tot = "sum_list (map (\<lambda>d. int (wd_weight d)) ds)"
  obtain bi where bi: "best_weighted_route_destination_index ds ?w = Some bi" "bi < length ds"
    "\<forall>d\<in>set ds. bt_get_or (wd_name d) 0 ?w \<le> bt_get_or (wd_name (ds ! bi)) 0 ?w"
    using best_index_spec [OF assms, of ?w] .
  obtain rest where rest: "fallback_order (length ds) ds ?tot (debit (wd_name (ds ! bi)) ?tot ?w) [bi] = [bi] @ rest"
    "distinct ([bi] @ rest)" "set ([bi] @ rest) = {..<length ds}"
    using fallback_order_perm [of "[bi]" ds "length ds"] bi(2) by fastforce
  have "select_weighted_route_destination_order ds st =
      (bi # rest, st\<lparr>ds_total_weight := ?tot, ds_current_weights := debit (wd_name (ds ! bi)) ?tot ?w\<rparr>)"
    using bi(1) rest(1)
    by (simp add: select_weighted_route_destination_order_def Let_def destination_weights_def)
  with bi rest show ?thesis by (intro that [of bi rest]) simp_all
qed

lemma destination_weights_spec:
  assumes "bt_ok weights" and "distinct (map wd_name ds)"
  shows "bt_ok (destination_weights ds weights)"
    and "d \<in> set ds \<Longrightarrow> bt_get_or (wd_name d) 0 (destination_weights ds weights) =
      bt_get_or (wd_name d) 0 weights + int (wd_weight d)"
    and "d \<in> set ds \<Longrightarrow> map_of (destination_weights ds weights) (wd_name d) \<noteq> None"
proof -
  let ?f = "\<lambda>d. bt_entry (wd_name d) 0 (\<lambda>x. x + int (wd_weight d))"
  have other: "bt_ok (fold ?f es m) \<and>
      (n \<notin> wd_name ` set es \<longrightarrow> map_of (fold ?f es m) n = map_of m n)" if "bt_ok m" for es m n
    using that
  proof (induction es arbitrary: m)
    case (Cons e es)
    then show ?case by (simp add: bt_entry_ok map_of_bt_entry)
  qed simp
  have loop: "map_of (fold ?f es m) (wd_name d) = Some (bt_get_or (wd_name d) 0 m + int (wd_weight d))"
    if "bt_ok m" "distinct (map wd_name es)" "d \<in> set es" for es m d
    using that
  proof (induction es arbitrary: m)
    case (Cons e es)
    have ok: "bt_ok (?f e m)" using Cons.prems(1) by (rule bt_entry_ok)
    show ?case
    proof (cases "d = e")
      case True
      with Cons.prems other [OF ok, where n = "wd_name e" and es = es] show ?thesis by (simp add: map_of_bt_entry)
    next
      case False
      with Cons.prems have "d \<in> set es" by simp
      moreover from this have "wd_name d \<noteq> wd_name e"
        using Cons.prems(2) by (auto simp: image_iff)
      ultimately have "d \<in> set es" "wd_name d \<noteq> wd_name e" by blast+
      with Cons ok show ?thesis by (simp add: bt_get_or_bt_entry)
    qed
  qed simp
  let ?ret = "bt_retain (\<lambda>n. list_ex (\<lambda>d. wd_name d = n) ds) weights"
  have ret: "bt_ok ?ret" using assms(1) by (rule bt_retain_ok)
  show "bt_ok (destination_weights ds weights)"
    using other [OF ret] by (simp add: destination_weights_def)
  assume d: "d \<in> set ds"
  have "bt_get_or (wd_name d) 0 ?ret = bt_get_or (wd_name d) 0 weights"
    using d by (auto simp: bt_get_or_def map_of_bt_retain list_ex_iff)
  with loop [OF ret assms(2) d]
  show "bt_get_or (wd_name d) 0 (destination_weights ds weights) =
      bt_get_or (wd_name d) 0 weights + int (wd_weight d)"
    "map_of (destination_weights ds weights) (wd_name d) \<noteq> None"
    by (simp_all add: destination_weights_def bt_get_or_def)
qed

lemma debit_spec:
  assumes "bt_ok m" and "map_of m n \<noteq> None"
  shows "bt_ok (debit n x m)"
    "bt_get_or k 0 (debit n x m) = bt_get_or k 0 m - (if k = n then x else 0)"
  using assms by (auto simp: debit_def bt_insert_ok bt_get_or_def map_of_bt_insert)

text \<open>
  The order in which a weighted route tries its destinations is a permutation of all of
  them that starts with a destination of largest credit: no destination is skipped and none
  is tried twice.
\<close>

lemma destination_order_permutation:
  assumes "ds \<noteq> []" and "bt_ok (ds_current_weights st)" and "distinct (map wd_name ds)"
  shows "distinct (fst (select_weighted_route_destination_order ds st)) \<and>
    set (fst (select_weighted_route_destination_order ds st)) = {..<length ds} \<and>
    (\<forall>d\<in>set ds. bt_get_or (wd_name d) 0 (ds_current_weights st) + int (wd_weight d)
       \<le> bt_get_or (wd_name (ds ! hd (fst (select_weighted_route_destination_order ds st)))) 0 (ds_current_weights st)
         + int (wd_weight (ds ! hd (fst (select_weighted_route_destination_order ds st)))))"
proof -
  obtain bi rest where b: "bi < length ds"
    "\<forall>d\<in>set ds. bt_get_or (wd_name d) 0 (destination_weights ds (ds_current_weights st))
       \<le> bt_get_or (wd_name (ds ! bi)) 0 (destination_weights ds (ds_current_weights st))"
    "fst (select_weighted_route_destination_order ds st) = bi # rest"
    "distinct (bi # rest)" "set (bi # rest) = {..<length ds}"
    using select_order_eq [OF assms(1), of st] by (metis fst_conv)
  with destination_weights_spec(2) [OF assms(2,3)] show ?thesis by simp
qed

definition sample_destination :: "string \<Rightarrow> nat \<Rightarrow> weighted_destination" where
  "sample_destination n w =
     \<lparr>wd_weight = w, wd_pool = \<lparr>sp_cluster_name = n, sp_registry = sample_registry,
        sp_balancer = balancer_new, sp_selection_policy = selection_policy_default\<rparr>\<rparr>"

section \<open>Availability\<close>

lemma single_select_ok_handle:
  "is_ok (fst (single_select score cx h sp)) \<longleftrightarrow> is_ok (fst (single_select score cx h' sp))"
  by (cases "fst (select_endpoint score (sp_registry sp) (sp_cluster_name sp) (sp_selection_policy sp) cx (sp_balancer sp))")
    (simp_all add: single_select_def case_prod_beta)

lemma set_pool_nth: "j \<noteq> i \<Longrightarrow> set_pool i sp ds ! j = ds ! j"
  by (simp add: set_pool_def)

lemma try_destinations_ok:
  assumes "distinct order"
  shows "is_ok (fst (try_destinations score cx rank order last_error ds st)) \<longleftrightarrow>
    (\<exists>i\<in>set order. is_ok (fst (single_select score cx WholePool (wd_pool (ds ! i)))))"
  using assms
proof (induction order arbitrary: rank last_error ds st)
  case (Cons i order)
  obtain res sp where r: "single_select score cx (Destination i) (wd_pool (ds ! i)) = (res, sp)"
    by (cases "single_select score cx (Destination i) (wd_pool (ds ! i))")
  have here: "is_ok (fst (single_select score cx WholePool (wd_pool (ds ! i)))) \<longleftrightarrow> is_ok res"
    using single_select_ok_handle [of score cx WholePool "wd_pool (ds ! i)" "Destination i"] r by simp
  have rest: "(\<exists>j\<in>set order. is_ok (fst (single_select score cx WholePool (wd_pool (set_pool i sp ds ! j))))) \<longleftrightarrow>
      (\<exists>j\<in>set order. is_ok (fst (single_select score cx WholePool (wd_pool (ds ! j)))))"
  proof -
    have "set_pool i sp ds ! j = ds ! j" if "j \<in> set order" for j
      using that Cons.prems by (intro set_pool_nth) auto
    then show ?thesis by simp
  qed
  show ?case
  proof (cases res)
    case (Inr s)
    with r here show ?thesis by (simp add: Let_def)
  next
    case (Inl e)
    with r here rest Cons show ?thesis by (cases e) (simp_all add: Let_def)
  qed
qed simp

text \<open>
  C22. A weighted route is as available as the best of its destinations: it finds a backend if
  and only if the selection in at least one destination finds one.
\<close>

theorem weighted_route_available:
  assumes "ds \<noteq> []"
  shows "is_ok (fst (select_backend_with_context score cx (Weighted ds st))) \<longleftrightarrow>
    (\<exists>d\<in>set ds. is_ok (fst (select_endpoint score (sp_registry (wd_pool d)) (wd_name d)
       (sp_selection_policy (wd_pool d)) cx (sp_balancer (wd_pool d)))))"
proof -
  obtain order st1 where o: "select_weighted_route_destination_order ds st = (order, st1)"
    "distinct order" "set order = {..<length ds}"
    using select_order_eq [OF assms, of st] by metis
  have "is_ok (fst (select_backend_with_context score cx (Weighted ds st))) \<longleftrightarrow>
      (\<exists>i\<in>{..<length ds}. is_ok (fst (single_select score cx WholePool (wd_pool (ds ! i)))))"
    using try_destinations_ok [OF o(2), of score cx 0 None ds st1] o(1,3)
    by (simp add: select_backend_with_context_def case_prod_beta)
  also have "\<dots> \<longleftrightarrow> (\<exists>d\<in>set ds. is_ok (fst (single_select score cx WholePool (wd_pool d))))"
    by (force simp: in_set_conv_nth)
  also have "\<dots> \<longleftrightarrow> (\<exists>d\<in>set ds. is_ok (fst (select_endpoint score (sp_registry (wd_pool d)) (wd_name d)
       (sp_selection_policy (wd_pool d)) cx (sp_balancer (wd_pool d)))))"
    by (simp add: single_select_def case_prod_beta is_ok_def and_then_def split: sum.split)
  finally show ?thesis .
qed


theorem weighted_route_available_witness:
  "is_ok (fst (select_backend_with_context sample_score (hash_context 0)
     (Weighted [sample_destination ''c'' 1] destination_state_default)))"
proof -
  have "is_ok (fst (select_endpoint sample_score sample_registry ''c'' selection_policy_default
      (hash_context 0) balancer_new))"
    using sample_pick_Ok by (auto simp: sample_pick_def hash_context_def)
  with weighted_route_available [of "[sample_destination ''c'' 1]" sample_score "hash_context 0" destination_state_default]
  show ?thesis by (simp add: sample_destination_def)
qed

section \<open>Fair traffic split\<close>

text \<open>Every destination can serve: its registry is well formed and has an eligible endpoint.\<close>

definition destination_serves :: "weighted_destination \<Rightarrow> bool" where
  "destination_serves d \<longleftrightarrow>
     uh_wf (sp_registry (wd_pool d)) \<and> map_of (er_clusters (uh_registry (sp_registry (wd_pool d)))) (wd_name d) \<noteq> None \<and>
     has_candidate (sp_registry (wd_pool d)) (wd_name d)
       (usp_no_healthy_fallback (sp_selection_policy (wd_pool d)) = IncludeUnhealthy)"

lemma destination_serves_select:
  assumes "destination_serves d"
  obtains s sp where "single_select score cx h (wd_pool d) = (Ok s, sp)" "srb_pool s = h"
    "sp_cluster_name sp = wd_name d" "sp_registry sp = sp_registry (wd_pool d)"
    "sp_selection_policy sp = sp_selection_policy (wd_pool d)"
proof -
  let ?sel = "select_endpoint score (sp_registry (wd_pool d)) (wd_name d) (sp_selection_policy (wd_pool d)) cx
       (sp_balancer (wd_pool d))"
  obtain c where "map_of (er_clusters (uh_registry (sp_registry (wd_pool d)))) (wd_name d) = Some c"
    "uh_wf (sp_registry (wd_pool d))"
    using assms by (auto simp: destination_serves_def)
  from select_endpoint_outcome [OF this(2,1), of "sp_selection_policy (wd_pool d)" score cx "sp_balancer (wd_pool d)"]
  obtain s where "fst ?sel = Ok s" using assms by (auto simp: destination_serves_def)
  then have "single_select score cx h (wd_pool d) =
      (Ok \<lparr>srb_pool = h, srb_endpoint_id = se_endpoint_id s,
         srb_upstream = upstream_target_new (wd_name d @ '':'' @ se_endpoint_id s) (se_address s)\<rparr>,
       (wd_pool d)\<lparr>sp_balancer := snd ?sel\<rparr>)"
    by (simp add: single_select_def case_prod_beta)
  from that [OF this] show ?thesis by simp
qed

lemma set_pool_frame:
  assumes "sp_cluster_name sp = wd_name (ds ! i)"
  shows "map wd_name (set_pool i sp ds) = map wd_name ds" "map wd_weight (set_pool i sp ds) = map wd_weight ds"
  using assms by (cases "i < length ds"; auto simp: set_pool_def list_eq_iff_nth_eq nth_list_update)+

text \<open>
  The state of a steady phase: the pool, with the score and the request context of the
  selections. The pick is the cluster of the destination that serves the request.
\<close>

type_synonym route_phase = "affinity_score \<times> selection_context \<times> weighted_destination list \<times> destination_state"

definition served_cluster :: "weighted_destination list \<Rightarrow> (selected_route_backend, upstream_selection_error) result \<Rightarrow> cluster_name" where
  "served_cluster ds res =
     (case res of Inr s \<Rightarrow> (case srb_pool s of Destination k \<Rightarrow> wd_name (ds ! k) | WholePool \<Rightarrow> wd_name (ds ! 0))
      | Inl _ \<Rightarrow> [])"

definition route_step :: "route_phase \<Rightarrow> cluster_name \<times> route_phase" where
  "route_step s =
     (case s of (score, cx, ds, st) \<Rightarrow>
        (case select_backend_with_context score cx (Weighted ds st) of
           (res, Weighted ds' st') \<Rightarrow> (served_cluster ds res, (score, cx, ds', st'))
         | (res, Single _) \<Rightarrow> (served_cluster ds res, s)))"

definition route_valid :: "route_phase \<Rightarrow> bool" where
  "route_valid s = (case s of (score, cx, ds, st) \<Rightarrow>
     ds \<noteq> [] \<and> distinct (map wd_name ds) \<and> (\<forall>d\<in>set ds. 0 < wd_weight d \<and> destination_serves d) \<and>
     bt_ok (ds_current_weights st))"

definition route_keys :: "route_phase \<Rightarrow> cluster_name set" where
  "route_keys s = (case s of (score, cx, ds, st) \<Rightarrow> set (map wd_name ds))"

definition route_weight :: "route_phase \<Rightarrow> cluster_name \<Rightarrow> int" where
  "route_weight s n = (case s of (score, cx, ds, st) \<Rightarrow>
     (case map_of (zip (map wd_name ds) (map wd_weight ds)) n of None \<Rightarrow> 0 | Some w \<Rightarrow> int w))"

definition route_credit :: "route_phase \<Rightarrow> cluster_name \<Rightarrow> int" where
  "route_credit s n = (case s of (score, cx, ds, st) \<Rightarrow> bt_get_or n 0 (ds_current_weights st))"

lemmas route_phase_defs = route_valid_def route_keys_def route_weight_def route_credit_def

lemma route_weight_mem:
  "distinct (map wd_name ds) \<Longrightarrow> d \<in> set ds \<Longrightarrow> route_weight (score, cx, ds, st) (wd_name d) = int (wd_weight d)"
  by (induction ds) (auto simp: route_weight_def image_iff)

lemma route_weight_sum:
  assumes "distinct (map wd_name ds)"
  shows "sum (route_weight (score, cx, ds, st)) (route_keys (score, cx, ds, st)) = sum_list (map (\<lambda>d. int (wd_weight d)) ds)"
proof -
  have i: "inj_on wd_name (set ds)" "distinct ds" using assms by (simp_all add: distinct_map)
  have "sum (route_weight (score, cx, ds, st)) (wd_name ` set ds) =
      (\<Sum>d\<in>set ds. route_weight (score, cx, ds, st) (wd_name d))"
    using i(1) by (simp add: sum.reindex)
  also have "\<dots> = (\<Sum>d\<in>set ds. int (wd_weight d))"
    using assms by (intro sum.cong) (simp_all add: route_weight_mem)
  also have "\<dots> = sum_list (map (\<lambda>d. int (wd_weight d)) ds)"
    using i(2) by (simp add: sum_list_distinct_conv_sum_set)
  finally show ?thesis by (simp add: route_keys_def)
qed

lemma route_select_first:
  assumes v: "route_valid (score, cx, ds, st)"
  obtains k ds' st' where "k < length ds"
    "route_step (score, cx, ds, st) = (wd_name (ds ! k), (score, cx, ds', st'))"
    "\<forall>d\<in>set ds. bt_get_or (wd_name d) 0 (destination_weights ds (ds_current_weights st))
       \<le> bt_get_or (wd_name (ds ! k)) 0 (destination_weights ds (ds_current_weights st))"
    "map wd_name ds' = map wd_name ds" "map wd_weight ds' = map wd_weight ds" "\<forall>d\<in>set ds'. destination_serves d"
    "ds_current_weights st' = debit (wd_name (ds ! k)) (sum_list (map (\<lambda>d. int (wd_weight d)) ds))
            (destination_weights ds (ds_current_weights st))"
proof -
  from v have ne: "ds \<noteq> []" and sv: "\<forall>d\<in>set ds. destination_serves d" by (simp_all add: route_valid_def)
  obtain k rest st1 where o: "k < length ds"
    "\<forall>d\<in>set ds. bt_get_or (wd_name d) 0 (destination_weights ds (ds_current_weights st))
       \<le> bt_get_or (wd_name (ds ! k)) 0 (destination_weights ds (ds_current_weights st))"
    "select_weighted_route_destination_order ds st = (k # rest, st1)"
    "ds_current_weights st1 = debit (wd_name (ds ! k)) (sum_list (map (\<lambda>d. int (wd_weight d)) ds))
            (destination_weights ds (ds_current_weights st))"
    by (rule select_order_eq [OF ne, of st]) simp
  have "destination_serves (ds ! k)" using sv o(1) by simp
  then obtain s sp where s: "single_select score cx (Destination k) (wd_pool (ds ! k)) = (Ok s, sp)"
    "srb_pool s = Destination k" "sp_cluster_name sp = wd_name (ds ! k)"
    "sp_registry sp = sp_registry (wd_pool (ds ! k))"
    "sp_selection_policy sp = sp_selection_policy (wd_pool (ds ! k))"
    by (rule destination_serves_select)
  have "destination_serves d" if "d \<in> set (set_pool k sp ds)" for d
    using that set_update_subset_insert [of ds k "(ds ! k)\<lparr>wd_pool := sp\<rparr>"] sv \<open>destination_serves (ds ! k)\<close> s(3-5)
    by (auto simp: set_pool_def destination_serves_def)
  moreover have "route_step (score, cx, ds, st) =
      (wd_name (ds ! k), (score, cx, set_pool k sp ds, note_route_selection 0 (wd_name (ds ! k)) st1))"
    using o(3) s(1,2) by (simp add: route_step_def select_backend_with_context_def served_cluster_def)
  ultimately show ?thesis
    using o(1,2,4) set_pool_frame [OF s(3)]
    by (intro that [of k "set_pool k sp ds" "note_route_selection 0 (wd_name (ds ! k)) st1"])
      (auto simp: note_route_selection_def Let_def)
qed

lemma route_step_law:
  assumes v: "route_valid s"
  shows "route_valid (snd (route_step s)) \<and> route_keys (snd (route_step s)) = route_keys s \<and>
    route_weight (snd (route_step s)) = route_weight s \<and> fst (route_step s) \<in> route_keys s \<and>
    (\<forall>n\<in>route_keys s. route_credit s n + route_weight s n
       \<le> route_credit s (fst (route_step s)) + route_weight s (fst (route_step s)) \<and>
     route_credit (snd (route_step s)) n = route_credit s n + route_weight s n
       - (if n = fst (route_step s) then sum (route_weight s) (route_keys s) else 0))"
proof -
  obtain score cx ds st where s: "s = (score, cx, ds, st)" by (cases s) auto
  have vs: "ds \<noteq> []" "distinct (map wd_name ds)" "\<forall>d\<in>set ds. 0 < wd_weight d" "bt_ok (ds_current_weights st)"
    using v by (simp_all add: s route_valid_def)
  let ?w = "destination_weights ds (ds_current_weights st)"
  obtain k ds' st' where k: "k < length ds"
    "route_step (score, cx, ds, st) = (wd_name (ds ! k), (score, cx, ds', st'))"
    "\<forall>d\<in>set ds. bt_get_or (wd_name d) 0 ?w \<le> bt_get_or (wd_name (ds ! k)) 0 ?w"
    "map wd_name ds' = map wd_name ds" "map wd_weight ds' = map wd_weight ds" "\<forall>d\<in>set ds'. destination_serves d"
    "ds_current_weights st' = debit (wd_name (ds ! k)) (sum_list (map (\<lambda>d. int (wd_weight d)) ds)) ?w"
    by (rule route_select_first [OF v [unfolded s]])
  note w = destination_weights_spec [OF vs(4,2)]
  have km: "ds ! k \<in> set ds" using k(1) by simp
  note deb = debit_spec [OF w(1) w(3) [OF km]]
  have pos: "\<forall>d\<in>set ds'. 0 < wd_weight d"
    using vs(3) k(5) by (metis (no_types, lifting) image_iff list.set_map)
  have frame: "route_valid (score, cx, ds', st') \<and> route_keys (score, cx, ds', st') = route_keys s \<and>
      route_weight (score, cx, ds', st') = route_weight s"
    using vs k(4-7) pos deb(1) by (auto simp: s route_phase_defs fun_eq_iff simp flip: set_map)
  have "route_credit s (wd_name d) + route_weight s (wd_name d) = bt_get_or (wd_name d) 0 ?w" if "d \<in> set ds" for d
    using that vs(2) w(2) by (simp add: s route_credit_def route_weight_mem)
  then show ?thesis
    using frame k(3,7) km deb(2) route_weight_sum [OF vs(2), of score cx st]
    unfolding s k(2) by (auto simp: route_keys_def route_credit_def)
qed

interpretation route: smooth_round_robin route_step route_valid route_keys route_weight route_credit
proof
  fix s n
  assume v: "route_valid s"
  show "finite (route_keys s)" by (simp add: route_keys_def split: prod.split)
  show "1 \<le> route_weight s n" if "n \<in> route_keys s"
  proof -
    obtain score cx ds st where s: "s = (score, cx, ds, st)" by (cases s) auto
    with that obtain d where "d \<in> set ds" "n = wd_name d" by (auto simp: route_keys_def)
    with v s show ?thesis by (auto simp: route_valid_def route_weight_mem Suc_le_eq)
  qed
  show "route_valid (snd (route_step s))" "route_keys (snd (route_step s)) = route_keys s"
    "route_weight (snd (route_step s)) = route_weight s" "fst (route_step s) \<in> route_keys s"
    using route_step_law [OF v] by blast+
  show "route_credit s n + route_weight s n \<le> route_credit s (fst (route_step s)) + route_weight s (fst (route_step s))"
    "route_credit (snd (route_step s)) n = route_credit s n + route_weight s n
       - (if n = fst (route_step s) then sum (route_weight s) (route_keys s) else 0)"
    if "n \<in> route_keys s"
    using route_step_law [OF v] that by blast+
qed

text \<open>
  C5. A weighted route splits traffic exactly: when every destination can serve and no credits
  are held yet, in each round of as many requests as the destination weights sum up to,
  every destination serves exactly as many requests as its weight, and no destination ever
  is a full turn ahead of its share.
\<close>

theorem weighted_split_exact:
  assumes "distinct (map wd_name ds)" and "\<forall>d\<in>set ds. 0 < wd_weight d \<and> destination_serves d"
    and "d \<in> set ds" and "ds_current_weights st = []"
  shows "count_list (fst (run_picks route_step (sum_list (map wd_weight ds)) (score, cx, ds, st))) (wd_name d) = wd_weight d \<and>
    count_list (fst (run_picks route_step k (score, cx, ds, st))) (wd_name d) * sum_list (map wd_weight ds)
      < k * wd_weight d + sum_list (map wd_weight ds)"
proof -
  let ?s = "(score, cx, ds, st)"
  have v: "route_valid ?s" using assms by (auto simp: route_valid_def)
  have z: "route_credit ?s n = 0" for n using assms(4) by (simp add: route_credit_def bt_get_or_def)
  have m: "wd_name d \<in> route_keys ?s" using assms(3) by (simp add: route_keys_def)
  have w: "route_weight ?s (wd_name d) = int (wd_weight d)" using assms(1,3) by (rule route_weight_mem)
  have "sum_list (map (\<lambda>d. int (wd_weight d)) es) = int (sum_list (map wd_weight es))" for es
    by (induction es) simp_all
  then have t: "sum (route_weight ?s) (route_keys ?s) = int (sum_list (map wd_weight ds))"
    using route_weight_sum [OF assms(1), of score cx st] by simp
  from route.run_round [OF v z m t [symmetric]] route.run_share [OF v z m, of k] show ?thesis
    unfolding t w of_nat_mult [symmetric] of_nat_add [symmetric] of_nat_less_iff of_nat_eq_iff by blast
qed

definition canary_registry :: upstream_health_registry where
  "canary_registry = health_run health_policy_default
     [HInsertCluster ''d'' [sample_endpoint ''a'' 3], HAdvanceTime (secs 15)]"

lemma canary_registry_wf: "uh_wf canary_registry"
  unfolding canary_registry_def
  by (intro health_run_wf)
    (simp_all add: health_policy_ok_def health_policy_default_def endpoint_typed_def sample_endpoint_def)

definition canary_candidates :: "endpoint_selection_candidate list" where
  "canary_candidates = (case selection_candidates canary_registry ''d'' False of Inr cs \<Rightarrow> cs | Inl _ \<Rightarrow> [])"

lemma canary_candidates_eq: "selection_candidates canary_registry ''d'' False = Ok canary_candidates"
  "map sc_endpoint_id canary_candidates = [''a'']"
  by code_simp+

definition split_destinations :: "weighted_destination list" where
  "split_destinations =
     [sample_destination ''c'' 2,
      \<lparr>wd_weight = 1, wd_pool = \<lparr>sp_cluster_name = ''d'', sp_registry = canary_registry,
        sp_balancer = balancer_new, sp_selection_policy = selection_policy_default\<rparr>\<rparr>]"

lemma candidates_serve:
  assumes "uh_wf r" and "selection_candidates r n False = Ok cs" and "cs \<noteq> []"
  shows "destination_serves \<lparr>wd_weight = w, wd_pool = \<lparr>sp_cluster_name = n, sp_registry = r,
    sp_balancer = b, sp_selection_policy = selection_policy_default\<rparr>\<rparr>"
proof -
  obtain c where c: "map_of (er_clusters (uh_registry r)) n = Some c"
    using selection_candidates_Ok [OF assms(1,2)] by metis
  obtain ds where "selection_candidates r n False = Ok ds" "ds \<noteq> [] \<longleftrightarrow> has_candidate r n False"
    using selection_candidates_nonempty [OF assms(1) c] .
  with assms c show ?thesis by (simp add: destination_serves_def selection_policy_default_def)
qed

lemma split_destinations_serve: "\<forall>d\<in>set split_destinations. 0 < wd_weight d \<and> destination_serves d"
proof -
  have "sample_candidates \<noteq> []" "canary_candidates \<noteq> []"
    using sample_candidates_eq(2) canary_candidates_eq(2) by auto
  with candidates_serve [OF sample_registry_wf sample_candidates_eq(1)]
    candidates_serve [OF canary_registry_wf canary_candidates_eq(1)]
  show ?thesis by (simp add: split_destinations_def sample_destination_def)
qed

theorem weighted_split_exact_witness:
  "count_list (fst (run_picks route_step 3
     (sample_score, hash_context 0, split_destinations, destination_state_default))) ''c'' = 2 \<and>
   count_list (fst (run_picks route_step 3
     (sample_score, hash_context 0, split_destinations, destination_state_default))) ''d'' = 1"
proof -
  have d: "distinct (map wd_name split_destinations)" "sum_list (map wd_weight split_destinations) = 3"
    by (simp_all add: split_destinations_def sample_destination_def)
  have st: "ds_current_weights destination_state_default = []" by (simp add: destination_state_default_def)
  have m: "split_destinations ! 0 \<in> set split_destinations" "split_destinations ! 1 \<in> set split_destinations"
    by (simp_all add: split_destinations_def)
  have n: "wd_name (split_destinations ! 0) = ''c''" "wd_weight (split_destinations ! 0) = 2"
    "wd_name (split_destinations ! 1) = ''d''" "wd_weight (split_destinations ! 1) = 1"
    by (simp_all add: split_destinations_def sample_destination_def)
  show ?thesis
    using weighted_split_exact [OF d(1) split_destinations_serve m(1) st, of sample_score "hash_context 0" 0]
      weighted_split_exact [OF d(1) split_destinations_serve m(2) st, of sample_score "hash_context 0" 0]
    unfolding d(2) n by blast
qed

section \<open>Building a pool\<close>

lemma check_destinations_Ok:
  "check_destinations input = Ok ds \<longleftrightarrow>
     input = map (\<lambda>d. (wd_weight d, Single (wd_pool d))) ds \<and> (\<forall>d\<in>set ds. 0 < wd_weight d)"
proof (induction input arbitrary: ds rule: check_destinations.induct)
  case 1
  then show ?case by auto
next
  case (2 w pool rest)
  then show ?case
    by (cases ds; cases pool) (auto simp: and_then_eq_Ok)
qed

text \<open>
  The builder of a weighted route accepts exactly the non-empty lists of single-cluster
  pools with positive weights, keeps every destination, and orders them by cluster name.
\<close>

lemma from_weighted_destinations_correct:
  "from_weighted_destinations input = Ok pool \<longleftrightarrow>
     (\<exists>ds. input \<noteq> [] \<and> input = map (\<lambda>d. (wd_weight d, Single (wd_pool d))) ds \<and>
        (\<forall>d\<in>set ds. 0 < wd_weight d) \<and> pool = Weighted (sort_key wd_name ds) destination_state_default)"
  by (auto simp: from_weighted_destinations_def and_then_eq_Ok check_destinations_Ok)

end
