(* ===== verification/Failure_Management.thy ===== *)
theory Failure_Management
  imports LB_Prelude
begin

text \<open>
  \<open>crates/runtime/src/failure_management.rs\<close>: the timeout hierarchy, the retry budget, the
  circuit breaker and the manager that combines them. Every operation is one step on the
  state it locks. The lemmas show that retries stay within the budget of their window, that
  an open breaker rejects until its cool-down is over, that a half-open breaker admits a
  bounded number of probes, and which transitions the breaker can take at all.
\<close>

section \<open>Policies, timeouts and failure classes\<close>

record retry_budget_policy =
  rp_min_retry_tokens :: nat
  rp_retry_percent :: nat
  rp_window :: duration

definition retry_budget_policy_default :: retry_budget_policy where
  "retry_budget_policy_default =
     \<lparr>rp_min_retry_tokens = 3, rp_retry_percent = 20, rp_window = secs 10\<rparr>"

datatype failure_management_error =
    ZeroRetryWindow
  | ZeroTimeout
  | InvalidTimeoutOrder
  | InvalidBreakerThreshold

record timeout_hierarchy =
  th_request_timeout :: duration
  th_attempt_timeout :: duration
  th_connect_timeout :: duration
  th_idle_timeout :: duration

definition timeouts_validate :: "timeout_hierarchy \<Rightarrow> (unit, failure_management_error) result" where
  "timeouts_validate t =
     (if th_request_timeout t = 0 \<or> th_attempt_timeout t = 0
         \<or> th_connect_timeout t = 0 \<or> th_idle_timeout t = 0
      then Err ZeroTimeout
      else if th_attempt_timeout t > th_request_timeout t
         \<or> th_connect_timeout t > th_attempt_timeout t
         \<or> th_idle_timeout t > th_attempt_timeout t
      then Err InvalidTimeoutOrder
      else Ok ())"

datatype timeout_category = TimeoutRequest | TimeoutAttempt | TimeoutConnect | TimeoutIdle

primrec timeout_rank :: "timeout_category \<Rightarrow> nat" where
  "timeout_rank TimeoutRequest = 0"
| "timeout_rank TimeoutAttempt = 1"
| "timeout_rank TimeoutConnect = 2"
| "timeout_rank TimeoutIdle = 3"

lemma timeout_rank_inj: "timeout_rank a = timeout_rank b \<Longrightarrow> a = b"
  by (cases a; cases b) simp_all

instantiation timeout_category :: linorder
begin

definition less_eq_timeout_category :: "timeout_category \<Rightarrow> timeout_category \<Rightarrow> bool" where
  "less_eq_timeout_category a b = (timeout_rank a \<le> timeout_rank b)"

definition less_timeout_category :: "timeout_category \<Rightarrow> timeout_category \<Rightarrow> bool" where
  "less_timeout_category a b = (timeout_rank a < timeout_rank b)"

instance
  by standard (auto simp: less_eq_timeout_category_def less_timeout_category_def
      intro: timeout_rank_inj)

end

fun effective_timeout :: "timeout_hierarchy \<Rightarrow> timeout_category \<Rightarrow> duration" where
  "effective_timeout t TimeoutRequest = th_request_timeout t"
| "effective_timeout t TimeoutAttempt = min (th_attempt_timeout t) (th_request_timeout t)"
| "effective_timeout t TimeoutConnect = min (th_connect_timeout t) (th_attempt_timeout t)"
| "effective_timeout t TimeoutIdle = min (th_idle_timeout t) (th_attempt_timeout t)"

datatype upstream_failure_class =
    FailConnect | FailTimeout | FailOverloaded | FailTemporary | FailPermanent

definition is_retryable :: "upstream_failure_class \<Rightarrow> bool" where
  "is_retryable c \<longleftrightarrow> c \<in> {FailConnect, FailTimeout, FailOverloaded, FailTemporary}"

definition counts_toward_breaker :: "upstream_failure_class \<Rightarrow> bool" where
  "counts_toward_breaker c \<longleftrightarrow> c \<noteq> FailPermanent"

section \<open>Retry budget\<close>

record retry_budget_snapshot =
  rs_base_request_count :: nat
  rs_retry_count :: nat
  rs_remaining_retry_tokens :: nat

record retry_decision =
  rd_allowed :: bool
  rd_remaining_retry_tokens :: nat

record retry_budget =
  rb_policy :: retry_budget_policy
  rb_window_started :: duration
  rb_base_request_count :: nat
  rb_retry_count :: nat
  rb_exhausted_count :: nat

definition retry_budget_new :: "retry_budget_policy \<Rightarrow> (retry_budget, failure_management_error) result" where
  "retry_budget_new p =
     (if rp_window p = 0 then Err ZeroRetryWindow
      else Ok \<lparr>rb_policy = p, rb_window_started = 0, rb_base_request_count = 0,
               rb_retry_count = 0, rb_exhausted_count = 0\<rparr>)"

definition reset_retry_window_if_needed :: "duration \<Rightarrow> retry_budget \<Rightarrow> retry_budget" where
  "reset_retry_window_if_needed now b =
     (if now - rb_window_started b \<ge> rp_window (rb_policy b)
      then b\<lparr>rb_window_started := now, rb_base_request_count := 0, rb_retry_count := 0\<rparr>
      else b)"

text \<open>The product of two \<open>u64\<close> wraps around in a release build.\<close>

definition retry_capacity :: "retry_budget \<Rightarrow> nat" where
  "retry_capacity b =
     sat_add 64 (cast_to 64 (rb_base_request_count b * rp_retry_percent (rb_policy b)) div 100)
       (rp_min_retry_tokens (rb_policy b))"

definition budget_record_base_request :: "duration \<Rightarrow> retry_budget \<Rightarrow> retry_budget" where
  "budget_record_base_request now b =
     (let b = reset_retry_window_if_needed now b
      in b\<lparr>rb_base_request_count := sat_add 64 (rb_base_request_count b) 1\<rparr>)"

definition budget_allow_retry :: "duration \<Rightarrow> retry_budget \<Rightarrow> retry_decision \<times> retry_budget" where
  "budget_allow_retry now b =
     (let b = reset_retry_window_if_needed now b;
          available = retry_capacity b - rb_retry_count b
      in if available = 0
         then (\<lparr>rd_allowed = False, rd_remaining_retry_tokens = 0\<rparr>,
               b\<lparr>rb_exhausted_count := wrap_add 64 (rb_exhausted_count b) 1\<rparr>)
         else (\<lparr>rd_allowed = True, rd_remaining_retry_tokens = available - 1\<rparr>,
               b\<lparr>rb_retry_count := sat_add 64 (rb_retry_count b) 1\<rparr>))"

definition budget_snapshot :: "duration \<Rightarrow> retry_budget \<Rightarrow> retry_budget_snapshot \<times> retry_budget" where
  "budget_snapshot now b =
     (let b = reset_retry_window_if_needed now b
      in (\<lparr>rs_base_request_count = rb_base_request_count b,
           rs_retry_count = rb_retry_count b,
           rs_remaining_retry_tokens = retry_capacity b - rb_retry_count b\<rparr>, b))"

section \<open>Circuit breaker\<close>

record circuit_breaker_policy =
  bp_open_failure_threshold :: nat
  bp_open_duration :: duration
  bp_half_open_success_threshold :: nat

definition breaker_policy_default :: circuit_breaker_policy where
  "breaker_policy_default =
     \<lparr>bp_open_failure_threshold = 3, bp_open_duration = secs 30, bp_half_open_success_threshold = 2\<rparr>"

datatype circuit_breaker_state = Closed | Open | HalfOpen

record circuit_breaker_snapshot =
  bs_state :: circuit_breaker_state
  bs_remaining_open_duration :: "duration option"
  bs_consecutive_failures :: nat
  bs_half_open_successes :: nat

datatype failure_event_kind = BreakerOpened | BreakerHalfOpened | BreakerClosed

record failure_management_event =
  fe_kind :: failure_event_kind
  fe_scope :: string
  fe_detail :: string

definition MAX_FAILURE_EVENTS :: nat where
  "MAX_FAILURE_EVENTS = 64"

record circuit_breaker_record =
  cr_state :: circuit_breaker_state
  cr_consecutive_failures :: nat
  cr_half_open_successes :: nat
  cr_opened_at :: duration
  cr_half_open_admitted :: nat
  cr_half_open_window_started :: duration

record circuit_breaker =
  cb_policy :: circuit_breaker_policy
  cb_record :: circuit_breaker_record
  cb_state_change_count :: nat
  cb_open_rejection_count :: nat
  cb_events :: "failure_management_event list"

abbreviation cb_state :: "circuit_breaker \<Rightarrow> circuit_breaker_state" where
  "cb_state b \<equiv> cr_state (cb_record b)"

definition breaker_new :: "circuit_breaker_policy \<Rightarrow> (circuit_breaker, failure_management_error) result" where
  "breaker_new p =
     (if bp_open_failure_threshold p = 0 \<or> bp_half_open_success_threshold p = 0 \<or> bp_open_duration p = 0
      then Err InvalidBreakerThreshold
      else Ok \<lparr>cb_policy = p,
               cb_record = \<lparr>cr_state = Closed, cr_consecutive_failures = 0,
                            cr_half_open_successes = 0, cr_opened_at = 0,
                            cr_half_open_admitted = 0, cr_half_open_window_started = 0\<rparr>,
               cb_state_change_count = 0, cb_open_rejection_count = 0, cb_events = []\<rparr>)"

definition update_record ::
  "(circuit_breaker_record \<Rightarrow> circuit_breaker_record) \<Rightarrow> circuit_breaker \<Rightarrow> circuit_breaker" where
  "update_record f b = b\<lparr>cb_record := f (cb_record b)\<rparr>"

definition transition_breaker_state ::
  "circuit_breaker_state \<Rightarrow> failure_event_kind \<Rightarrow> string \<Rightarrow> circuit_breaker \<Rightarrow> circuit_breaker" where
  "transition_breaker_state new_state kind detail b =
     (if cb_state b = new_state then b
      else b\<lparr>cb_record := (cb_record b)\<lparr>cr_state := new_state\<rparr>,
             cb_state_change_count := wrap_add 64 (cb_state_change_count b) 1,
             cb_events := push_bounded MAX_FAILURE_EVENTS (cb_events b)
               \<lparr>fe_kind = kind, fe_scope = ''upstream'', fe_detail = detail\<rparr>\<rparr>)"

definition count_open_rejection :: "circuit_breaker \<Rightarrow> circuit_breaker" where
  "count_open_rejection b = b\<lparr>cb_open_rejection_count := wrap_add 64 (cb_open_rejection_count b) 1\<rparr>"

definition restart_probe_window :: "duration \<Rightarrow> circuit_breaker \<Rightarrow> circuit_breaker" where
  "restart_probe_window now =
     update_record (\<lambda>r. r\<lparr>cr_half_open_admitted := 0, cr_half_open_window_started := now\<rparr>)"

definition half_open_if_cooled :: "duration \<Rightarrow> circuit_breaker \<Rightarrow> circuit_breaker" where
  "half_open_if_cooled now b =
     (if cb_state b = Open \<and> now - cr_opened_at (cb_record b) \<ge> bp_open_duration (cb_policy b)
      then restart_probe_window now
             (transition_breaker_state HalfOpen BreakerHalfOpened
                ''breaker cool-down elapsed; allowing probe traffic'' b)
      else b)"

definition admit_probe :: "duration \<Rightarrow> circuit_breaker \<Rightarrow> bool \<times> circuit_breaker" where
  "admit_probe now b =
     (let b = (if now - cr_half_open_window_started (cb_record b) \<ge> bp_open_duration (cb_policy b)
               then restart_probe_window now b else b);
          probe_budget = bp_half_open_success_threshold (cb_policy b) - cr_half_open_successes (cb_record b)
      in if cr_half_open_admitted (cb_record b) < probe_budget
         then (True, update_record (\<lambda>r. r\<lparr>cr_half_open_admitted := cr_half_open_admitted r + 1\<rparr>) b)
         else (False, count_open_rejection b))"

definition breaker_allow_request :: "duration \<Rightarrow> circuit_breaker \<Rightarrow> bool \<times> circuit_breaker" where
  "breaker_allow_request now b =
     (let b = half_open_if_cooled now b
      in case cb_state b of
           Open \<Rightarrow> (False, count_open_rejection b)
         | HalfOpen \<Rightarrow> admit_probe now b
         | Closed \<Rightarrow> (True, b))"

definition breaker_record_success :: "circuit_breaker \<Rightarrow> circuit_breaker" where
  "breaker_record_success b =
     (case cb_state b of
        Closed \<Rightarrow> update_record (\<lambda>r. r\<lparr>cr_consecutive_failures := 0\<rparr>) b
      | Open \<Rightarrow> b
      | HalfOpen \<Rightarrow>
          (let b = update_record
                 (\<lambda>r. r\<lparr>cr_half_open_successes := sat_add 32 (cr_half_open_successes r) 1\<rparr>) b
           in if cr_half_open_successes (cb_record b) \<ge> bp_half_open_success_threshold (cb_policy b)
              then update_record (\<lambda>r. r\<lparr>cr_consecutive_failures := 0, cr_half_open_successes := 0\<rparr>)
                     (transition_breaker_state Closed BreakerClosed
                        ''breaker recovered after successful half-open probes'' b)
              else b))"

definition breaker_record_failure ::
  "duration \<Rightarrow> upstream_failure_class \<Rightarrow> circuit_breaker \<Rightarrow> circuit_breaker" where
  "breaker_record_failure now class b =
     (if \<not> counts_toward_breaker class then b
      else case cb_state b of
        Closed \<Rightarrow>
          (let b = update_record
                 (\<lambda>r. r\<lparr>cr_consecutive_failures := sat_add 32 (cr_consecutive_failures r) 1\<rparr>) b
           in if cr_consecutive_failures (cb_record b) \<ge> bp_open_failure_threshold (cb_policy b)
              then update_record (\<lambda>r. r\<lparr>cr_half_open_successes := 0\<rparr>)
                     (transition_breaker_state Open BreakerOpened
                        ''breaker opened after repeated upstream failures''
                        (update_record (\<lambda>r. r\<lparr>cr_opened_at := now\<rparr>) b))
              else b)
      | HalfOpen \<Rightarrow>
          update_record (\<lambda>r. r\<lparr>cr_consecutive_failures := bp_open_failure_threshold (cb_policy b),
                                cr_half_open_successes := 0\<rparr>)
            (transition_breaker_state Open BreakerOpened
               ''breaker re-opened after failed half-open probe''
               (update_record (\<lambda>r. r\<lparr>cr_opened_at := now\<rparr>) b))
      | Open \<Rightarrow> update_record (\<lambda>r. r\<lparr>cr_opened_at := now\<rparr>) b)"

definition breaker_snapshot :: "duration \<Rightarrow> circuit_breaker \<Rightarrow> circuit_breaker_snapshot" where
  "breaker_snapshot now b =
     (let r = cb_record b
      in \<lparr>bs_state = cr_state r,
          bs_remaining_open_duration =
            (if cr_state r = Open
             then Some (bp_open_duration (cb_policy b) - (now - cr_opened_at r)) else None),
          bs_consecutive_failures = cr_consecutive_failures r,
          bs_half_open_successes = cr_half_open_successes r\<rparr>)"

section \<open>Failure manager\<close>

record failure_manager =
  fm_retry_budget :: retry_budget
  fm_timeout_hierarchy :: timeout_hierarchy
  fm_circuit_breaker :: circuit_breaker
  fm_timeout_category_counts :: "(timeout_category, nat) btree_map"

record failure_management_metrics =
  fmm_retry_budget_exhausted_count :: nat
  fmm_breaker_state_change_count :: nat
  fmm_breaker_open_rejection_count :: nat
  fmm_timeout_category_counts :: "(timeout_category, nat) btree_map"

definition failure_manager_new ::
  "retry_budget_policy \<Rightarrow> timeout_hierarchy \<Rightarrow> circuit_breaker_policy \<Rightarrow>
     (failure_manager, failure_management_error) result" where
  "failure_manager_new rp th bp =
     and_then (timeouts_validate th) (\<lambda>_.
     and_then (retry_budget_new rp) (\<lambda>rb.
     and_then (breaker_new bp) (\<lambda>cb.
     Ok \<lparr>fm_retry_budget = rb, fm_timeout_hierarchy = th, fm_circuit_breaker = cb,
         fm_timeout_category_counts = []\<rparr>)))"

definition fm_record_base_request :: "duration \<Rightarrow> failure_manager \<Rightarrow> failure_manager" where
  "fm_record_base_request now m =
     m\<lparr>fm_retry_budget := budget_record_base_request now (fm_retry_budget m)\<rparr>"

definition fm_allow_retry ::
  "duration \<Rightarrow> upstream_failure_class \<Rightarrow> failure_manager \<Rightarrow> retry_decision \<times> failure_manager" where
  "fm_allow_retry now failure m =
     (if \<not> is_retryable failure
      then (\<lparr>rd_allowed = False, rd_remaining_retry_tokens = 0\<rparr>, m)
      else case budget_allow_retry now (fm_retry_budget m) of
             (d, rb) \<Rightarrow> (d, m\<lparr>fm_retry_budget := rb\<rparr>))"

definition fm_effective_timeout :: "failure_manager \<Rightarrow> timeout_category \<Rightarrow> duration" where
  "fm_effective_timeout m = effective_timeout (fm_timeout_hierarchy m)"

definition fm_record_timeout :: "timeout_category \<Rightarrow> failure_manager \<Rightarrow> failure_manager" where
  "fm_record_timeout c m =
     m\<lparr>fm_timeout_category_counts := bt_entry c 0 (\<lambda>n. wrap_add 64 n 1) (fm_timeout_category_counts m)\<rparr>"

definition fm_allow_request :: "duration \<Rightarrow> failure_manager \<Rightarrow> bool \<times> failure_manager" where
  "fm_allow_request now m =
     (case breaker_allow_request now (fm_circuit_breaker m) of
        (allowed, cb) \<Rightarrow> (allowed, m\<lparr>fm_circuit_breaker := cb\<rparr>))"

definition fm_record_success :: "failure_manager \<Rightarrow> failure_manager" where
  "fm_record_success m = m\<lparr>fm_circuit_breaker := breaker_record_success (fm_circuit_breaker m)\<rparr>"

definition fm_record_failure ::
  "duration \<Rightarrow> upstream_failure_class \<Rightarrow> failure_manager \<Rightarrow> failure_manager" where
  "fm_record_failure now class m =
     m\<lparr>fm_circuit_breaker := breaker_record_failure now class (fm_circuit_breaker m)\<rparr>"

definition fm_metrics :: "failure_manager \<Rightarrow> failure_management_metrics" where
  "fm_metrics m =
     \<lparr>fmm_retry_budget_exhausted_count = rb_exhausted_count (fm_retry_budget m),
      fmm_breaker_state_change_count = cb_state_change_count (fm_circuit_breaker m),
      fmm_breaker_open_rejection_count = cb_open_rejection_count (fm_circuit_breaker m),
      fmm_timeout_category_counts = fm_timeout_category_counts m\<rparr>"

definition fm_retry_budget_snapshot ::
  "duration \<Rightarrow> failure_manager \<Rightarrow> retry_budget_snapshot \<times> failure_manager" where
  "fm_retry_budget_snapshot now m =
     (case budget_snapshot now (fm_retry_budget m) of (s, rb) \<Rightarrow> (s, m\<lparr>fm_retry_budget := rb\<rparr>))"

definition fm_breaker_snapshot :: "duration \<Rightarrow> failure_manager \<Rightarrow> circuit_breaker_snapshot" where
  "fm_breaker_snapshot now m = breaker_snapshot now (fm_circuit_breaker m)"

section \<open>Timeouts\<close>

lemma timeouts_validate_Ok:
  "timeouts_validate t = Ok () \<longleftrightarrow>
     0 < th_connect_timeout t \<and> th_connect_timeout t \<le> th_attempt_timeout t \<and>
     0 < th_idle_timeout t \<and> th_idle_timeout t \<le> th_attempt_timeout t \<and>
     th_attempt_timeout t \<le> th_request_timeout t"
  by (auto simp: timeouts_validate_def)

section \<open>Runs of the retry budget\<close>

datatype budget_op = BaseRequest duration | RetryAttempt duration

primrec budget_op_time :: "budget_op \<Rightarrow> duration" where
  "budget_op_time (BaseRequest t) = t"
| "budget_op_time (RetryAttempt t) = t"

primrec is_base :: "budget_op \<Rightarrow> bool" where
  "is_base (BaseRequest t) = True"
| "is_base (RetryAttempt t) = False"

primrec budget_step :: "retry_budget \<Rightarrow> budget_op \<Rightarrow> bool \<times> retry_budget" where
  "budget_step b (BaseRequest t) = (False, budget_record_base_request t b)"
| "budget_step b (RetryAttempt t) = map_prod rd_allowed id (budget_allow_retry t b)"

text \<open>The number of retries a run grants, and the budget it leaves behind.\<close>

fun budget_run :: "retry_budget \<Rightarrow> budget_op list \<Rightarrow> nat \<times> retry_budget" where
  "budget_run b [] = (0, b)"
| "budget_run b (op # ops) =
     (case budget_step b op of (granted, b') \<Rightarrow>
        case budget_run b' ops of (n, b'') \<Rightarrow> (of_bool granted + n, b''))"

definition in_budget_window :: "retry_budget \<Rightarrow> duration \<Rightarrow> bool" where
  "in_budget_window b t \<longleftrightarrow> t - rb_window_started b < rp_window (rb_policy b)"

definition retry_tokens :: "retry_budget_policy \<Rightarrow> nat \<Rightarrow> nat" where
  "retry_tokens p bases = bases * rp_retry_percent p div 100 + rp_min_retry_tokens p"

lemma reset_in_window [simp]: "in_budget_window b t \<Longrightarrow> reset_retry_window_if_needed t b = b"
  by (simp add: reset_retry_window_if_needed_def in_budget_window_def)

lemma retry_capacity_le: "retry_capacity b \<le> retry_tokens (rb_policy b) (rb_base_request_count b)"
proof -
  have "retry_capacity b \<le> cast_to 64 (rb_base_request_count b * rp_retry_percent (rb_policy b)) div 100
      + rp_min_retry_tokens (rb_policy b)"
    unfolding retry_capacity_def by (rule sat_add_le_sum)
  also have "\<dots> \<le> retry_tokens (rb_policy b) (rb_base_request_count b)"
    unfolding retry_tokens_def by (intro add_right_mono div_le_mono cast_to_le)
  finally show ?thesis .
qed

lemma retry_tokens_mono: "m \<le> n \<Longrightarrow> retry_tokens p m \<le> retry_tokens p n"
  unfolding retry_tokens_def by (intro add_right_mono div_le_mono mult_right_mono) simp_all

lemma retry_capacity_max: "retry_capacity b \<le> uint_max 64"
  unfolding retry_capacity_def by (rule sat_add_le_max)

lemma budget_step_frame:
  "in_budget_window b (budget_op_time op) \<Longrightarrow>
     rb_policy (snd (budget_step b op)) = rb_policy b \<and>
     rb_window_started (snd (budget_step b op)) = rb_window_started b"
  by (cases op) (simp_all add: budget_record_base_request_def budget_allow_retry_def Let_def)

lemma budget_step_base:
  "in_budget_window b (budget_op_time op) \<Longrightarrow>
     rb_base_request_count (snd (budget_step b op)) \<le> rb_base_request_count b + of_bool (is_base op)"
  by (cases op)
    (simp_all add: budget_record_base_request_def budget_allow_retry_def Let_def sat_add_le_sum
      order_trans [OF sat_add_le_sum])

lemma budget_step_retry:
  assumes "in_budget_window b (budget_op_time op)"
  shows "rb_retry_count (snd (budget_step b op)) = rb_retry_count b + of_bool (fst (budget_step b op)) \<and>
    (fst (budget_step b op) \<longrightarrow> rb_retry_count b < retry_capacity b)"
proof (cases op)
  case (RetryAttempt t)
  have "sat_add 64 (rb_retry_count b) 1 = rb_retry_count b + 1" if "rb_retry_count b < retry_capacity b"
    using that retry_capacity_max [of b] by (intro sat_add_exact) simp
  with assms RetryAttempt show ?thesis
    by (simp add: budget_allow_retry_def Let_def)
qed (use assms in \<open>simp add: budget_record_base_request_def Let_def\<close>)

lemma in_budget_window_step:
  "in_budget_window b (budget_op_time op) \<Longrightarrow>
     in_budget_window (snd (budget_step b op)) t \<longleftrightarrow> in_budget_window b t"
  by (simp add: in_budget_window_def [of _ t] budget_step_frame)

lemma budget_run_grants:
  assumes "\<forall>op\<in>set ops. in_budget_window b (budget_op_time op)"
  shows "rb_retry_count b + fst (budget_run b ops)
    \<le> max (rb_retry_count b)
        (retry_tokens (rb_policy b) (rb_base_request_count b + length (filter is_base ops)))"
  using assms
proof (induction ops arbitrary: b)
  case (Cons op ops)
  let ?b = "snd (budget_step b op)" and ?g = "fst (budget_step b op)"
  have w: "in_budget_window b (budget_op_time op)" using Cons.prems by simp
  have pol: "rb_policy ?b = rb_policy b" using budget_step_frame [OF w] by simp
  have "rb_retry_count ?b + fst (budget_run ?b ops)
      \<le> max (rb_retry_count ?b)
          (retry_tokens (rb_policy b) (rb_base_request_count ?b + length (filter is_base ops)))"
    using Cons.IH [of ?b] Cons.prems by (simp add: in_budget_window_step [OF w] pol)
  also have "\<dots> \<le> max (rb_retry_count ?b)
      (retry_tokens (rb_policy b) (rb_base_request_count b + length (filter is_base (op # ops))))"
    using budget_step_base [OF w] by (intro max.mono retry_tokens_mono) auto
  also have "\<dots> \<le> max (rb_retry_count b)
      (retry_tokens (rb_policy b) (rb_base_request_count b + length (filter is_base (op # ops))))"
  proof -
    have "Suc (rb_retry_count b)
        \<le> retry_tokens (rb_policy b) (rb_base_request_count b + length (filter is_base (op # ops)))" if ?g
      using budget_step_retry [OF w] that retry_capacity_le [of b]
        retry_tokens_mono [of "rb_base_request_count b"
          "rb_base_request_count b + length (filter is_base (op # ops))" "rb_policy b"] by simp
    then show ?thesis using budget_step_retry [OF w] by (cases ?g) auto
  qed
  finally show ?case
    using budget_step_retry [OF w] by (simp add: case_prod_beta)
qed simp

text \<open>Within the bounds of the types the counters are exact, and so is the answer.\<close>

lemma budget_run_exact:
  assumes "\<forall>op\<in>set ops. in_budget_window b (budget_op_time op)"
    and "rb_base_request_count b + length (filter is_base ops) \<le> uint_max 64"
  shows "rb_retry_count (snd (budget_run b ops)) = rb_retry_count b + fst (budget_run b ops) \<and>
    rb_base_request_count (snd (budget_run b ops)) = rb_base_request_count b + length (filter is_base ops) \<and>
    rb_policy (snd (budget_run b ops)) = rb_policy b \<and>
    rb_window_started (snd (budget_run b ops)) = rb_window_started b"
  using assms
proof (induction ops arbitrary: b)
  case (Cons op ops)
  let ?b = "snd (budget_step b op)"
  have w: "in_budget_window b (budget_op_time op)" using Cons.prems by simp
  have base: "rb_base_request_count ?b = rb_base_request_count b + of_bool (is_base op)"
    using w Cons.prems(2)
    by (cases op) (simp_all add: budget_record_base_request_def budget_allow_retry_def Let_def sat_add_exact)
  have "rb_base_request_count ?b + length (filter is_base ops) \<le> uint_max 64"
    using Cons.prems(2) base by (auto split: if_splits)
  then show ?case
    using Cons.IH [of ?b] Cons.prems(1) base budget_step_retry [OF w] budget_step_frame [OF w]
    by (simp add: in_budget_window_step [OF w] case_prod_beta)
qed simp

lemma retry_capacity_exact:
  assumes "rb_base_request_count b < 2 ^ 48" and "rp_retry_percent (rb_policy b) < 2 ^ 8"
    and "rp_min_retry_tokens (rb_policy b) < 2 ^ 32"
  shows "retry_capacity b = retry_tokens (rb_policy b) (rb_base_request_count b)"
proof -
  have "rb_base_request_count b * rp_retry_percent (rb_policy b) < 2 ^ 48 * 2 ^ 8"
    using assms(1,2) by (intro mult_strict_mono) simp_all
  then have c: "rb_base_request_count b * rp_retry_percent (rb_policy b) < 72057594037927936" by simp
  then have "cast_to 64 (rb_base_request_count b * rp_retry_percent (rb_policy b))
      = rb_base_request_count b * rp_retry_percent (rb_policy b)"
    by (intro cast_to_id) simp
  moreover have "rb_base_request_count b * rp_retry_percent (rb_policy b) div 100
      \<le> rb_base_request_count b * rp_retry_percent (rb_policy b)" by simp
  ultimately show ?thesis
    using assms(3) c unfolding retry_capacity_def retry_tokens_def
    by (simp add: sat_add_def uint_max_def)
qed

lemma budget_allow_retry_answer:
  "in_budget_window b t \<Longrightarrow>
     rd_allowed (fst (budget_allow_retry t b)) \<longleftrightarrow> rb_retry_count b < retry_capacity b"
  by (auto simp: budget_allow_retry_def Let_def)

text \<open>
  C30. The retry budget is exact: in one window that starts empty, whatever the order of
  requests and retries, the number of granted retries never exceeds the minimum tokens plus
  the configured percentage of the requests seen so far, and a retry is refused only when
  that many have been granted.
\<close>

theorem retry_budget_exact:
  assumes "rb_base_request_count b = 0" and "rb_retry_count b = 0"
    and "\<forall>op\<in>set ops. in_budget_window b (budget_op_time op)" and "in_budget_window b t"
    and "rp_retry_percent (rb_policy b) < 2 ^ 8" and "rp_min_retry_tokens (rb_policy b) < 2 ^ 32"
    and "length ops < 2 ^ 48"
  shows "fst (budget_run b ops) \<le> retry_tokens (rb_policy b) (length (filter is_base ops)) \<and>
    (rd_allowed (fst (budget_allow_retry t (snd (budget_run b ops)))) \<longleftrightarrow>
       fst (budget_run b ops) < retry_tokens (rb_policy b) (length (filter is_base ops)))"
proof -
  let ?b = "snd (budget_run b ops)"
  have len: "length (filter is_base ops) < 2 ^ 48"
    using assms(7) length_filter_le [of is_base ops] by linarith
  then have "length (filter is_base ops) \<le> uint_max 64" by (simp add: uint_max_def)
  then have run: "rb_retry_count ?b = fst (budget_run b ops)"
    "rb_base_request_count ?b = length (filter is_base ops)" "rb_policy ?b = rb_policy b"
    "rb_window_started ?b = rb_window_started b"
    using budget_run_exact [OF assms(3)] assms(1,2) by simp_all
  moreover have "retry_capacity ?b = retry_tokens (rb_policy b) (length (filter is_base ops))"
    using retry_capacity_exact [of ?b] assms(5,6) len run by simp
  moreover have "in_budget_window ?b t"
    using assms(4) run by (simp add: in_budget_window_def)
  ultimately show ?thesis
    using budget_run_grants [OF assms(3)] assms(1,2) by (simp add: budget_allow_retry_answer)
qed

definition sample_budget :: retry_budget where
  "sample_budget =
     \<lparr>rb_policy = \<lparr>rp_min_retry_tokens = 1, rp_retry_percent = 50, rp_window = secs 10\<rparr>,
      rb_window_started = 0, rb_base_request_count = 0, rb_retry_count = 0, rb_exhausted_count = 0\<rparr>"

theorem retry_budget_exact_witness:
  "fst (budget_run sample_budget [BaseRequest 0, BaseRequest 1, RetryAttempt 2, RetryAttempt 3]) = 2 \<and>
   \<not> rd_allowed (fst (budget_allow_retry 4
       (snd (budget_run sample_budget [BaseRequest 0, BaseRequest 1, RetryAttempt 2, RetryAttempt 3]))))"
proof -
  let ?ops = "[BaseRequest 0, BaseRequest 1, RetryAttempt 2, RetryAttempt 3]"
  have "fst (budget_run sample_budget ?ops) = 2" by code_simp
  moreover have "\<forall>op\<in>set ?ops. in_budget_window sample_budget (budget_op_time op)"
    "in_budget_window sample_budget 4"
    by (simp_all add: in_budget_window_def sample_budget_def secs_def)
  ultimately show ?thesis
    using retry_budget_exact [of sample_budget ?ops 4]
    by (simp add: sample_budget_def retry_tokens_def)
qed

section \<open>The breaker as a state machine\<close>

datatype breaker_op =
    AllowRequest duration
  | RecordSuccess
  | RecordFailure duration upstream_failure_class

fun breaker_step :: "circuit_breaker \<Rightarrow> breaker_op \<Rightarrow> bool option \<times> circuit_breaker" where
  "breaker_step b (AllowRequest t) = map_prod Some id (breaker_allow_request t b)"
| "breaker_step b RecordSuccess = (None, breaker_record_success b)"
| "breaker_step b (RecordFailure t c) = (None, breaker_record_failure t c b)"

text \<open>The number of requests a run admits, and the breaker it leaves behind.\<close>

fun breaker_run :: "circuit_breaker \<Rightarrow> breaker_op list \<Rightarrow> nat \<times> circuit_breaker" where
  "breaker_run b [] = (0, b)"
| "breaker_run b (op # ops) =
     (case breaker_step b op of (answer, b') \<Rightarrow>
        case breaker_run b' ops of (n, b'') \<Rightarrow> (of_bool (answer = Some True) + n, b''))"

lemmas breaker_defs =
  update_record_def transition_breaker_state_def count_open_rejection_def restart_probe_window_def
  half_open_if_cooled_def admit_probe_def breaker_allow_request_def breaker_record_success_def
  breaker_record_failure_def Let_def

text \<open>
  The transitions the breaker may take. Every other operation leaves the state as it is.
\<close>

inductive breaker_trans :: "circuit_breaker \<Rightarrow> breaker_op \<Rightarrow> circuit_breaker_state \<Rightarrow> bool" where
  trip: "cb_state b = Closed \<Longrightarrow> counts_toward_breaker c \<Longrightarrow>
     bp_open_failure_threshold (cb_policy b) \<le> sat_add 32 (cr_consecutive_failures (cb_record b)) 1 \<Longrightarrow>
     breaker_trans b (RecordFailure t c) Open"
| cool: "cb_state b = Open \<Longrightarrow> bp_open_duration (cb_policy b) \<le> t - cr_opened_at (cb_record b) \<Longrightarrow>
     breaker_trans b (AllowRequest t) HalfOpen"
| relapse: "cb_state b = HalfOpen \<Longrightarrow> counts_toward_breaker c \<Longrightarrow>
     breaker_trans b (RecordFailure t c) Open"
| recover: "cb_state b = HalfOpen \<Longrightarrow>
     bp_half_open_success_threshold (cb_policy b) \<le> sat_add 32 (cr_half_open_successes (cb_record b)) 1 \<Longrightarrow>
     breaker_trans b RecordSuccess Closed"

inductive_cases breaker_transE: "breaker_trans b op s"
inductive_simps breaker_trans_allow: "breaker_trans b (AllowRequest t) s"
inductive_simps breaker_trans_success: "breaker_trans b RecordSuccess s"
inductive_simps breaker_trans_failure: "breaker_trans b (RecordFailure t c) s"

lemmas breaker_trans_simps = breaker_trans_allow breaker_trans_success breaker_trans_failure

lemma breaker_step_policy [simp]: "cb_policy (snd (breaker_step b op)) = cb_policy b"
  by (cases op) (auto simp: breaker_defs split: circuit_breaker_state.split)

lemma breaker_step_trans:
  "cb_state (snd (breaker_step b op)) = s \<and> s \<noteq> cb_state b \<longleftrightarrow> breaker_trans b op s"
  by (cases op; cases "cb_state b"; cases s) (auto simp: breaker_defs breaker_trans_simps)

lemma breaker_step_change_count:
  "cb_state_change_count (snd (breaker_step b op)) =
     (if \<exists>s. breaker_trans b op s then wrap_add 64 (cb_state_change_count b) 1 else cb_state_change_count b)"
  by (cases op; cases "cb_state b") (auto simp: breaker_defs breaker_trans_simps)

text \<open>
  C13. The circuit breaker moves only along its protocol: an operation changes the state
  exactly when one of the four transitions is enabled (enough counted failures open it, a
  request after the cool-down half-opens it, a counted failure re-opens it, enough
  successes close it), the new state is the one of that transition, and exactly these
  operations are counted as state changes.
\<close>

theorem breaker_refines_protocol:
  "(cb_state (snd (breaker_step b op)) = s \<and> s \<noteq> cb_state b \<longleftrightarrow> breaker_trans b op s) \<and>
   cb_state_change_count (snd (breaker_step b op)) =
     (if \<exists>s. breaker_trans b op s then wrap_add 64 (cb_state_change_count b) 1
      else cb_state_change_count b)"
  using breaker_step_trans breaker_step_change_count by blast

section \<open>Invariant of the breaker\<close>

definition breaker_wf :: "circuit_breaker \<Rightarrow> bool" where
  "breaker_wf b \<longleftrightarrow>
     0 < bp_open_failure_threshold (cb_policy b) \<and> bp_open_failure_threshold (cb_policy b) < 2 ^ 32 \<and>
     0 < bp_half_open_success_threshold (cb_policy b) \<and>
     bp_half_open_success_threshold (cb_policy b) < 2 ^ 32 \<and>
     0 < bp_open_duration (cb_policy b) \<and>
     (case cb_state b of
        Closed \<Rightarrow> cr_consecutive_failures (cb_record b) < bp_open_failure_threshold (cb_policy b) \<and>
                  cr_half_open_successes (cb_record b) = 0
      | Open \<Rightarrow> cr_consecutive_failures (cb_record b) = bp_open_failure_threshold (cb_policy b) \<and>
                cr_half_open_successes (cb_record b) = 0
      | HalfOpen \<Rightarrow> cr_half_open_successes (cb_record b) < bp_half_open_success_threshold (cb_policy b) \<and>
                    cr_half_open_admitted (cb_record b) \<le> bp_half_open_success_threshold (cb_policy b)) \<and>
     length (cb_events b) \<le> MAX_FAILURE_EVENTS \<and>
     cb_state_change_count b < 2 ^ 64 \<and> cb_open_rejection_count b < 2 ^ 64"

lemma breaker_new_wf:
  "breaker_new p = Ok b \<Longrightarrow> bp_open_failure_threshold p < 2 ^ 32 \<Longrightarrow>
     bp_half_open_success_threshold p < 2 ^ 32 \<Longrightarrow> breaker_wf b"
  by (auto simp: breaker_new_def breaker_wf_def split: if_splits)

lemma breaker_push_length:
  "length log \<le> MAX_FAILURE_EVENTS \<Longrightarrow> length (push_bounded MAX_FAILURE_EVENTS log e) \<le> MAX_FAILURE_EVENTS"
  by (rule push_bounded_length) (simp_all add: MAX_FAILURE_EVENTS_def)

lemma sat_add_one32: "n < m \<Longrightarrow> m < 2 ^ 32 \<Longrightarrow> sat_add 32 n 1 = Suc n"
  by (simp add: sat_add_def uint_max_def)

lemma breaker_wf_step: "breaker_wf b \<Longrightarrow> breaker_wf (snd (breaker_step b op))"
  by (cases op; cases "cb_state b")
    (auto simp: breaker_defs breaker_wf_def breaker_push_length sat_add_one32 [simplified])

interpretation breaker: invariant_machine "\<lambda>b op. snd (breaker_step b op)" "\<lambda>_. True" breaker_wf
  by unfold_locales (rule breaker_wf_step)

section \<open>Cool-down and probes\<close>

lemma open_step:
  assumes "cb_state b = Open" and "breaker_wf b"
    and "\<forall>t. op = AllowRequest t \<longrightarrow> t < cr_opened_at (cb_record b) + bp_open_duration (cb_policy b)"
  shows "cb_state (snd (breaker_step b op)) = Open \<and> fst (breaker_step b op) \<noteq> Some True \<and>
    (case op of
       RecordFailure t c \<Rightarrow>
         cr_opened_at (cb_record (snd (breaker_step b op))) =
           (if counts_toward_breaker c then t else cr_opened_at (cb_record b))
     | _ \<Rightarrow> cr_opened_at (cb_record (snd (breaker_step b op))) = cr_opened_at (cb_record b))"
  using assms by (cases op) (auto simp: breaker_defs breaker_wf_def)

lemma half_open_step:
  assumes "cb_state b = HalfOpen" and "breaker_wf b"
    and "\<forall>t. op = AllowRequest t \<longrightarrow> t < cr_half_open_window_started (cb_record b) + bp_open_duration (cb_policy b)"
    and "op = RecordSuccess \<longrightarrow>
      Suc (cr_half_open_successes (cb_record b)) < bp_half_open_success_threshold (cb_policy b)"
    and "\<forall>t c. op = RecordFailure t c \<longrightarrow> \<not> counts_toward_breaker c"
  shows "let r = cb_record b; r' = cb_record (snd (breaker_step b op)) in
    cr_state r' = HalfOpen \<and>
    cr_half_open_window_started r' = cr_half_open_window_started r \<and>
    cr_half_open_admitted r' = cr_half_open_admitted r + of_bool (fst (breaker_step b op) = Some True) \<and>
    (fst (breaker_step b op) = Some True \<longrightarrow>
       cr_half_open_admitted r' \<le> bp_half_open_success_threshold (cb_policy b)) \<and>
    cr_half_open_successes r' \<le> cr_half_open_successes r + of_bool (op = RecordSuccess)"
proof -
  have "sat_add 32 (cr_half_open_successes (cb_record b)) 1 \<le> Suc (cr_half_open_successes (cb_record b))"
    using sat_add_le_sum [of 32 "cr_half_open_successes (cb_record b)" 1] by simp
  with assms show ?thesis
    by (cases op) (auto simp: breaker_defs breaker_wf_def)
qed

text \<open>
  The period that starts when a breaker half-opens at \<open>w\<close>: as long as it has not closed, it
  is half-open with a count of admitted probes, or open again since a later time.
\<close>

definition probing :: "duration \<Rightarrow> nat \<Rightarrow> nat \<Rightarrow> circuit_breaker \<Rightarrow> bool" where
  "probing w admitted successes b \<longleftrightarrow>
     breaker_wf b \<and> admitted \<le> bp_half_open_success_threshold (cb_policy b) \<and>
     (if cb_state b = HalfOpen
      then cr_half_open_window_started (cb_record b) = w \<and>
           cr_half_open_admitted (cb_record b) = admitted \<and>
           cr_half_open_successes (cb_record b) \<le> successes
      else cb_state b = Open \<and> w \<le> cr_opened_at (cb_record b))"

definition op_within :: "duration \<Rightarrow> duration \<Rightarrow> breaker_op \<Rightarrow> bool" where
  "op_within lo hi op \<longleftrightarrow>
     (case op of AllowRequest t \<Rightarrow> lo \<le> t \<and> t < hi | RecordSuccess \<Rightarrow> True
      | RecordFailure t _ \<Rightarrow> lo \<le> t \<and> t < hi)"

lemma relapse_step:
  "cb_state b = HalfOpen \<Longrightarrow> counts_toward_breaker c \<Longrightarrow>
     cb_state (snd (breaker_step b (RecordFailure t c))) = Open \<and>
     cr_opened_at (cb_record (snd (breaker_step b (RecordFailure t c)))) = t"
  by (simp add: breaker_defs)

lemma probing_step:
  assumes "probing w a s b" and "op_within w (w + bp_open_duration (cb_policy b)) op"
    and "s + of_bool (op = RecordSuccess) < bp_half_open_success_threshold (cb_policy b)"
  shows "probing w (a + of_bool (fst (breaker_step b op) = Some True)) (s + of_bool (op = RecordSuccess))
    (snd (breaker_step b op))"
proof (cases "cb_state b = HalfOpen")
  case half: True
  have wf: "breaker_wf b" using assms(1) by (simp add: probing_def)
  note keep = breaker_wf_step [OF wf, of op] breaker_step_policy [of b op]
  show ?thesis
  proof (cases "\<exists>t c. op = RecordFailure t c \<and> counts_toward_breaker c")
    case True
    then obtain t c where "op = RecordFailure t c" "counts_toward_breaker c" by blast
    with half assms show ?thesis
      using relapse_step [OF half, of c t] keep by (simp add: probing_def op_within_def)
  next
    case False
    with half assms have "let r = cb_record b; r' = cb_record (snd (breaker_step b op)) in
      cr_state r' = HalfOpen \<and>
      cr_half_open_window_started r' = cr_half_open_window_started r \<and>
      cr_half_open_admitted r' = cr_half_open_admitted r + of_bool (fst (breaker_step b op) = Some True) \<and>
      (fst (breaker_step b op) = Some True \<longrightarrow>
         cr_half_open_admitted r' \<le> bp_half_open_success_threshold (cb_policy b)) \<and>
      cr_half_open_successes r' \<le> cr_half_open_successes r + of_bool (op = RecordSuccess)"
      by (intro half_open_step) (auto simp: probing_def op_within_def wf)
    with half assms(1) keep show ?thesis by (auto simp: probing_def Let_def)
  qed
next
  case False
  with assms have "cb_state b = Open" "breaker_wf b" "w \<le> cr_opened_at (cb_record b)"
    "\<forall>t. op = AllowRequest t \<longrightarrow> t < cr_opened_at (cb_record b) + bp_open_duration (cb_policy b)"
    by (auto simp: probing_def op_within_def)
  with open_step [of b op] assms breaker_wf_step [of b op] breaker_step_policy [of b op] show ?thesis
    by (cases op) (auto simp: probing_def op_within_def simp del: breaker_step_policy)
qed

lemma probing_run:
  assumes "probing w a s b"
    and "\<forall>op\<in>set ops. op_within w (w + bp_open_duration (cb_policy b)) op"
    and "s + count_list ops RecordSuccess < bp_half_open_success_threshold (cb_policy b)"
  shows "a + fst (breaker_run b ops) \<le> bp_half_open_success_threshold (cb_policy b) \<and>
    cb_state (snd (breaker_run b ops)) \<noteq> Closed"
  using assms
proof (induction ops arbitrary: a s b)
  case Nil
  then show ?case by (auto simp: probing_def split: if_splits)
next
  case (Cons op ops)
  let ?b = "snd (breaker_step b op)"
  have lt: "s + of_bool (op = RecordSuccess) < bp_half_open_success_threshold (cb_policy b)"
    using Cons.prems(3) by (auto split: if_splits)
  have "probing w (a + of_bool (fst (breaker_step b op) = Some True)) (s + of_bool (op = RecordSuccess)) ?b"
    using Cons.prems(1,2) lt by (intro probing_step) simp_all
  from Cons.IH [OF this] Cons.prems(2,3) show ?case
    by (auto simp: case_prod_beta split: if_splits)
qed

lemma half_opens:
  assumes "breaker_wf b" and "cb_state b = Open"
    and "cr_opened_at (cb_record b) + bp_open_duration (cb_policy b) \<le> t"
  shows "fst (breaker_allow_request t b) \<and> probing t 1 0 (snd (breaker_allow_request t b))"
proof -
  have "breaker_wf (snd (breaker_allow_request t b))"
    using breaker_wf_step [OF assms(1), of "AllowRequest t"] by simp
  with assms show ?thesis by (auto simp: breaker_defs probing_def breaker_wf_def)
qed

lemma open_run:
  assumes "breaker_wf b" and "cb_state b = Open" and "lo \<le> cr_opened_at (cb_record b)"
    and "\<forall>op\<in>set ops. op_within lo (lo + bp_open_duration (cb_policy b)) op"
  shows "fst (breaker_run b ops) = 0 \<and> cb_state (snd (breaker_run b ops)) = Open"
  using assms
proof (induction ops arbitrary: b)
  case (Cons op ops)
  let ?b = "snd (breaker_step b op)"
  have "\<forall>t. op = AllowRequest t \<longrightarrow> t < cr_opened_at (cb_record b) + bp_open_duration (cb_policy b)"
    using Cons.prems(3,4) by (auto simp: op_within_def)
  note st = open_step [OF Cons.prems(2,1) this]
  then have "lo \<le> cr_opened_at (cb_record ?b)"
    using Cons.prems(3,4) by (cases op) (auto simp: op_within_def)
  with st Cons.IH [of ?b] Cons.prems(1,4) show ?case
    by (simp add: case_prod_beta breaker_wf_step)
qed simp

definition sample_breaker :: circuit_breaker where
  "sample_breaker =
     \<lparr>cb_policy = breaker_policy_default,
      cb_record = \<lparr>cr_state = Open, cr_consecutive_failures = 3, cr_half_open_successes = 0,
                   cr_opened_at = 0, cr_half_open_admitted = 0, cr_half_open_window_started = 0\<rparr>,
      cb_state_change_count = 1, cb_open_rejection_count = 0, cb_events = []\<rparr>"

lemma sample_breaker_wf: "breaker_wf sample_breaker"
  by (simp add: sample_breaker_def breaker_wf_def breaker_policy_default_def secs_def)

text \<open>
  C33. An open breaker stays shut for its whole cool-down: whatever outcomes are reported in
  between, it admits no request before the cool-down is over, and it is still open then.
\<close>

theorem open_breaker_rejects:
  assumes "breaker_wf b" and "cb_state b = Open"
    and "\<forall>op\<in>set ops. op_within (cr_opened_at (cb_record b))
           (cr_opened_at (cb_record b) + bp_open_duration (cb_policy b)) op"
  shows "fst (breaker_run b ops) = 0 \<and> cb_state (snd (breaker_run b ops)) = Open"
  using assms by (intro open_run) simp_all

theorem open_breaker_rejects_witness:
  "fst (breaker_run sample_breaker
     [AllowRequest 1, RecordSuccess, RecordFailure 2 FailConnect, AllowRequest (secs 29)]) = 0"
  using open_breaker_rejects [of sample_breaker
      "[AllowRequest 1, RecordSuccess, RecordFailure 2 FailConnect, AllowRequest (secs 29)]"] sample_breaker_wf
  by (simp add: sample_breaker_def op_within_def breaker_policy_default_def secs_def)

text \<open>
  A breaker that has cooled down lets a bounded number of probes through: the first
  request after the cool-down is admitted, and from there on, for the length of another
  cool-down, as long as fewer successes are reported than are needed to close it, it admits
  at most as many requests as there are successes needed, whatever failures are reported.
\<close>

lemma half_open_probe_bound:
  assumes "breaker_wf b" and "cb_state b = Open"
    and "cr_opened_at (cb_record b) + bp_open_duration (cb_policy b) \<le> t"
    and "\<forall>op\<in>set ops. op_within t (t + bp_open_duration (cb_policy b)) op"
    and "count_list ops RecordSuccess < bp_half_open_success_threshold (cb_policy b)"
  shows "fst (breaker_allow_request t b) \<and>
    fst (breaker_run b (AllowRequest t # ops)) \<le> bp_half_open_success_threshold (cb_policy b) \<and>
    cb_state (snd (breaker_run b (AllowRequest t # ops))) \<noteq> Closed"
proof -
  have "cb_policy (snd (breaker_allow_request t b)) = cb_policy b"
    using breaker_step_policy [of b "AllowRequest t"] by simp
  then show ?thesis
    using half_opens [OF assms(1-3)] probing_run [of t 1 0 "snd (breaker_allow_request t b)" ops] assms(4,5)
    by (simp add: case_prod_beta)
qed

lemma recover_run:
  assumes "breaker_wf b" and "cb_state b = HalfOpen"
    and "cr_half_open_successes (cb_record b) + n = bp_half_open_success_threshold (cb_policy b)"
  shows "cb_state (snd (breaker_run b (replicate n RecordSuccess))) = Closed"
  using assms
proof (induction n arbitrary: b)
  case 0
  then show ?case by (simp add: breaker_wf_def)
next
  case (Suc n)
  let ?b = "snd (breaker_step b RecordSuccess)"
  have inc: "sat_add 32 (cr_half_open_successes (cb_record b)) 1 = Suc (cr_half_open_successes (cb_record b))"
    using Suc.prems(1,2) by (intro sat_add_one32) (auto simp: breaker_wf_def)
  show ?case
  proof (cases n)
    case 0
    with Suc.prems inc show ?thesis by (simp add: breaker_defs)
  next
    case (Suc m)
    with Suc.prems inc have "cb_state ?b = HalfOpen"
      "cr_half_open_successes (cb_record ?b) + n = bp_half_open_success_threshold (cb_policy ?b)"
      by (simp_all add: breaker_defs)
    from Suc.IH [OF breaker_wf_step [OF Suc.prems(1)] this] show ?thesis
      by (simp add: case_prod_beta)
  qed
qed

text \<open>
  C32. The breaker recovers: once the cool-down since the last counted failure is over, the
  next request is admitted, and when as many successes follow as the policy asks for, the
  breaker is closed.
\<close>

theorem breaker_recovers:
  assumes "breaker_wf b" and "cb_state b = Open"
    and "cr_opened_at (cb_record b) + bp_open_duration (cb_policy b) \<le> t"
  shows "fst (breaker_allow_request t b) \<and>
    cb_state (snd (breaker_run b (AllowRequest t #
      replicate (bp_half_open_success_threshold (cb_policy b)) RecordSuccess))) = Closed"
proof -
  let ?b = "snd (breaker_allow_request t b)"
  have "cb_policy ?b = cb_policy b"
    using breaker_step_policy [of b "AllowRequest t"] by simp
  moreover have "cb_state ?b = HalfOpen" "cr_half_open_successes (cb_record ?b) = 0" "breaker_wf ?b"
    using assms half_opens [OF assms] by (auto simp: breaker_defs breaker_wf_def probing_def)
  ultimately show ?thesis
    using half_opens [OF assms] recover_run [of ?b "bp_half_open_success_threshold (cb_policy b)"]
    by (simp add: case_prod_beta)
qed

theorem breaker_recovers_witness:
  "cb_state (snd (breaker_run sample_breaker [AllowRequest (secs 30), RecordSuccess, RecordSuccess])) = Closed"
  using breaker_recovers [of sample_breaker "secs 30"] sample_breaker_wf
  by (simp add: sample_breaker_def breaker_policy_default_def secs_def numeral_2_eq_2)

text \<open>
  C39. Probes that succeed use up the room for further probes twice: a half-open breaker whose
  admitted probes have all succeeded rejects the next request as soon as they make up half
  of the successes needed, although it needs more, until another cool-down is over.
\<close>

theorem half_open_probes_stall:
  assumes "cb_state b = HalfOpen"
    and "cr_half_open_admitted (cb_record b) = k" and "cr_half_open_successes (cb_record b) = k"
    and "bp_half_open_success_threshold (cb_policy b) \<le> 2 * k"
    and "t < cr_half_open_window_started (cb_record b) + bp_open_duration (cb_policy b)"
    and "cr_half_open_window_started (cb_record b) \<le> t"
  shows "\<not> fst (breaker_allow_request t b)"
  using assms by (auto simp: breaker_defs)

theorem half_open_probes_stall_witness:
  "\<not> fst (breaker_allow_request (secs 59)
      (snd (breaker_run sample_breaker [AllowRequest (secs 30), RecordSuccess])))"
proof -
  let ?b = "snd (breaker_run sample_breaker [AllowRequest (secs 30), RecordSuccess])"
  have "cb_record ?b = \<lparr>cr_state = HalfOpen, cr_consecutive_failures = 3, cr_half_open_successes = 1,
       cr_opened_at = 0, cr_half_open_admitted = 1, cr_half_open_window_started = 30000000000\<rparr>"
    "cb_policy ?b = breaker_policy_default"
    by (simp_all add: sample_breaker_def breaker_policy_default_def breaker_defs secs_def sat_add_def uint_max_def)
  then show ?thesis
    using half_open_probes_stall [of ?b 1 "secs 59"]
    by (simp add: breaker_policy_default_def secs_def)
qed

end
