(* ===== verification/Ip_Text.thy ===== *)
theory Ip_Text
  imports Net_Core
begin

text \<open>
  The \<open>Display\<close> rendering of IP addresses that the code uses to build keys: dotted decimal
  octets for version 4, and for version 6 the colon-separated hexadecimal segments with the
  first longest run of zero segments replaced by a double colon. The lemmas show that the
  rendering tells different addresses apart.
\<close>

section \<open>Digits\<close>

fun digits :: "nat \<Rightarrow> nat \<Rightarrow> nat \<Rightarrow> nat list" where
  "digits b 0 n = []"
| "digits b (Suc k) n = digits b k (n div b) @ [n mod b]"

definition undigits :: "nat \<Rightarrow> nat list \<Rightarrow> nat" where
  "undigits b = foldl (\<lambda>n d. n * b + d) 0"

definition octets :: "32 word \<Rightarrow> nat list" where
  "octets a = digits 256 4 (unat a)"

definition segments :: "128 word \<Rightarrow> nat list" where
  "segments a = digits 65536 8 (unat a)"

text \<open>\<open>Ipv6Addr::new\<close> from eight segments.\<close>

definition ipv6_new :: "nat list \<Rightarrow> 128 word" where
  "ipv6_new segs = word_of_nat (undigits 65536 segs)"

lemma length_digits [simp]: "length (digits b k n) = k"
  by (induction k arbitrary: n) simp_all

lemma undigits_append: "undigits b (xs @ [d]) = undigits b xs * b + d"
  by (simp add: undigits_def)

lemma undigits_digits: "n < b ^ k \<Longrightarrow> undigits b (digits b k n) = n"
proof (induction k arbitrary: n)
  case (Suc k)
  then have "n div b < b ^ k"
    by (simp add: less_mult_imp_div_less mult.commute)
  with Suc.IH show ?case by (simp add: undigits_append)
qed (simp add: undigits_def)

lemma digits_undigits: "\<forall>d\<in>set xs. d < b \<Longrightarrow> digits b (length xs) (undigits b xs) = xs"
  by (induction xs rule: rev_induct) (simp_all add: undigits_append)

lemma undigits_less: "\<forall>d\<in>set xs. d < b \<Longrightarrow> undigits b xs < b ^ length xs"
proof (induction xs rule: rev_induct)
  case (snoc d xs)
  then have "undigits b xs * b + d < undigits b xs * b + b" by simp
  also have "\<dots> = Suc (undigits b xs) * b" by simp
  also have "\<dots> \<le> b ^ length xs * b" using snoc by (intro mult_right_mono) auto
  finally show ?case by (simp add: undigits_append mult.commute)
qed (simp add: undigits_def)

lemma digits_inj: "m < b ^ k \<Longrightarrow> n < b ^ k \<Longrightarrow> digits b k m = digits b k n \<longleftrightarrow> m = n"
  by (metis undigits_digits)

lemma digits_less: "0 < b \<Longrightarrow> d \<in> set (digits b k n) \<Longrightarrow> d < b"
  by (induction k arbitrary: n) auto

lemma take_digits: "j \<le> k \<Longrightarrow> take j (digits b k n) = digits b j (n div b ^ (k - j))"
proof (induction k arbitrary: n)
  case (Suc k)
  show ?case
  proof (cases "j = Suc k")
    case False
    with Suc.prems have "j \<le> k" by simp
    moreover from this have "n div b div b ^ (k - j) = n div b ^ (Suc k - j)"
      by (simp add: div_mult2_eq [symmetric] Suc_diff_le)
    ultimately show ?thesis using Suc.IH [of "n div b"] by simp
  qed simp
qed simp

lemma unat_less_pow: "unat (a :: 'a::len word) < 2 ^ LENGTH('a)"
  by (rule unsigned_less)

lemma octets_inj: "octets a = octets b \<longleftrightarrow> a = b"
proof -
  have "octets a = octets b \<longleftrightarrow> unat a = unat b"
    unfolding octets_def using unat_less_pow [of a] unat_less_pow [of b]
    by (intro digits_inj) simp_all
  then show ?thesis by (auto dest: unsigned_word_eqI)
qed

lemma segments_inj: "segments a = segments b \<longleftrightarrow> a = b"
proof -
  have "segments a = segments b \<longleftrightarrow> unat a = unat b"
    unfolding segments_def using unat_less_pow [of a] unat_less_pow [of b]
    by (intro digits_inj) simp_all
  then show ?thesis by (auto dest: unsigned_word_eqI)
qed

lemma length_segments [simp]: "length (segments a) = 8"
  by (simp add: segments_def)

lemma segments_ipv6_new:
  assumes "length segs = 8" and "\<forall>s\<in>set segs. s < 65536"
  shows "segments (ipv6_new segs) = segs"
proof -
  have "undigits 65536 segs < 65536 ^ length segs" using assms(2) by (rule undigits_less)
  with assms(1) have "unat (word_of_nat (undigits 65536 segs) :: 128 word) = undigits 65536 segs"
    by (simp add: unat_of_nat)
  with digits_undigits [OF assms(2)] assms(1) show ?thesis
    by (simp add: segments_def ipv6_new_def)
qed

section \<open>Numerals\<close>

definition digit_char :: "nat \<Rightarrow> char" where
  "digit_char d = (if d < 10 then char_of (48 + d) else char_of (87 + d))"

fun show_radix :: "nat \<Rightarrow> nat \<Rightarrow> string" where
  "show_radix b n =
     (if n < b \<or> b < 2 then [digit_char n] else show_radix b (n div b) @ [digit_char (n mod b)])"

declare show_radix.simps [simp del]

definition show_hex :: "nat \<Rightarrow> string" where
  "show_hex = show_radix 16"

lemma show_nat_radix: "show_nat n = show_radix 10 n"
proof (induction n rule: less_induct)
  case (less n)
  then show ?case
    by (subst show_nat.simps, subst show_radix.simps) (simp add: digit_char_def)
qed

lemma digit_char_inj: "i < 36 \<Longrightarrow> j < 36 \<Longrightarrow> digit_char i = digit_char j \<longleftrightarrow> i = j"
proof
  assume "i < 36" "j < 36" and e: "digit_char i = digit_char j"
  then have "of_char (digit_char i) = (of_char (digit_char j) :: nat)" by simp
  with \<open>i < 36\<close> \<open>j < 36\<close> show "i = j"
    by (auto simp: digit_char_def of_char_of split: if_splits)
qed simp

lemma show_radix_ne [simp]: "show_radix b n \<noteq> []" "[] \<noteq> show_radix b n"
  by (subst show_radix.simps, simp)+

lemma show_radix_inj:
  "2 \<le> b \<Longrightarrow> b \<le> 36 \<Longrightarrow> show_radix b m = show_radix b n \<longleftrightarrow> m = n"
proof (induction m arbitrary: n rule: less_induct)
  case (less m)
  show ?case
  proof
    assume e: "show_radix b m = show_radix b n"
    show "m = n"
    proof (cases "m < b"; cases "n < b")
      assume "\<not> m < b" "\<not> n < b"
      with e less.prems have "show_radix b (m div b) = show_radix b (n div b)"
        "digit_char (m mod b) = digit_char (n mod b)"
        by (simp_all add: show_radix.simps [of b m] show_radix.simps [of b n])
      moreover have "m div b < m" "m mod b < 36" "n mod b < 36"
        using \<open>\<not> m < b\<close> less.prems by (auto intro: less_le_trans [OF mod_less_divisor])
      ultimately have "m div b = n div b" "m mod b = n mod b"
        using less.IH less.prems by (auto simp: digit_char_inj)
      then show "m = n" by (metis div_mult_mod_eq)
    qed (use e less.prems in \<open>auto simp: show_radix.simps [of b m] show_radix.simps [of b n] digit_char_inj\<close>)
  qed simp
qed

definition alnum :: "char \<Rightarrow> bool" where
  "alnum c \<longleftrightarrow> (let n = of_char c :: nat in 48 \<le> n \<and> n \<le> 57 \<or> 97 \<le> n \<and> n \<le> 122)"

lemma digit_char_alnum: "d < 36 \<Longrightarrow> alnum (digit_char d)"
  by (auto simp: digit_char_def alnum_def of_char_of Let_def)

lemma show_radix_alnum: "2 \<le> b \<Longrightarrow> b \<le> 36 \<Longrightarrow> \<forall>c\<in>set (show_radix b n). alnum c"
proof (induction n rule: less_induct)
  case (less n)
  have "n mod b < 36" using less.prems by (auto intro: less_le_trans [OF mod_less_divisor])
  moreover have "\<forall>c\<in>set (show_radix b (n div b)). alnum c" if "\<not> n < b"
    using that less.prems by (intro less.IH) simp_all
  ultimately show ?case
    using less.prems by (subst show_radix.simps) (auto simp: digit_char_alnum)
qed

section \<open>Joined parts\<close>

fun join :: "char \<Rightarrow> string list \<Rightarrow> string" where
  "join c [] = []"
| "join c [x] = x"
| "join c (x # y # xs) = x @ c # join c (y # xs)"

lemma join_Cons: "join c (x # xs) = (if xs = [] then x else x @ c # join c xs)"
  by (cases xs) simp_all

lemma set_join: "set (join c xs) \<subseteq> insert c (\<Union>x\<in>set xs. set x)"
  by (induction c xs rule: join.induct) auto

lemma sep_mem_join: "2 \<le> length xs \<Longrightarrow> c \<in> set (join c xs)"
  by (cases xs rule: list.exhaust [case_product list.exhaust]) (auto simp: join_Cons Suc_le_length_iff)

lemma split_at_first:
  "c \<notin> set x \<Longrightarrow> c \<notin> set y \<Longrightarrow> x @ c # r = y @ c # t \<longleftrightarrow> x = y \<and> r = t"
proof (induction x arbitrary: y)
  case Nil
  then show ?case by (cases y) auto
next
  case (Cons a x)
  then show ?case by (cases y) auto
qed

definition plain :: "char \<Rightarrow> string list \<Rightarrow> bool" where
  "plain c xs \<longleftrightarrow> (\<forall>x\<in>set xs. x \<noteq> [] \<and> c \<notin> set x)"

lemma join_Nil_iff: "plain c xs \<Longrightarrow> join c xs = [] \<longleftrightarrow> xs = []"
  by (cases xs) (auto simp: join_Cons plain_def)

lemma join_inj: "plain c xs \<Longrightarrow> plain c ys \<Longrightarrow> join c xs = join c ys \<longleftrightarrow> xs = ys"
proof (induction xs arbitrary: ys)
  case Nil
  then show ?case using join_Nil_iff [of c ys] by auto
next
  case (Cons x xs)
  show ?case
  proof (cases ys)
    case Nil
    then show ?thesis using Cons.prems by (auto simp: join_Cons plain_def)
  next
    case (Cons y zs)
    have p: "c \<notin> set x" "c \<notin> set y" "plain c xs" "plain c zs"
      using Cons.prems \<open>ys = y # zs\<close> by (auto simp: plain_def)
    have "x \<noteq> y @ c # r" "y \<noteq> x @ c # r" "x @ c # r \<noteq> y" "y @ c # r \<noteq> x" for r
      using p(1,2) by auto
    then show ?thesis
      using Cons.IH [OF p(3,4)] p(1,2) \<open>ys = y # zs\<close> by (auto simp: join_Cons split_at_first)
  qed
qed

text \<open>A joined text has no double separator, and none at its ends.\<close>

definition tight :: "char \<Rightarrow> string \<Rightarrow> bool" where
  "tight c s \<longleftrightarrow> (\<nexists>u v. s = u @ [c, c] @ v) \<and> (\<nexists>u. s = u @ [c]) \<and> (\<nexists>u. s = c # u)"

lemma tight_append:
  assumes "x \<noteq> []" "c \<notin> set x" "tight c s" "s \<noteq> []"
  shows "tight c (x @ c # s)"
proof -
  have "x @ c # s \<noteq> u @ [c, c] @ v" for u v
  proof
    assume "x @ c # s = u @ [c, c] @ v"
    then consider w where "x @ w = u" "c # s = w @ [c, c] @ v" | w where "x = u @ w" "w @ c # s = [c, c] @ v"
      by (auto simp: append_eq_append_conv2)
    then show False
    proof cases
      case 1
      then show False using assms(3) by (cases w) (auto simp: tight_def)
    next
      case 2
      then show False using assms(2,3) by (cases w) (auto simp: tight_def)
    qed
  qed
  moreover have "x @ c # s \<noteq> u @ [c]" for u
    using assms(3,4) by (cases s rule: rev_cases) (auto simp: tight_def)
  moreover have "x @ c # s \<noteq> c # u" for u
    using assms(1,2) by (cases x) auto
  ultimately show ?thesis by (auto simp: tight_def)
qed

lemma tight_free: "c \<notin> set s \<Longrightarrow> tight c s"
  by (auto simp: tight_def)

lemma tight_join: "plain c xs \<Longrightarrow> tight c (join c xs)"
proof (induction xs)
  case Nil
  then show ?case by (simp add: tight_free)
next
  case (Cons x xs)
  then have "plain c xs" "x \<noteq> []" "c \<notin> set x" by (auto simp: plain_def)
  with Cons.IH join_Nil_iff [of c xs] show ?case
    by (auto simp: join_Cons tight_free intro: tight_append)
qed

lemma double_unique_le:
  assumes "tight c x'" and "x @ [c, c] @ y = x' @ [c, c] @ y'" and "length x \<le> length x'"
  shows "x = x' \<and> y = y'"
proof -
  from assms(2,3) obtain w where w: "x' = x @ w" "[c, c] @ y = w @ [c, c] @ y'"
    by (auto simp: append_eq_append_conv_if) (metis append_take_drop_id)
  have "w = []"
  proof (cases w)
    case (Cons a v)
    with w have "a = c" by simp
    show ?thesis
    proof (cases v)
      case Nil
      with Cons w \<open>a = c\<close> assms(1) show ?thesis by (auto simp: tight_def)
    next
      case (Cons b u)
      with \<open>w = a # v\<close> w \<open>a = c\<close> have "x' = x @ [c, c] @ u" by simp
      with assms(1) show ?thesis by (auto simp: tight_def)
    qed
  qed
  with w show ?thesis by simp
qed

lemma double_unique:
  "tight c x \<Longrightarrow> tight c x' \<Longrightarrow> x @ [c, c] @ y = x' @ [c, c] @ y' \<longleftrightarrow> x = x' \<and> y = y'"
  using double_unique_le [of c x' x y y'] double_unique_le [of c x x' y' y]
  by (metis nat_le_linear)

section \<open>Addresses\<close>

definition ipv4_show :: "32 word \<Rightarrow> string" where
  "ipv4_show a = join CHR ''.'' (map show_nat (octets a))"

text \<open>
  The scan for the first longest run of zero segments; a span is its start and its length.
\<close>

fun zero_span :: "nat \<Rightarrow> nat list \<Rightarrow> nat \<times> nat \<Rightarrow> nat \<times> nat \<Rightarrow> nat \<times> nat" where
  "zero_span i [] longest current = longest"
| "zero_span i (s # ss) longest current =
     (if s = 0
      then let current = (if snd current = 0 then i else fst current, snd current + 1)
           in zero_span (i + 1) ss (if snd current > snd longest then current else longest) current
      else zero_span (i + 1) ss longest (0, 0))"

definition fmt_subslice :: "nat list \<Rightarrow> string" where
  "fmt_subslice segs = join CHR '':'' (map show_hex segs)"

definition fmt_segments :: "nat list \<Rightarrow> string" where
  "fmt_segments segs =
     (case zero_span 0 segs (0, 0) (0, 0) of
        (start, len) \<Rightarrow>
          if len > 1
          then fmt_subslice (take start segs) @ ''::'' @ fmt_subslice (drop (start + len) segs)
          else fmt_subslice segs)"

definition ipv6_show :: "128 word \<Rightarrow> string" where
  "ipv6_show a =
     (case to_ipv4_mapped a of
        Some b \<Rightarrow> ''::ffff:'' @ ipv4_show b
      | None \<Rightarrow> fmt_segments (segments a))"

definition ip_show :: "ip_addr \<Rightarrow> string" where
  "ip_show ip = (case ip of V4 a \<Rightarrow> ipv4_show a | V6 a \<Rightarrow> ipv6_show a)"

definition span_ok :: "nat list \<Rightarrow> nat \<times> nat \<Rightarrow> bool" where
  "span_ok segs sp \<longleftrightarrow>
     fst sp + snd sp \<le> length segs \<and> (\<forall>j. fst sp \<le> j \<longrightarrow> j < fst sp + snd sp \<longrightarrow> segs ! j = 0)"

lemma span_ok_append: "span_ok xs sp \<Longrightarrow> span_ok (xs @ ys) sp"
  by (auto simp: span_ok_def nth_append)

lemma zero_span_ok:
  assumes "span_ok pre longest" and "span_ok pre current"
    and "snd current = 0 \<or> fst current + snd current = length pre"
  shows "span_ok (pre @ ss) (zero_span (length pre) ss longest current)"
  using assms
proof (induction ss arbitrary: pre longest current)
  case (Cons s ss)
  let ?cur = "(if snd current = 0 then length pre else fst current, snd current + 1)"
  have "span_ok (pre @ [s]) ?cur" if "s = 0"
    using Cons.prems(2,3) that by (auto simp: span_ok_def nth_append less_Suc_eq)
  then have "span_ok ((pre @ [0]) @ ss) (zero_span (length (pre @ [0])) ss
      (if snd ?cur > snd longest then ?cur else longest) ?cur)" if "s = 0"
    using that Cons.prems by (intro Cons.IH) (auto intro: span_ok_append)
  moreover have "span_ok ((pre @ [s]) @ ss) (zero_span (length (pre @ [s])) ss longest (0, 0))"
    using Cons.prems(1) by (intro Cons.IH) (auto simp: span_ok_def nth_append)
  ultimately show ?case by (auto simp: Let_def)
qed simp

lemma zero_span_full: "span_ok segs (zero_span 0 segs (0, 0) (0, 0))"
  using zero_span_ok [of "[]" "(0, 0)" "(0, 0)" segs] by (simp add: span_ok_def)

lemma span_split:
  assumes "span_ok segs (st, len)"
  shows "segs = take st segs @ replicate len 0 @ drop (st + len) segs"
proof -
  have "take len (drop st segs) = replicate len 0"
    using assms by (intro nth_equalityI) (auto simp: span_ok_def)
  then show ?thesis
    by (metis add.commute append_take_drop_id drop_drop)
qed

lemma alnum_not_sep: "alnum c \<Longrightarrow> c \<noteq> CHR '':'' \<and> c \<noteq> CHR ''.'' \<and> c \<noteq> CHR ''/''"
  by (auto simp: alnum_def Let_def)

lemma plain_hex: "plain CHR '':'' (map show_hex segs)"
  using show_radix_alnum [of 16] alnum_not_sep by (fastforce simp: plain_def show_hex_def)

lemma plain_dec: "plain CHR ''.'' (map show_nat ns)"
  using show_radix_alnum [of 10] alnum_not_sep by (fastforce simp: plain_def show_nat_radix)

lemma map_show_hex_inj: "map show_hex xs = map show_hex ys \<longleftrightarrow> xs = ys"
  by (rule inj_map_eq_map) (auto simp: inj_def show_hex_def show_radix_inj)

lemma map_show_nat_inj: "map show_nat xs = map show_nat ys \<longleftrightarrow> xs = ys"
  by (rule inj_map_eq_map) (auto simp: inj_def show_nat_radix show_radix_inj)

lemma fmt_subslice_inj: "fmt_subslice xs = fmt_subslice ys \<longleftrightarrow> xs = ys"
  by (simp add: fmt_subslice_def join_inj plain_hex map_show_hex_inj)

lemma fmt_subslice_tight: "tight CHR '':'' (fmt_subslice xs)"
  unfolding fmt_subslice_def by (rule tight_join) (rule plain_hex)

lemma fmt_segments_inj:
  assumes "length xs = length ys"
  shows "fmt_segments xs = fmt_segments ys \<longleftrightarrow> xs = ys"
proof
  assume e: "fmt_segments xs = fmt_segments ys"
  obtain s l where x: "zero_span 0 xs (0, 0) (0, 0) = (s, l)" by fastforce
  obtain t m where y: "zero_span 0 ys (0, 0) (0, 0) = (t, m)" by fastforce
  have not_double: "fmt_subslice zs \<noteq> u @ ''::'' @ v" for zs u v
    using fmt_subslice_tight [of zs] by (auto simp: tight_def)
  note sx = span_split [OF zero_span_full [of xs, unfolded x]]
  note sy = span_split [OF zero_span_full [of ys, unfolded y]]
  consider "l > 1" "m > 1" | "\<not> l > 1" "\<not> m > 1"
    using e not_double not_double [symmetric]
    by (fastforce simp: fmt_segments_def x y simp del: append_Cons split: if_splits)
  then show "xs = ys"
  proof cases
    case 1
    with e have eqs: "take s xs = take t ys" "drop (s + l) xs = drop (t + m) ys"
      using double_unique [OF fmt_subslice_tight fmt_subslice_tight]
      by (simp_all add: fmt_segments_def x y fmt_subslice_inj)
    have lx: "length xs = length (take s xs) + l + length (drop (s + l) xs)"
      using arg_cong [OF sx, of length] by simp
    have ly: "length ys = length (take t ys) + m + length (drop (t + m) ys)"
      using arg_cong [OF sy, of length] by simp
    have lm: "l = m" using lx [unfolded eqs] ly assms by linarith
    have "take s xs @ replicate l 0 @ drop (s + l) xs
        = take t ys @ replicate m 0 @ drop (t + m) ys"
      unfolding eqs unfolding lm by (rule refl)
    then show ?thesis by (rule trans [OF sx trans [OF _ sy [symmetric]]])
  next
    case 2
    with e show ?thesis by (simp add: fmt_segments_def x y fmt_subslice_inj)
  qed
qed simp

lemma ipv4_show_inj: "ipv4_show a = ipv4_show b \<longleftrightarrow> a = b"
  by (simp add: ipv4_show_def join_inj plain_dec map_show_nat_inj octets_inj)

lemma ipv6_show_inj:
  "to_ipv4_mapped a = None \<Longrightarrow> to_ipv4_mapped b = None \<Longrightarrow> ipv6_show a = ipv6_show b \<longleftrightarrow> a = b"
  by (simp add: ipv6_show_def fmt_segments_inj segments_inj)

lemma colon_fmt_segments: "length segs = 8 \<Longrightarrow> CHR '':'' \<in> set (fmt_segments segs)"
  using sep_mem_join [of "map show_hex segs" "CHR '':''"]
  by (cases "zero_span 0 segs (0, 0) (0, 0)") (simp add: fmt_segments_def fmt_subslice_def)

lemma colon_ipv6_show: "CHR '':'' \<in> set (ipv6_show a)"
  using colon_fmt_segments [of "segments a"] by (auto simp: ipv6_show_def split: option.split)

lemma colon_ipv4_show: "c \<noteq> CHR ''.'' \<Longrightarrow> \<not> alnum c \<Longrightarrow> c \<notin> set (ipv4_show a)"
  using set_join [of "CHR ''.''" "map show_nat (octets a)"] show_radix_alnum [of 10]
  by (auto simp: ipv4_show_def show_nat_radix)

lemma not_alnum_colon [simp]: "\<not> alnum CHR '':''" "\<not> alnum CHR ''/''" "\<not> alnum CHR ''.''"
  by (simp_all add: alnum_def)

lemma ip_show_inj:
  "ip_show (canonicalize_ip a) = ip_show (canonicalize_ip b) \<longleftrightarrow> canonicalize_ip a = canonicalize_ip b"
proof -
  have "ipv4_show x \<noteq> ipv6_show y" "ipv6_show y \<noteq> ipv4_show x" for x y
    using colon_ipv6_show [of y] colon_ipv4_show [of "CHR '':''" x] by auto
  then show ?thesis
    by (auto simp: ip_show_def canonicalize_ip_def ipv4_show_inj ipv6_show_inj
        split: ip_addr.splits option.splits)
qed

end
