(* ===== verification/Lease_Table.thy ===== *)
theory Lease_Table
  imports LB_Prelude
begin

text \<open>
  Tables that count the leases handed out per key, as the concurrency limiter and the source
  quota tracker keep them, and counters over a fixed window, as the rate limiter keeps them.

  A lease is a value whose destructor gives it back, so each lease is returned exactly once;
  a run carries the list of the leases that are out. The lemmas of the locale show that the
  table is the exact count of these leases, that no key and no number of keys goes beyond
  the bounds, and that nothing leaks when all leases are returned.
\<close>

datatype 'k lease_op = Acquire 'k | Drop 'k

fun lease_step ::
  "('k \<Rightarrow> 't \<Rightarrow> bool \<times> 't) \<Rightarrow> ('k \<Rightarrow> 't \<Rightarrow> 't) \<Rightarrow> 't \<times> 'k list \<Rightarrow> 'k lease_op \<Rightarrow> 't \<times> 'k list" where
  "lease_step acquire release (t, leases) (Acquire k) =
     (case acquire k t of (granted, t') \<Rightarrow> (t', if granted then k # leases else leases))"
| "lease_step acquire release (t, leases) (Drop k) =
     (if k \<in> set leases then (release k t, remove1 k leases) else (t, leases))"

lemma count_list_remove1: "k \<in> set xs \<Longrightarrow> count_list (remove1 k xs) j = (if j = k then count_list xs j - 1 else count_list xs j)"
  by (induction xs) (auto simp: count_list_0_iff)

lemma positive_counts: "{k. 0 < count_list xs k} = set xs"
  by (auto simp: count_list_0_iff neq0_conv [symmetric] simp del: neq0_conv)

locale lease_table =
  fixes ok :: "'t \<Rightarrow> bool"
    and held :: "'t \<Rightarrow> 'k \<Rightarrow> nat"
    and acquire :: "'k \<Rightarrow> 't \<Rightarrow> bool \<times> 't"
    and release :: "'k \<Rightarrow> 't \<Rightarrow> 't"
    and cap max_keys :: nat
  assumes acquire_ok: "ok t \<Longrightarrow> ok (snd (acquire k t))"
    and release_ok: "ok t \<Longrightarrow> ok (release k t)"
    and acquire_iff: "ok t \<Longrightarrow> fst (acquire k t) \<longleftrightarrow>
      held t k < cap \<and> (held t k = 0 \<longrightarrow> card {j. 0 < held t j} < max_keys)"
    and acquire_held: "ok t \<Longrightarrow> held (snd (acquire k t)) =
      (if fst (acquire k t) then (held t)(k := held t k + 1) else held t)"
    and release_held: "ok t \<Longrightarrow> held (release k t) = (held t)(k := held t k - 1)"
begin

definition ledger :: "'t \<times> 'k list \<Rightarrow> bool" where
  "ledger s \<longleftrightarrow> ok (fst s) \<and> held (fst s) = count_list (snd s) \<and>
     (\<forall>k. count_list (snd s) k \<le> cap) \<and> card (set (snd s)) \<le> max_keys"

lemma ledger_acquire: "ledger (t, ls) \<Longrightarrow> ledger (lease_step acquire release (t, ls) (Acquire k))"
proof -
  assume l: "ledger (t, ls)"
  then have ok: "ok t" and h: "held t = count_list ls" by (auto simp: ledger_def)
  obtain g t' where a: "acquire k t = (g, t')" by fastforce
  have g: "g \<longleftrightarrow> count_list ls k < cap \<and> (count_list ls k = 0 \<longrightarrow> card (set ls) < max_keys)"
    using acquire_iff [OF ok, of k] a h by (simp add: positive_counts)
  moreover have "held t' = (if g then (count_list ls)(k := count_list ls k + 1) else count_list ls)"
    using acquire_held [OF ok, of k] a h by simp
  moreover have "(count_list ls)(k := count_list ls k + 1) = count_list (k # ls)"
    by (auto simp: fun_eq_iff)
  moreover have "card (insert k (set ls)) \<le> max_keys" if g
  proof (cases "k \<in> set ls")
    case True
    with l show ?thesis by (simp add: ledger_def insert_absorb)
  next
    case False
    with g that show ?thesis by (simp add: count_list_0_iff)
  qed
  ultimately show ?thesis
    using l acquire_ok [OF ok, of k] a by (auto simp: ledger_def)
qed

lemma ledger_drop: "ledger (t, ls) \<Longrightarrow> ledger (lease_step acquire release (t, ls) (Drop k))"
proof -
  assume l: "ledger (t, ls)"
  then have ok: "ok t" and h: "held t = count_list ls" by (auto simp: ledger_def)
  have "card (set (remove1 k ls)) \<le> card (set ls)"
    by (rule card_mono) (simp_all add: set_remove1_subset)
  with l release_ok [OF ok, of k] release_held [OF ok, of k] show ?thesis
    by (auto simp: ledger_def fun_eq_iff h count_list_remove1 intro: order_trans diff_le_self
        dest: le_trans)
qed

lemma ledger_step: "ledger s \<Longrightarrow> ledger (lease_step acquire release s op)"
  by (cases s; cases op) (simp_all only: ledger_acquire ledger_drop)

lemma ledger_run: "ledger s \<Longrightarrow> ledger (foldl (lease_step acquire release) s ops)"
  by (induction ops arbitrary: s) (simp_all add: ledger_step)

lemma run_exact:
  assumes "ok t" and "held t = (\<lambda>_. 0)"
    and "foldl (lease_step acquire release) (t, []) ops = (t', leases)"
  shows "held t' = count_list leases \<and> (\<forall>k. count_list leases k \<le> cap) \<and>
    card (set leases) \<le> max_keys \<and>
    (\<forall>k. fst (acquire k t') \<longleftrightarrow>
       count_list leases k < cap \<and> (k \<notin> set leases \<longrightarrow> card (set leases) < max_keys))"
proof -
  have "ledger (t, [])" using assms(1,2) by (auto simp: ledger_def)
  with assms(3) have "ledger (t', leases)" using ledger_run [of "(t, [])" ops] by simp
  then show ?thesis
    by (auto simp: ledger_def acquire_iff positive_counts count_list_0_iff)
qed

lemma drop_all:
  "ledger (t, ls) \<Longrightarrow> held (fst (foldl (lease_step acquire release) (t, ls) (map Drop ls))) = (\<lambda>_. 0) \<and>
     ok (fst (foldl (lease_step acquire release) (t, ls) (map Drop ls)))"
proof (induction ls arbitrary: t)
  case Nil
  then show ?case by (simp add: ledger_def fun_eq_iff)
next
  case (Cons k ls)
  have "ledger (release k t, ls)" using ledger_drop [OF Cons.prems, of k] by simp
  from Cons.IH [OF this] show ?case by simp
qed

lemma run_no_leak:
  assumes "ok t" and "held t = (\<lambda>_. 0)"
    and "foldl (lease_step acquire release) (t, []) ops = (t', leases)"
  shows "held (fst (foldl (lease_step acquire release) (t', leases) (map Drop leases))) = (\<lambda>_. 0)"
proof -
  have "ledger (t, [])" using assms(1,2) by (auto simp: ledger_def)
  with assms(3) have "ledger (t', leases)" using ledger_run [of "(t, [])" ops] by simp
  then show ?thesis by (simp add: drop_all)
qed

end

section \<open>Counters over a fixed window\<close>

text \<open>
  A counter that starts over when its window has passed. Two windows can touch a given
  period of their length, so such a period sees at most twice the limit.
\<close>

fun window_run :: "(duration \<Rightarrow> 's \<Rightarrow> bool \<times> 's) \<Rightarrow> 's \<Rightarrow> duration list \<Rightarrow> nat \<times> 's" where
  "window_run step s [] = (0, s)"
| "window_run step s (t # ts) =
     (case step t s of (granted, s') \<Rightarrow>
        case window_run step s' ts of (n, s'') \<Rightarrow> (of_bool granted + n, s''))"

locale fixed_window =
  fixes started :: "'s \<Rightarrow> duration"
    and used :: "'s \<Rightarrow> nat"
    and step :: "duration \<Rightarrow> 's \<Rightarrow> bool \<times> 's"
    and window :: duration
    and limit :: nat
  assumes keep: "now - started s < window \<Longrightarrow>
      fst (step now s) = (used s < limit) \<and> started (snd (step now s)) = started s \<and>
      used (snd (step now s)) = used s + of_bool (used s < limit)"
    and restart: "window \<le> now - started s \<Longrightarrow>
      fst (step now s) = (0 < limit) \<and> started (snd (step now s)) = now \<and>
      used (snd (step now s)) = of_bool (0 < limit)"
begin

lemma same_window:
  "\<forall>t\<in>set ts. t - started s < window \<Longrightarrow> used s \<le> limit \<Longrightarrow>
     fst (window_run step s ts) = min (length ts) (limit - used s)"
proof (induction ts arbitrary: s)
  case (Cons t ts)
  have k: "fst (step t s) = (used s < limit)" "started (snd (step t s)) = started s"
    "used (snd (step t s)) = used s + of_bool (used s < limit)"
    using Cons.prems(1) keep [of t s] by simp_all
  have "fst (window_run step (snd (step t s)) ts) = min (length ts) (limit - used (snd (step t s)))"
    using Cons.prems k by (intro Cons.IH) auto
  then show ?case using k Cons.prems(2) by (auto simp: case_prod_beta min_def)
qed simp

lemma any_period:
  "\<forall>t\<in>set ts. lo \<le> t \<and> t < lo + window \<Longrightarrow> used s \<le> limit \<Longrightarrow>
     fst (window_run step s ts) \<le> (limit - used s) + limit"
proof (induction ts arbitrary: s)
  case (Cons t ts)
  show ?case
  proof (cases "window \<le> t - started s")
    case True
    note r = restart [OF True]
    have "\<forall>u\<in>set ts. u - started (snd (step t s)) < window"
    proof
      fix u assume "u \<in> set ts"
      with Cons.prems(1) have "lo \<le> t" "u < lo + window" "t < lo + window" by auto
      then show "u - started (snd (step t s)) < window" using r by simp
    qed
    then show ?thesis
      using r same_window [of ts "snd (step t s)"] by (auto simp: case_prod_beta)
  next
    case False
    then have k: "fst (step t s) = (used s < limit)" "started (snd (step t s)) = started s"
      "used (snd (step t s)) = used s + of_bool (used s < limit)"
      using keep [of t s] by simp_all
    have "fst (window_run step (snd (step t s)) ts) \<le> (limit - used (snd (step t s))) + limit"
      using Cons.prems k by (intro Cons.IH) auto
    then show ?thesis using k by (auto simp: case_prod_beta)
  qed
qed simp

end

end
