(* ===== verification/Source_Guards.thy ===== *)
theory Source_Guards
  imports Ip_Text Lease_Table
begin

text \<open>
  \<open>crates/runtime/src/source_guards.rs\<close>: the quota of active connections per source
  address or subnet, the guard on concurrent handshakes, and the state that combines them
  for a listener. The semaphore of the handshake guard comes from the tokio library; it is
  a record of operations, and what the code relies on is the predicate \<open>semaphore_laws\<close>.

  The lemmas show that two addresses share a quota exactly when they are in the same
  subnet, that the tracker counts the leases that are out, and that the quotas hold.
\<close>

section \<open>Policies and rejections\<close>

datatype source_aggregation = ExactIp | Ipv4Subnet24 | Ipv6Subnet64

record source_quota_policy =
  sq_aggregation :: source_aggregation
  sq_max_active_per_source :: nat
  sq_max_tracked_sources :: nat

record handshake_guard_policy =
  hg_max_inflight :: nat
  hg_timeout :: duration

record listener_abuse_protection_policy =
  ap_source_quota :: "source_quota_policy option"
  ap_handshake_guard :: "handshake_guard_policy option"

record listener_abuse_protection_snapshot =
  as_source_quota_rejections :: nat
  as_tracked_source_limit_rejections :: nat
  as_handshake_guard_rejections :: nat
  as_tracked_sources :: nat
  as_active_handshakes :: nat

datatype abuse_rejection_reason =
    SourceQuotaExceeded
  | TrackedSourceLimitReached
  | HandshakeLimitReached

fun abuse_code :: "abuse_rejection_reason \<Rightarrow> string" where
  "abuse_code SourceQuotaExceeded = ''source_quota_exceeded''"
| "abuse_code TrackedSourceLimitReached = ''tracked_source_limit_reached''"
| "abuse_code HandshakeLimitReached = ''handshake_limit_reached''"

fun abuse_detail :: "abuse_rejection_reason \<Rightarrow> string" where
  "abuse_detail SourceQuotaExceeded = ''source quota exhausted''"
| "abuse_detail TrackedSourceLimitReached = ''bounded source state exhausted''"
| "abuse_detail HandshakeLimitReached = ''handshake concurrency exhausted''"

section \<open>Source keys\<close>

fun key_of_ip :: "source_aggregation \<Rightarrow> ip_addr \<Rightarrow> string" where
  "key_of_ip Ipv4Subnet24 (V4 a) =
     join CHR ''.'' (map show_nat (take 3 (octets a))) @ ''.0/24''"
| "key_of_ip Ipv6Subnet64 (V6 a) =
     ipv6_show (ipv6_new (take 4 (segments a) @ [0, 0, 0, 0])) @ ''/64''"
| "key_of_ip _ ip = ip_show ip"

definition normalize_source_key :: "ip_addr \<Rightarrow> source_aggregation \<Rightarrow> string" where
  "normalize_source_key ip aggregation = key_of_ip aggregation (canonicalize_ip ip)"

section \<open>Source quota tracker\<close>

record source_quota_tracker =
  st_policy :: source_quota_policy
  st_active_by_source :: "(string, nat) btree_map"

definition tracker_new :: "source_quota_policy \<Rightarrow> source_quota_tracker" where
  "tracker_new p = \<lparr>st_policy = p, st_active_by_source = []\<rparr>"

text \<open>A lease carries the key that its destructor gives back.\<close>

definition tracker_acquire_key ::
  "string \<Rightarrow> source_quota_tracker \<Rightarrow> (string, abuse_rejection_reason) result \<times> source_quota_tracker" where
  "tracker_acquire_key key t =
     (case map_of (st_active_by_source t) key of
        Some active \<Rightarrow>
          if active \<ge> sq_max_active_per_source (st_policy t) then (Err SourceQuotaExceeded, t)
          else (Ok key, t\<lparr>st_active_by_source :=
                  bt_insert key (sat_add 64 active 1) (st_active_by_source t)\<rparr>)
      | None \<Rightarrow>
          if length (st_active_by_source t) \<ge> sq_max_tracked_sources (st_policy t)
          then (Err TrackedSourceLimitReached, t)
          else (Ok key, t\<lparr>st_active_by_source := bt_insert key 1 (st_active_by_source t)\<rparr>))"

definition tracker_try_acquire ::
  "socket_addr \<Rightarrow> source_quota_tracker \<Rightarrow> (string, abuse_rejection_reason) result \<times> source_quota_tracker" where
  "tracker_try_acquire peer t =
     tracker_acquire_key (normalize_source_key (sa_ip peer) (sq_aggregation (st_policy t))) t"

definition tracked_sources :: "source_quota_tracker \<Rightarrow> nat" where
  "tracked_sources t = length (st_active_by_source t)"

definition tracker_release :: "string \<Rightarrow> source_quota_tracker \<Rightarrow> source_quota_tracker" where
  "tracker_release key t =
     (case map_of (st_active_by_source t) key of
        None \<Rightarrow> t
      | Some active \<Rightarrow>
          t\<lparr>st_active_by_source :=
             (if active - 1 = 0 then bt_remove key (st_active_by_source t)
              else bt_insert key (active - 1) (st_active_by_source t))\<rparr>)"

section \<open>Handshake guard\<close>

record 's semaphore_ops =
  sem_new :: "nat \<Rightarrow> 's"
  sem_try_acquire :: "'s \<Rightarrow> 's option"
  sem_release :: "'s \<Rightarrow> 's"
  sem_available :: "'s \<Rightarrow> nat"

definition semaphore_laws :: "'s semaphore_ops \<Rightarrow> bool" where
  "semaphore_laws ops \<longleftrightarrow>
     (\<forall>n. sem_available ops (sem_new ops n) = n) \<and>
     (\<forall>s. sem_try_acquire ops s = None \<longleftrightarrow> sem_available ops s = 0) \<and>
     (\<forall>s s'. sem_try_acquire ops s = Some s' \<longrightarrow> Suc (sem_available ops s') = sem_available ops s) \<and>
     (\<forall>s. sem_available ops (sem_release ops s) = Suc (sem_available ops s))"

record 's handshake_guard =
  gd_semaphore :: 's
  gd_max_inflight :: nat
  gd_timeout :: duration

definition guard_new :: "'s semaphore_ops \<Rightarrow> handshake_guard_policy \<Rightarrow> 's handshake_guard" where
  "guard_new ops p =
     \<lparr>gd_semaphore = sem_new ops (hg_max_inflight p), gd_max_inflight = hg_max_inflight p,
      gd_timeout = hg_timeout p\<rparr>"

definition guard_try_acquire ::
  "'s semaphore_ops \<Rightarrow> 's handshake_guard \<Rightarrow> (unit, abuse_rejection_reason) result \<times> 's handshake_guard" where
  "guard_try_acquire ops g =
     (case sem_try_acquire ops (gd_semaphore g) of
        None \<Rightarrow> (Err HandshakeLimitReached, g)
      | Some s \<Rightarrow> (Ok (), g\<lparr>gd_semaphore := s\<rparr>))"

text \<open>
  A permit holds the semaphore permit in an option; \<open>release\<close> takes it out, so that the
  permit goes back once, by \<open>release\<close> or when the value is dropped.
\<close>

definition permit_release ::
  "'s semaphore_ops \<Rightarrow> bool \<times> 's handshake_guard \<Rightarrow> bool \<times> 's handshake_guard" where
  "permit_release ops pg =
     (if fst pg then (False, (snd pg)\<lparr>gd_semaphore := sem_release ops (gd_semaphore (snd pg))\<rparr>) else pg)"

definition active_handshakes :: "'s semaphore_ops \<Rightarrow> 's handshake_guard \<Rightarrow> nat" where
  "active_handshakes ops g = gd_max_inflight g - sem_available ops (gd_semaphore g)"

section \<open>Protection state of a listener\<close>

record 's abuse_protection =
  ab_source_quota :: "source_quota_tracker option"
  ab_handshake_guard :: "'s handshake_guard option"
  ab_source_quota_rejections :: nat
  ab_tracked_source_limit_rejections :: nat
  ab_handshake_guard_rejections :: nat

definition abuse_protection_new ::
  "'s semaphore_ops \<Rightarrow> listener_abuse_protection_policy \<Rightarrow> 's abuse_protection" where
  "abuse_protection_new ops p =
     \<lparr>ab_source_quota = map_option tracker_new (ap_source_quota p),
      ab_handshake_guard = map_option (guard_new ops) (ap_handshake_guard p),
      ab_source_quota_rejections = 0, ab_tracked_source_limit_rejections = 0,
      ab_handshake_guard_rejections = 0\<rparr>"

definition count_source_rejection :: "abuse_rejection_reason \<Rightarrow> 's abuse_protection \<Rightarrow> 's abuse_protection" where
  "count_source_rejection e s =
     (case e of
        SourceQuotaExceeded \<Rightarrow>
          s\<lparr>ab_source_quota_rejections := wrap_add 64 (ab_source_quota_rejections s) 1\<rparr>
      | TrackedSourceLimitReached \<Rightarrow>
          s\<lparr>ab_tracked_source_limit_rejections := wrap_add 64 (ab_tracked_source_limit_rejections s) 1\<rparr>
      | HandshakeLimitReached \<Rightarrow> s)"

definition try_acquire_source ::
  "socket_addr \<Rightarrow> 's abuse_protection \<Rightarrow>
     (string option, abuse_rejection_reason) result \<times> 's abuse_protection" where
  "try_acquire_source peer s =
     (case ab_source_quota s of
        None \<Rightarrow> (Ok None, s)
      | Some tracker \<Rightarrow>
          (case tracker_try_acquire peer tracker of
             (Inr lease, tracker') \<Rightarrow> (Ok (Some lease), s\<lparr>ab_source_quota := Some tracker'\<rparr>)
           | (Inl e, tracker') \<Rightarrow> (Err e, count_source_rejection e (s\<lparr>ab_source_quota := Some tracker'\<rparr>))))"

definition drop_source_lease :: "string \<Rightarrow> 's abuse_protection \<Rightarrow> 's abuse_protection" where
  "drop_source_lease key s = s\<lparr>ab_source_quota := map_option (tracker_release key) (ab_source_quota s)\<rparr>"

definition try_acquire_handshake ::
  "'s semaphore_ops \<Rightarrow> 's abuse_protection \<Rightarrow>
     (bool, abuse_rejection_reason) result \<times> 's abuse_protection" where
  "try_acquire_handshake ops s =
     (case ab_handshake_guard s of
        None \<Rightarrow> (Ok False, s)
      | Some guard \<Rightarrow>
          (case guard_try_acquire ops guard of
             (Inr _, guard') \<Rightarrow> (Ok True, s\<lparr>ab_handshake_guard := Some guard'\<rparr>)
           | (Inl e, guard') \<Rightarrow>
               (Err e, s\<lparr>ab_handshake_guard := Some guard',
                        ab_handshake_guard_rejections := wrap_add 64 (ab_handshake_guard_rejections s) 1\<rparr>)))"

definition abuse_snapshot :: "'s semaphore_ops \<Rightarrow> 's abuse_protection \<Rightarrow> listener_abuse_protection_snapshot" where
  "abuse_snapshot ops s =
     \<lparr>as_source_quota_rejections = ab_source_quota_rejections s,
      as_tracked_source_limit_rejections = ab_tracked_source_limit_rejections s,
      as_handshake_guard_rejections = ab_handshake_guard_rejections s,
      as_tracked_sources = (case ab_source_quota s of None \<Rightarrow> 0 | Some t \<Rightarrow> tracked_sources t),
      as_active_handshakes = (case ab_handshake_guard s of None \<Rightarrow> 0 | Some g \<Rightarrow> active_handshakes ops g)\<rparr>"

definition handshake_timeout :: "'s abuse_protection \<Rightarrow> duration option" where
  "handshake_timeout s = map_option gd_timeout (ab_handshake_guard s)"

section \<open>Keys and subnets\<close>

text \<open>The network an address belongs to, with the host part cleared.\<close>

fun network :: "source_aggregation \<Rightarrow> ip_addr \<Rightarrow> ip_addr" where
  "network Ipv4Subnet24 (V4 a) = V4 (push_bit 8 (drop_bit 8 a))"
| "network Ipv6Subnet64 (V6 a) = V6 (push_bit 64 (drop_bit 64 a))"
| "network _ ip = ip"

lemma unat_drop_bit_div: "unat (drop_bit n (a :: 'a::len word)) = unat a div 2 ^ n"
  unfolding unat_drop_bit_eq by (rule drop_bit_eq_div)

lemma push_drop_eq_iff:
  fixes a b :: "'a::len word"
  shows "push_bit n (drop_bit n a) = push_bit n (drop_bit n b) \<longleftrightarrow> unat a div 2 ^ n = unat b div 2 ^ n"
proof
  assume "push_bit n (drop_bit n a) = push_bit n (drop_bit n b)"
  then have "drop_bit n (push_bit n (drop_bit n a)) = drop_bit n (push_bit n (drop_bit n b))" by simp
  moreover have "drop_bit n (push_bit n (drop_bit n c)) = drop_bit n c" for c :: "'a word"
    by (rule bit_word_eqI) (auto simp: bit_simps dest: bit_imp_le_length)
  ultimately have "drop_bit n a = drop_bit n b" by simp
  then have "unat (drop_bit n a) = unat (drop_bit n b)" by simp
  then show "unat a div 2 ^ n = unat b div 2 ^ n"
    by (simp only: unat_drop_bit_div)
next
  assume "unat a div 2 ^ n = unat b div 2 ^ n"
  then have "unat (drop_bit n a) = unat (drop_bit n b)"
    by (simp only: unat_drop_bit_div)
  then have "drop_bit n a = drop_bit n b" by (rule unsigned_word_eqI)
  then show "push_bit n (drop_bit n a) = push_bit n (drop_bit n b)" by simp
qed

lemma take_octets_eq_iff:
  "take 3 (octets a) = take 3 (octets b) \<longleftrightarrow> unat a div 2 ^ 8 = unat b div 2 ^ 8"
proof -
  have "unat x div 256 < 256 ^ 3" for x :: "32 word"
    using unat_less_pow [of x] by (simp add: div_less_iff_less_mult)
  then show ?thesis by (simp add: octets_def take_digits digits_inj)
qed

lemma take_segments_eq_iff:
  "take 4 (segments a) = take 4 (segments b) \<longleftrightarrow> unat a div 2 ^ 64 = unat b div 2 ^ 64"
proof -
  have "unat x div 18446744073709551616 < 65536 ^ 4" for x :: "128 word"
    using unat_less_pow [of x] by (simp add: div_less_iff_less_mult)
  then show ?thesis by (simp add: segments_def take_digits digits_inj)
qed

definition masked :: "128 word \<Rightarrow> 128 word" where
  "masked a = ipv6_new (take 4 (segments a) @ [0, 0, 0, 0])"

lemma segments_masked: "segments (masked a) = take 4 (segments a) @ [0, 0, 0, 0]"
proof -
  have "s < 65536" if "s \<in> set (take 4 (segments a))" for s
    using digits_less [of 65536 s 8 "unat a"] in_set_takeD [OF that] by (simp add: segments_def)
  then show ?thesis unfolding masked_def by (intro segments_ipv6_new) auto
qed

lemma last_digits: "0 < k \<Longrightarrow> last (digits b k n) = n mod b"
  by (cases k) simp_all

lemma masked_not_mapped: "to_ipv4_mapped (masked a) = None"
proof (rule ccontr)
  assume "to_ipv4_mapped (masked a) \<noteq> None"
  then have "drop_bit 32 (masked a) = 0xffff" by (simp add: to_ipv4_mapped_def split: if_splits)
  then have "unat (drop_bit 32 (masked a)) = 65535" by simp
  then have d: "unat (masked a) div 2 ^ 32 = 65535"
    by (simp only: unat_drop_bit_div)
  have "take 6 (segments (masked a)) = digits 65536 6 (unat (masked a) div 65536 ^ 2)"
    by (simp add: segments_def take_digits)
  then have "last (take 6 (segments (masked a))) = (unat (masked a) div 65536 ^ 2) mod 65536"
    by (simp add: last_digits)
  with d have "last (take 6 (segments (masked a))) = 65535" by simp
  then show False by (simp add: segments_masked)
qed

lemma masked_eq_iff: "masked a = masked b \<longleftrightarrow> unat a div 2 ^ 64 = unat b div 2 ^ 64"
proof -
  have "masked a = masked b \<longleftrightarrow> segments (masked a) = segments (masked b)"
    by (simp add: segments_inj)
  then show ?thesis by (simp add: segments_masked take_segments_eq_iff)
qed

lemma key_v4_v6: "CHR '':'' \<notin> set (key_of_ip agg (V4 a)) \<and> CHR '':'' \<in> set (key_of_ip agg (V6 b))"
proof -
  have "c = CHR ''.'' \<or> alnum c" if "c \<in> set (join CHR ''.'' (map show_nat ns))" for c ns
    using set_join [of "CHR ''.''" "map show_nat ns"] show_radix_alnum [of 10] that
    by (fastforce simp: show_nat_radix)
  from this [of "CHR '':''"] have "CHR '':'' \<notin> set (join CHR ''.'' (map show_nat ns))" for ns
    by auto
  then show ?thesis
    by (cases agg) (simp_all add: ip_show_def colon_ipv6_show colon_ipv4_show)
qed

text \<open>
  Sources are grouped exactly by network: two peers are counted under the same key if
  and only if, after turning IPv4-mapped IPv6 addresses into IPv4, they are the same
  address, the same IPv4 /24 or the same IPv6 /64, as the policy asks for.
\<close>

lemma source_key_groups_by_network:
  "normalize_source_key a agg = normalize_source_key b agg \<longleftrightarrow>
     network agg (canonicalize_ip a) = network agg (canonicalize_ip b)"
proof -
  have v4: "key_of_ip agg (V4 x) = key_of_ip agg (V4 y) \<longleftrightarrow> network agg (V4 x) = network agg (V4 y)" for x y
    by (cases agg) (simp_all add: ip_show_def ipv4_show_inj push_drop_eq_iff join_inj plain_dec
        map_show_nat_inj take_octets_eq_iff)
  have v6: "key_of_ip agg (V6 x) = key_of_ip agg (V6 y) \<longleftrightarrow> network agg (V6 x) = network agg (V6 y)"
    if "to_ipv4_mapped x = None" "to_ipv4_mapped y = None" for x y
    using that by (cases agg) (simp_all add: ip_show_def ipv6_show_inj push_drop_eq_iff
        masked_def [symmetric] masked_not_mapped masked_eq_iff)
  have mixed: "key_of_ip agg (V4 x) \<noteq> key_of_ip agg (V6 y)" "key_of_ip agg (V6 y) \<noteq> key_of_ip agg (V4 x)"
    "network agg (V4 x) \<noteq> network agg (V6 y)" "network agg (V6 y) \<noteq> network agg (V4 x)" for x y
    using key_v4_v6 [of agg x y] by (cases agg; auto)+
  show ?thesis
    unfolding normalize_source_key_def canonicalize_ip_def
    by (auto simp: v4 v6 mixed split: ip_addr.splits option.splits)
qed

section \<open>The tracker counts the leases\<close>

definition active_of :: "source_quota_tracker \<Rightarrow> string \<Rightarrow> nat" where
  "active_of t k = bt_get_or k 0 (st_active_by_source t)"

text \<open>The first lease of a source is granted without a look at the quota.\<close>

definition source_cap :: "source_quota_policy \<Rightarrow> nat" where
  "source_cap p = max 1 (sq_max_active_per_source p)"

definition tracker_ok :: "source_quota_policy \<Rightarrow> source_quota_tracker \<Rightarrow> bool" where
  "tracker_ok p t \<longleftrightarrow> st_policy t = p \<and> sq_max_active_per_source p < 2 ^ 64 \<and>
     bt_ok (st_active_by_source t) \<and>
     (\<forall>k n. map_of (st_active_by_source t) k = Some n \<longrightarrow> 0 < n \<and> n \<le> source_cap p)"

definition grants :: "string \<Rightarrow> source_quota_tracker \<Rightarrow> bool \<times> source_quota_tracker" where
  "grants k t = map_prod is_ok id (tracker_acquire_key k t)"

lemma active_of_pos:
  "tracker_ok p t \<Longrightarrow> 0 < active_of t k \<longleftrightarrow> map_of (st_active_by_source t) k \<noteq> None"
  by (force simp: tracker_ok_def active_of_def bt_get_or_def split: option.splits)

lemma tracked_sources_card: "tracker_ok p t \<Longrightarrow> card {k. 0 < active_of t k} = tracked_sources t"
proof -
  assume ok: "tracker_ok p t"
  then have "{k. 0 < active_of t k} = fst ` set (st_active_by_source t)"
    using active_of_pos [OF ok] by (auto simp: map_of_eq_None_iff)
  moreover have "card (fst ` set (st_active_by_source t)) = length (st_active_by_source t)"
    using distinct_card [OF bt_ok_distinct, of "st_active_by_source t"] ok by (simp add: tracker_ok_def)
  ultimately show ?thesis by (simp add: tracked_sources_def)
qed

lemma tracker_step_facts:
  assumes "tracker_ok p t"
  shows "tracker_ok p (snd (grants k t)) \<and>
    (fst (grants k t) \<longleftrightarrow> active_of t k < source_cap p \<and>
       (active_of t k = 0 \<longrightarrow> tracked_sources t < sq_max_tracked_sources p)) \<and>
    active_of (snd (grants k t)) = (if fst (grants k t) then (active_of t)(k := active_of t k + 1) else active_of t)"
proof (cases "map_of (st_active_by_source t) k")
  case None
  with assms show ?thesis
    by (auto simp: grants_def tracker_acquire_key_def tracker_ok_def active_of_def bt_get_or_def
        source_cap_def tracked_sources_def map_of_bt_insert bt_insert_ok fun_eq_iff)
next
  case (Some n)
  with assms have n: "0 < n" "n \<le> source_cap p" by (auto simp: tracker_ok_def)
  have inc: "sat_add 64 n 1 = Suc n" if "n < sq_max_active_per_source p"
    using that assms by (simp add: sat_add_def uint_max_def tracker_ok_def)
  show ?thesis
  proof (cases "n < sq_max_active_per_source p")
    case True
    with Some assms inc [OF True] n show ?thesis
      by (auto simp: grants_def tracker_acquire_key_def tracker_ok_def active_of_def bt_get_or_def
          source_cap_def map_of_bt_insert bt_insert_ok fun_eq_iff)
  next
    case False
    then have "\<not> n < source_cap p" using n by (simp add: source_cap_def)
    moreover have "grants k t = (False, t)"
      using Some assms False by (simp add: grants_def tracker_acquire_key_def tracker_ok_def)
    ultimately show ?thesis using Some assms by (simp add: active_of_def bt_get_or_def)
  qed
qed

lemma tracker_release_facts:
  assumes "tracker_ok p t"
  shows "tracker_ok p (tracker_release k t) \<and>
    active_of (tracker_release k t) = (active_of t)(k := active_of t k - 1)"
proof (cases "map_of (st_active_by_source t) k")
  case None
  with assms show ?thesis
    by (auto simp: tracker_release_def active_of_def bt_get_or_def fun_eq_iff)
next
  case (Some n)
  with assms have n: "0 < n" "n \<le> source_cap p" by (auto simp: tracker_ok_def)
  show ?thesis
  proof (cases "n = 1")
    case True
    with Some assms show ?thesis
      by (auto simp: tracker_release_def tracker_ok_def active_of_def bt_get_or_def
          map_of_bt_remove bt_remove_ok fun_eq_iff)
  next
    case False
    with Some assms n have "tracker_release k t = t\<lparr>st_active_by_source := bt_insert k (n - 1) (st_active_by_source t)\<rparr>"
      by (simp add: tracker_release_def)
    moreover have "0 < n - 1" "n - 1 \<le> source_cap p" using n False by simp_all
    ultimately show ?thesis
      using Some assms
      by (simp add: tracker_ok_def active_of_def bt_get_or_def map_of_bt_insert bt_insert_ok fun_eq_iff)
  qed
qed

interpretation quota: lease_table "tracker_ok p" active_of grants tracker_release
  "source_cap p" "sq_max_tracked_sources p" for p
proof
  fix t k assume ok: "tracker_ok p t"
  show "tracker_ok p (snd (grants k t))" "tracker_ok p (tracker_release k t)"
    "active_of (tracker_release k t) = (active_of t)(k := active_of t k - 1)"
    "active_of (snd (grants k t)) = (if fst (grants k t) then (active_of t)(k := active_of t k + 1) else active_of t)"
    using tracker_step_facts [OF ok] tracker_release_facts [OF ok] by blast+
  show "fst (grants k t) \<longleftrightarrow> active_of t k < source_cap p \<and>
      (active_of t k = 0 \<longrightarrow> card {j. 0 < active_of t j} < sq_max_tracked_sources p)"
    using tracker_step_facts [OF ok] by (simp add: tracked_sources_card [OF ok])
qed

lemma tracker_new_ok: "sq_max_active_per_source p < 2 ^ 64 \<Longrightarrow> tracker_ok p (tracker_new p)"
  by (simp add: tracker_ok_def tracker_new_def)

lemma active_of_new: "active_of (tracker_new p) = (\<lambda>_. 0)"
  by (simp add: active_of_def tracker_new_def bt_get_or_def fun_eq_iff)

text \<open>
  C16. The source quota is exact: after any sequence of connections and disconnections the
  tracker counts, per source, the connections that are open; no source has more than its
  quota (one, if the quota is zero) and no more sources than allowed are tracked; and a new
  connection is accepted if and only if its source is below the quota and, for a new source,
  there is room to track it.
\<close>

theorem source_quota_exact:
  assumes "sq_max_active_per_source p < 2 ^ 64"
    and "foldl (lease_step grants tracker_release) (tracker_new p, []) ops = (t, leases)"
  shows "active_of t = count_list leases \<and> (\<forall>k. count_list leases k \<le> source_cap p) \<and>
    card (set leases) \<le> sq_max_tracked_sources p \<and>
    (\<forall>k. fst (grants k t) \<longleftrightarrow> count_list leases k < source_cap p \<and>
       (k \<notin> set leases \<longrightarrow> card (set leases) < sq_max_tracked_sources p)) \<and>
    active_of (fst (foldl (lease_step grants tracker_release) (t, leases) (map Drop leases))) = (\<lambda>_. 0)"
proof -
  note new = tracker_new_ok [OF assms(1)] active_of_new [of p]
  show ?thesis
    using quota.run_exact [OF new assms(2)] quota.run_no_leak [OF new assms(2)] by blast
qed

definition sample_quota :: source_quota_policy where
  "sample_quota = \<lparr>sq_aggregation = ExactIp, sq_max_active_per_source = 2, sq_max_tracked_sources = 1\<rparr>"

theorem source_quota_exact_witness:
  "\<not> fst (grants ''b'' (fst (foldl (lease_step grants tracker_release) (tracker_new sample_quota, [])
      [Acquire ''a'', Acquire ''a'', Acquire ''a'', Drop ''a''])))"
proof -
  let ?r = "foldl (lease_step grants tracker_release) (tracker_new sample_quota, [])
      [Acquire ''a'', Acquire ''a'', Acquire ''a'', Drop ''a'']"
  have r: "snd ?r = [''a'']" by code_simp
  have "sq_max_active_per_source sample_quota < 2 ^ 64" by (simp add: sample_quota_def)
  from source_quota_exact [OF this, of "[Acquire ''a'', Acquire ''a'', Acquire ''a'', Drop ''a'']" "fst ?r" "snd ?r"] r
  show ?thesis by (simp add: sample_quota_def)
qed

section \<open>Handshake permits\<close>

datatype handshake_op = HandshakeStart | HandshakeEnd

text \<open>A run keeps the number of permits that are out; only such a permit can be released.\<close>

fun handshake_step ::
  "'s semaphore_ops \<Rightarrow> 's handshake_guard \<times> nat \<Rightarrow> handshake_op \<Rightarrow> 's handshake_guard \<times> nat" where
  "handshake_step ops (g, n) HandshakeStart =
     (case guard_try_acquire ops g of (r, g') \<Rightarrow> (g', if is_ok r then n + 1 else n))"
| "handshake_step ops (g, n) HandshakeEnd =
     (if 0 < n then (snd (permit_release ops (True, g)), n - 1) else (g, n))"

definition handshake_inv :: "'s semaphore_ops \<Rightarrow> nat \<Rightarrow> 's handshake_guard \<times> nat \<Rightarrow> bool" where
  "handshake_inv ops m s \<longleftrightarrow> gd_max_inflight (fst s) = m \<and> sem_available ops (gd_semaphore (fst s)) + snd s = m"

lemma handshake_step_inv:
  assumes "semaphore_laws ops" and "handshake_inv ops m s"
  shows "handshake_inv ops m (handshake_step ops s op)"
proof -
  obtain g n where s: "s = (g, n)" by (cases s)
  have acq: "\<And>x y. sem_try_acquire ops x = Some y \<Longrightarrow> Suc (sem_available ops y) = sem_available ops x"
    and rel: "\<And>x. sem_available ops (sem_release ops x) = Suc (sem_available ops x)"
    using assms(1) by (auto simp: semaphore_laws_def)
  show ?thesis
  proof (cases op)
    case HandshakeStart
    with assms(2) s acq [of "gd_semaphore g"] show ?thesis
      by (auto simp: handshake_inv_def guard_try_acquire_def split: option.split)
  next
    case HandshakeEnd
    with assms(2) s rel show ?thesis
      by (auto simp: handshake_inv_def permit_release_def)
  qed
qed

interpretation handshakes: invariant_machine "handshake_step ops"
  "\<lambda>_. semaphore_laws ops" "handshake_inv ops m" for ops m
  by unfold_locales (rule handshake_step_inv)

text \<open>
  C36. The handshake guard bounds concurrent handshakes: for a semaphore that counts its
  permits, after any sequence of starts and ends the guard reports exactly the handshakes in
  flight, never more than configured, and a new one is refused if and only if that many are
  in flight.
\<close>

theorem handshake_guard_exact:
  assumes "semaphore_laws ops"
    and "foldl (handshake_step ops) (guard_new ops p, 0) hs = (g, n)"
  shows "active_handshakes ops g = n \<and> n \<le> hg_max_inflight p \<and>
    (fst (guard_try_acquire ops g) = Err HandshakeLimitReached \<longleftrightarrow> n = hg_max_inflight p)"
proof -
  have "handshake_inv ops (hg_max_inflight p) (guard_new ops p, 0)"
    using assms(1) by (simp add: handshake_inv_def guard_new_def semaphore_laws_def)
  then have "handshake_inv ops (hg_max_inflight p) (g, n)"
    using handshakes.run_inv [of ops hs "hg_max_inflight p" "(guard_new ops p, 0)"] assms
    by (simp add: list_all_iff)
  moreover have "sem_try_acquire ops (gd_semaphore g) = None \<longleftrightarrow> sem_available ops (gd_semaphore g) = 0"
    using assms(1) by (simp add: semaphore_laws_def)
  ultimately show ?thesis
    by (cases "sem_try_acquire ops (gd_semaphore g)")
      (auto simp: handshake_inv_def active_handshakes_def guard_try_acquire_def)
qed

definition nat_semaphore :: "nat semaphore_ops" where
  "nat_semaphore =
     \<lparr>sem_new = (\<lambda>n. n), sem_try_acquire = (\<lambda>s. if s = 0 then None else Some (s - 1)),
      sem_release = Suc, sem_available = (\<lambda>s. s)\<rparr>"

theorem handshake_guard_exact_witness:
  "fst (guard_try_acquire nat_semaphore (fst (foldl (handshake_step nat_semaphore)
      (guard_new nat_semaphore \<lparr>hg_max_inflight = 1, hg_timeout = secs 5\<rparr>, 0)
      [HandshakeStart, HandshakeStart, HandshakeEnd, HandshakeStart]))) = Err HandshakeLimitReached"
proof -
  let ?p = "\<lparr>hg_max_inflight = 1, hg_timeout = secs 5\<rparr>"
  let ?r = "foldl (handshake_step nat_semaphore) (guard_new nat_semaphore ?p, 0)
      [HandshakeStart, HandshakeStart, HandshakeEnd, HandshakeStart]"
  have laws: "semaphore_laws nat_semaphore"
    by (auto simp: semaphore_laws_def nat_semaphore_def)
  obtain g n where r: "?r = (g, n)" by fastforce
  then have "n = 1"
    by (simp add: guard_new_def nat_semaphore_def guard_try_acquire_def permit_release_def)
  then show ?thesis
    unfolding r fst_conv using handshake_guard_exact [OF laws r] by simp
qed

end
