(* ===== verification/Local_Limits.thy ===== *)
theory Local_Limits
  imports Ip_Text Lease_Table
begin

text \<open>
  \<open>crates/runtime/src/local_limits.rs\<close>: the fixed-window rate limiter and the concurrency
  limiter, both with a bounded table of normalised keys. The lemmas show that keys are
  normal forms, that both tables stay within their bounds, that the concurrency limiter
  counts the leases that are out, and how many requests a key can get through the rate
  limiter in any period of the length of its window.
\<close>

section \<open>Configuration\<close>

definition MAX_NORMALIZED_COMPONENT_LEN :: nat where
  "MAX_NORMALIZED_COMPONENT_LEN = 64"

datatype local_limit_scope =
    ScopeListener string
  | ScopeRoute string
  | ScopeRouteDestination string string
  | ScopeUpstreamCluster string

datatype local_limit_key_kind = KeyGlobal | KeySourceIp | KeyRouteName | KeyUpstreamCluster

record limit_context =
  lx_source_ip :: "ip_addr option"
  lx_route_name :: "string option"
  lx_upstream_cluster :: "string option"

record local_rate_limit_config =
  rc_scope :: local_limit_scope
  rc_key_kind :: local_limit_key_kind
  rc_requests_per_window :: nat
  rc_window :: duration
  rc_max_tracked_keys :: nat

record local_concurrency_limit_config =
  cc_scope :: local_limit_scope
  cc_key_kind :: local_limit_key_kind
  cc_max_concurrent :: nat
  cc_max_tracked_keys :: nat

datatype local_limit_error =
    EmptyScopeName
  | ZeroRateLimit
  | ZeroRateWindow
  | ZeroConcurrencyLimit
  | ZeroTrackedKeys
  | ConcurrencyLimitExceeded
  | StateSaturated

section \<open>Normalised keys\<close>

text \<open>
  A string is its UTF-8 bytes; its characters are counted by the bytes that do not continue
  a character, and all characters outside ASCII are replaced.
\<close>

definition char_starts :: "string \<Rightarrow> string" where
  "char_starts s = filter (\<lambda>c. \<not> (128 \<le> (of_char c :: nat) \<and> (of_char c :: nat) < 192)) s"

definition normalize_char :: "char \<Rightarrow> char" where
  "normalize_char c =
     (if is_ascii_alphanumeric c \<or> c \<in> {CHR ''-'', CHR ''_'', CHR ''.'', CHR '':''}
      then hd (to_ascii_lowercase [c]) else CHR ''_'')"

definition normalize_component :: "string \<Rightarrow> string" where
  "normalize_component value =
     (let normalized = map normalize_char (take MAX_NORMALIZED_COMPONENT_LEN (char_starts (trim value)))
      in if normalized = [] then ''missing'' else normalized)"

definition validate_scope :: "local_limit_scope \<Rightarrow> (unit, local_limit_error) result" where
  "validate_scope scope =
     (if (case scope of
            ScopeListener name \<Rightarrow> normalize_component name \<noteq> []
          | ScopeRoute name \<Rightarrow> normalize_component name \<noteq> []
          | ScopeUpstreamCluster name \<Rightarrow> normalize_component name \<noteq> []
          | ScopeRouteDestination route cluster \<Rightarrow>
              normalize_component route \<noteq> [] \<and> normalize_component cluster \<noteq> [])
      then Ok () else Err EmptyScopeName)"

definition scope_prefix :: "local_limit_scope \<Rightarrow> string" where
  "scope_prefix scope =
     (case scope of
        ScopeListener name \<Rightarrow> ''listener:'' @ normalize_component name
      | ScopeRoute name \<Rightarrow> ''route:'' @ normalize_component name
      | ScopeRouteDestination route cluster \<Rightarrow>
          ''route-destination:'' @ normalize_component route @ '':'' @ normalize_component cluster
      | ScopeUpstreamCluster name \<Rightarrow> ''upstream:'' @ normalize_component name)"

definition or_missing :: "string option \<Rightarrow> string" where
  "or_missing v = (case v of Some s \<Rightarrow> s | None \<Rightarrow> ''missing'')"

definition normalize_limit_key ::
  "local_limit_scope \<Rightarrow> local_limit_key_kind \<Rightarrow> limit_context \<Rightarrow> string" where
  "normalize_limit_key scope kind cx =
     scope_prefix scope @ ''|key:'' @
       (case kind of
          KeyGlobal \<Rightarrow> ''global''
        | KeySourceIp \<Rightarrow> or_missing (map_option ip_show (lx_source_ip cx))
        | KeyRouteName \<Rightarrow> or_missing (map_option normalize_component (lx_route_name cx))
        | KeyUpstreamCluster \<Rightarrow> or_missing (map_option normalize_component (lx_upstream_cluster cx)))"

definition rate_config_validate :: "local_rate_limit_config \<Rightarrow> (unit, local_limit_error) result" where
  "rate_config_validate c =
     and_then (validate_scope (rc_scope c)) (\<lambda>_.
     if rc_requests_per_window c = 0 then Err ZeroRateLimit
     else if rc_window c = 0 then Err ZeroRateWindow
     else if rc_max_tracked_keys c = 0 then Err ZeroTrackedKeys
     else Ok ())"

definition concurrency_config_validate ::
  "local_concurrency_limit_config \<Rightarrow> (unit, local_limit_error) result" where
  "concurrency_config_validate c =
     and_then (validate_scope (cc_scope c)) (\<lambda>_.
     if cc_max_concurrent c = 0 then Err ZeroConcurrencyLimit
     else if cc_max_tracked_keys c = 0 then Err ZeroTrackedKeys
     else Ok ())"

section \<open>Rate limiter\<close>

record rate_limit_decision =
  rl_allowed :: bool
  rl_remaining :: nat
  rl_retry_after :: "duration option"

record rate_window_state =
  rw_window_started :: duration
  rw_count :: nat
  rw_last_seen_tick :: nat

record local_rate_limiter =
  lr_config :: local_rate_limit_config
  lr_state :: "(string, rate_window_state) btree_map"
  lr_allowed_count :: nat
  lr_rate_limited_count :: nat

record local_rate_limiter_metrics =
  rlm_allowed_count :: nat
  rlm_rate_limited_count :: nat
  rlm_tracked_keys :: nat

definition rate_limiter_new ::
  "local_rate_limit_config \<Rightarrow> (local_rate_limiter, local_limit_error) result" where
  "rate_limiter_new c =
     and_then (rate_config_validate c) (\<lambda>_.
     Ok \<lparr>lr_config = c, lr_state = [], lr_allowed_count = 0, lr_rate_limited_count = 0\<rparr>)"

definition duration_tick :: "duration \<Rightarrow> nat" where
  "duration_tick value = min (as_millis value) (uint_max 64)"

text \<open>\<open>min_by_key\<close> returns the first of the minimal entries.\<close>

definition evict_oldest_key ::
  "(string, rate_window_state) btree_map \<Rightarrow> (string, rate_window_state) btree_map" where
  "evict_oldest_key state =
     (if state = [] then state
      else bt_remove (fst (arg_min_list (\<lambda>e. rw_last_seen_tick (snd e)) state)) state)"

text \<open>What a check does with the entry of its key: the decision and the new entry.\<close>

definition entry_check ::
  "local_rate_limit_config \<Rightarrow> duration \<Rightarrow> rate_window_state \<Rightarrow> rate_limit_decision \<times> rate_window_state" where
  "entry_check c now e =
     (let e = (if now - rw_window_started e \<ge> rc_window c
               then e\<lparr>rw_window_started := now, rw_count := 0\<rparr> else e);
          e = e\<lparr>rw_last_seen_tick := duration_tick now\<rparr>
      in if rw_count e \<ge> rc_requests_per_window c
         then (\<lparr>rl_allowed = False, rl_remaining = 0,
                rl_retry_after = Some (rc_window c - (now - rw_window_started e))\<rparr>, e)
         else (\<lparr>rl_allowed = True, rl_remaining = rc_requests_per_window c - (rw_count e + 1),
                rl_retry_after = None\<rparr>, e\<lparr>rw_count := rw_count e + 1\<rparr>))"

definition rate_check_key ::
  "duration \<Rightarrow> string \<Rightarrow> local_rate_limiter \<Rightarrow>
     (rate_limit_decision, local_limit_error) result \<times> local_rate_limiter" where
  "rate_check_key now key lim =
     (let c = lr_config lim;
          state = (if \<not> bt_has key (lr_state lim) \<and> length (lr_state lim) = rc_max_tracked_keys c
                   then evict_oldest_key (lr_state lim) else lr_state lim)
      in if \<not> bt_has key state \<and> length state = rc_max_tracked_keys c
         then (Err StateSaturated,
               lim\<lparr>lr_state := state,
                   lr_rate_limited_count := wrap_add 64 (lr_rate_limited_count lim) 1\<rparr>)
         else case entry_check c now
                     (bt_get_or key \<lparr>rw_window_started = now, rw_count = 0,
                                     rw_last_seen_tick = duration_tick now\<rparr> state) of
                (d, e) \<Rightarrow>
                  (Ok d,
                   if rl_allowed d
                   then lim\<lparr>lr_state := bt_insert key e state,
                            lr_allowed_count := wrap_add 64 (lr_allowed_count lim) 1\<rparr>
                   else lim\<lparr>lr_state := bt_insert key e state,
                            lr_rate_limited_count := wrap_add 64 (lr_rate_limited_count lim) 1\<rparr>))"

definition rate_check ::
  "duration \<Rightarrow> limit_context \<Rightarrow> local_rate_limiter \<Rightarrow>
     (rate_limit_decision, local_limit_error) result \<times> local_rate_limiter" where
  "rate_check now cx lim =
     rate_check_key now (normalize_limit_key (rc_scope (lr_config lim)) (rc_key_kind (lr_config lim)) cx) lim"

definition rate_metrics :: "local_rate_limiter \<Rightarrow> local_rate_limiter_metrics" where
  "rate_metrics lim =
     \<lparr>rlm_allowed_count = lr_allowed_count lim, rlm_rate_limited_count = lr_rate_limited_count lim,
      rlm_tracked_keys = length (lr_state lim)\<rparr>"

section \<open>Concurrency limiter\<close>

record local_concurrency_limiter =
  cn_config :: local_concurrency_limit_config
  cn_counts :: "(string, nat) btree_map"
  cn_active_concurrency :: nat
  cn_acquired_count :: nat
  cn_rejection_count :: nat

record local_concurrency_limiter_metrics =
  clm_acquired_count :: nat
  clm_concurrency_rejection_count :: nat
  clm_active_concurrency :: nat
  clm_tracked_keys :: nat

definition concurrency_limiter_new ::
  "local_concurrency_limit_config \<Rightarrow> (local_concurrency_limiter, local_limit_error) result" where
  "concurrency_limiter_new c =
     and_then (concurrency_config_validate c) (\<lambda>_.
     Ok \<lparr>cn_config = c, cn_counts = [], cn_active_concurrency = 0, cn_acquired_count = 0,
         cn_rejection_count = 0\<rparr>)"

definition reject_acquire :: "local_concurrency_limiter \<Rightarrow> local_concurrency_limiter" where
  "reject_acquire lim = lim\<lparr>cn_rejection_count := wrap_add 64 (cn_rejection_count lim) 1\<rparr>"

text \<open>A lease is the key its destructor gives back; \<open>or_insert(0)\<close> happens before the test.\<close>

definition try_acquire_key ::
  "string \<Rightarrow> local_concurrency_limiter \<Rightarrow> (string, local_limit_error) result \<times> local_concurrency_limiter" where
  "try_acquire_key key lim =
     (if \<not> bt_has key (cn_counts lim) \<and> length (cn_counts lim) = cc_max_tracked_keys (cn_config lim)
      then (Err StateSaturated, reject_acquire lim)
      else let current = bt_get_or key 0 (cn_counts lim)
           in if current \<ge> cc_max_concurrent (cn_config lim)
              then (Err ConcurrencyLimitExceeded,
                    reject_acquire (lim\<lparr>cn_counts := bt_insert key current (cn_counts lim)\<rparr>))
              else (Ok key,
                    lim\<lparr>cn_counts := bt_insert key (current + 1) (cn_counts lim),
                        cn_active_concurrency := wrap_add 64 (cn_active_concurrency lim) 1,
                        cn_acquired_count := wrap_add 64 (cn_acquired_count lim) 1\<rparr>))"

definition try_acquire ::
  "limit_context \<Rightarrow> local_concurrency_limiter \<Rightarrow>
     (string, local_limit_error) result \<times> local_concurrency_limiter" where
  "try_acquire cx lim =
     try_acquire_key (normalize_limit_key (cc_scope (cn_config lim)) (cc_key_kind (cn_config lim)) cx) lim"

definition drop_lease :: "string \<Rightarrow> local_concurrency_limiter \<Rightarrow> local_concurrency_limiter" where
  "drop_lease key lim =
     (case map_of (cn_counts lim) key of
        None \<Rightarrow> lim
      | Some count \<Rightarrow>
          lim\<lparr>cn_counts := (if count - 1 = 0 then bt_remove key (cn_counts lim)
                            else bt_insert key (count - 1) (cn_counts lim)),
              cn_active_concurrency := wrap_add 64 (cn_active_concurrency lim) (uint_max 64)\<rparr>)"

definition concurrency_metrics :: "local_concurrency_limiter \<Rightarrow> local_concurrency_limiter_metrics" where
  "concurrency_metrics lim =
     \<lparr>clm_acquired_count = cn_acquired_count lim,
      clm_concurrency_rejection_count = cn_rejection_count lim,
      clm_active_concurrency = cn_active_concurrency lim,
      clm_tracked_keys = length (cn_counts lim)\<rparr>"

section \<open>Normal forms\<close>

definition name_char :: "char \<Rightarrow> bool" where
  "name_char c \<longleftrightarrow> alnum c \<or> c \<in> {CHR ''-'', CHR ''_'', CHR ''.'', CHR '':''}"

definition normal_form :: "string \<Rightarrow> bool" where
  "normal_form s \<longleftrightarrow> s \<noteq> [] \<and> length s \<le> MAX_NORMALIZED_COMPONENT_LEN \<and> (\<forall>c\<in>set s. name_char c)"

lemma strip_front_id: "\<forall>w\<in>set ws. w \<noteq> [] \<and> hd w \<notin> set s \<Longrightarrow> strip_front n ws s = s"
proof (cases n)
  case (Suc m)
  assume ws: "\<forall>w\<in>set ws. w \<noteq> [] \<and> hd w \<notin> set s"
  have "\<not> prefix w s" if "w \<in> set ws" for w
    using ws that by (cases w) (auto simp: prefix_def)
  then have "find (\<lambda>w. prefix w s) ws = None" by (simp add: find_None_iff)
  with Suc show ?thesis by simp
qed simp

lemma name_char_not_space:
  "w \<in> set white_space \<Longrightarrow> w \<noteq> [] \<and> \<not> name_char (hd w) \<and> \<not> name_char (last w)"
  by (auto simp: white_space_def name_char_def alnum_def)

lemma trim_id: "\<forall>c\<in>set s. name_char c \<Longrightarrow> trim s = s"
proof -
  assume s: "\<forall>c\<in>set s. name_char c"
  have "trim_start s = s"
    unfolding trim_start_def using s name_char_not_space by (intro strip_front_id) blast
  moreover have "trim_end s = s"
  proof -
    have "\<forall>w\<in>set (map rev white_space). w \<noteq> [] \<and> hd w \<notin> set (rev s)"
      using s name_char_not_space by (auto simp: hd_rev)
    then show ?thesis by (simp add: trim_end_def strip_front_id)
  qed
  ultimately show ?thesis by (simp add: trim_def)
qed

lemma normalize_char_name: "name_char (normalize_char c)"
  by (auto simp: normalize_char_def name_char_def alnum_def is_ascii_alphanumeric_def
      to_ascii_lowercase_def Let_def of_char_of)

lemma normalize_char_id: "name_char c \<Longrightarrow> normalize_char c = c"
  by (auto simp: normalize_char_def name_char_def alnum_def is_ascii_alphanumeric_def
      to_ascii_lowercase_def Let_def)

lemma char_starts_id: "\<forall>c\<in>set s. name_char c \<Longrightarrow> char_starts s = s"
  unfolding char_starts_def by (rule filter_True) (fastforce simp: name_char_def alnum_def Let_def)

lemma normalize_component_normal: "normal_form (normalize_component v)"
proof -
  have "normal_form ''missing''"
    by (simp add: normal_form_def name_char_def alnum_def MAX_NORMALIZED_COMPONENT_LEN_def)
  then show ?thesis
    by (auto simp: normal_form_def normalize_component_def Let_def normalize_char_name)
qed

lemma normalize_component_id: "normal_form s \<Longrightarrow> normalize_component s = s"
proof -
  assume "normal_form s"
  then have n: "\<forall>c\<in>set s. name_char c" "s \<noteq> []" "length s \<le> MAX_NORMALIZED_COMPONENT_LEN"
    by (simp_all add: normal_form_def)
  then have "map normalize_char s = s" by (simp add: map_idI normalize_char_id)
  with n show ?thesis
    by (simp add: normalize_component_def trim_id char_starts_id)
qed

text \<open>
  C37. Limit keys are built from normal forms: a normalised component is never empty, has at
  most 64 bytes, all of them lower-case letters, digits or one of the four punctuation
  marks, and normalising it again gives the same; therefore no scope is ever rejected for
  an empty name.
\<close>

theorem normalize_component_canonical:
  "normal_form (normalize_component v) \<and>
   normalize_component (normalize_component v) = normalize_component v \<and>
   (normal_form v \<longleftrightarrow> normalize_component v = v) \<and>
   validate_scope scope = Ok ()"
proof -
  have "normalize_component n \<noteq> []" for n
    using normalize_component_normal [of n] by (simp add: normal_form_def)
  then have "validate_scope scope = Ok ()"
    by (cases scope) (simp_all add: validate_scope_def)
  then show ?thesis
    using normalize_component_normal normalize_component_id by metis
qed

section \<open>The concurrency limiter counts the leases\<close>

definition in_flight :: "local_concurrency_limiter \<Rightarrow> string \<Rightarrow> nat" where
  "in_flight lim k = bt_get_or k 0 (cn_counts lim)"

definition concurrency_ok :: "local_concurrency_limit_config \<Rightarrow> local_concurrency_limiter \<Rightarrow> bool" where
  "concurrency_ok c lim \<longleftrightarrow> cn_config lim = c \<and> 0 < cc_max_concurrent c \<and>
     bt_ok (cn_counts lim) \<and> length (cn_counts lim) \<le> cc_max_tracked_keys c \<and>
     (\<forall>k n. map_of (cn_counts lim) k = Some n \<longrightarrow> 0 < n \<and> n \<le> cc_max_concurrent c)"

definition acquires :: "string \<Rightarrow> local_concurrency_limiter \<Rightarrow> bool \<times> local_concurrency_limiter" where
  "acquires k lim = map_prod is_ok id (try_acquire_key k lim)"

lemma in_flight_pos:
  "concurrency_ok c lim \<Longrightarrow> 0 < in_flight lim k \<longleftrightarrow> map_of (cn_counts lim) k \<noteq> None"
  by (force simp: concurrency_ok_def in_flight_def bt_get_or_def split: option.splits)

lemma in_flight_card: "concurrency_ok c lim \<Longrightarrow> card {k. 0 < in_flight lim k} = length (cn_counts lim)"
proof -
  assume ok: "concurrency_ok c lim"
  then have "{k. 0 < in_flight lim k} = fst ` set (cn_counts lim)"
    using in_flight_pos [OF ok] by (auto simp: map_of_eq_None_iff)
  then show ?thesis
    using distinct_card [OF bt_ok_distinct, of "cn_counts lim"] ok by (simp add: concurrency_ok_def)
qed

lemma bt_insert_same: "bt_ok m \<Longrightarrow> map_of m k = Some v \<Longrightarrow> bt_insert k v m = m"
proof (induction m)
  case (Cons e m)
  then show ?case
    by (cases e) (auto simp: bt_ok_Cons dest!: map_of_SomeD split: if_splits)
qed simp

lemma acquires_cases:
  assumes "concurrency_ok c lim"
  shows "acquires k lim =
    (if in_flight lim k < cc_max_concurrent c \<and>
        (in_flight lim k = 0 \<longrightarrow> length (cn_counts lim) < cc_max_tracked_keys c)
     then (True, lim\<lparr>cn_counts := bt_insert k (in_flight lim k + 1) (cn_counts lim),
                     cn_active_concurrency := wrap_add 64 (cn_active_concurrency lim) 1,
                     cn_acquired_count := wrap_add 64 (cn_acquired_count lim) 1\<rparr>)
     else (False, reject_acquire lim))"
proof (cases "map_of (cn_counts lim) k")
  case None
  with assms show ?thesis
    by (auto simp: acquires_def try_acquire_key_def in_flight_def bt_has_def bt_get_or_def
        concurrency_ok_def)
next
  case (Some n)
  with assms have "0 < n" "bt_insert k n (cn_counts lim) = cn_counts lim"
    by (auto simp: concurrency_ok_def bt_insert_same)
  with Some assms show ?thesis
    by (auto simp: acquires_def try_acquire_key_def in_flight_def bt_has_def bt_get_or_def
        concurrency_ok_def)
qed

lemma acquires_facts:
  assumes "concurrency_ok c lim"
  shows "concurrency_ok c (snd (acquires k lim)) \<and>
    (fst (acquires k lim) \<longleftrightarrow> in_flight lim k < cc_max_concurrent c \<and>
       (in_flight lim k = 0 \<longrightarrow> length (cn_counts lim) < cc_max_tracked_keys c)) \<and>
    in_flight (snd (acquires k lim)) =
      (if fst (acquires k lim) then (in_flight lim)(k := in_flight lim k + 1) else in_flight lim)"
proof -
  have pos: "bt_has k (cn_counts lim) \<longleftrightarrow> 0 < in_flight lim k"
    using in_flight_pos [OF assms] by (simp add: bt_has_def)
  have rej: "concurrency_ok c (reject_acquire lim)" "in_flight (reject_acquire lim) = in_flight lim"
    using assms by (simp_all add: concurrency_ok_def reject_acquire_def in_flight_def fun_eq_iff)
  show ?thesis
  proof (cases "fst (acquires k lim)")
    case True
    then have room: "in_flight lim k < cc_max_concurrent c"
      "in_flight lim k = 0 \<Longrightarrow> length (cn_counts lim) < cc_max_tracked_keys c"
      by (auto simp: acquires_cases [OF assms] split: if_splits)
    with assms True pos show ?thesis
      by (auto simp: acquires_cases [OF assms] concurrency_ok_def in_flight_def bt_get_or_def
          map_of_bt_insert bt_insert_ok length_bt_insert fun_eq_iff)
  next
    case False
    with rej show ?thesis by (auto simp: acquires_cases [OF assms] split: if_splits)
  qed
qed

lemma drop_lease_facts:
  assumes "concurrency_ok c lim"
  shows "concurrency_ok c (drop_lease k lim) \<and>
    in_flight (drop_lease k lim) = (in_flight lim)(k := in_flight lim k - 1)"
proof (cases "map_of (cn_counts lim) k")
  case None
  with assms show ?thesis
    by (auto simp: drop_lease_def in_flight_def bt_get_or_def fun_eq_iff)
next
  case (Some n)
  with assms have n: "0 < n" "n \<le> cc_max_concurrent c" by (auto simp: concurrency_ok_def)
  show ?thesis
  proof (cases "n = 1")
    case True
    with Some assms show ?thesis
      by (auto simp: drop_lease_def concurrency_ok_def in_flight_def bt_get_or_def
          map_of_bt_remove bt_remove_ok fun_eq_iff intro: order_trans [OF length_bt_remove_le])
  next
    case False
    then have "0 < n - 1" "n - 1 \<le> cc_max_concurrent c" "n - 1 \<noteq> 0" using n by simp_all
    with Some assms show ?thesis
      by (simp add: drop_lease_def concurrency_ok_def in_flight_def bt_get_or_def
          map_of_bt_insert bt_insert_ok length_bt_insert bt_has_def fun_eq_iff)
  qed
qed

interpretation conc: lease_table "concurrency_ok c" in_flight acquires drop_lease
  "cc_max_concurrent c" "cc_max_tracked_keys c" for c
proof
  fix lim k assume ok: "concurrency_ok c lim"
  show "concurrency_ok c (snd (acquires k lim))" "concurrency_ok c (drop_lease k lim)"
    "in_flight (drop_lease k lim) = (in_flight lim)(k := in_flight lim k - 1)"
    "in_flight (snd (acquires k lim)) =
      (if fst (acquires k lim) then (in_flight lim)(k := in_flight lim k + 1) else in_flight lim)"
    using acquires_facts [OF ok] drop_lease_facts [OF ok] by blast+
  show "fst (acquires k lim) \<longleftrightarrow> in_flight lim k < cc_max_concurrent c \<and>
      (in_flight lim k = 0 \<longrightarrow> card {j. 0 < in_flight lim j} < cc_max_tracked_keys c)"
    using acquires_facts [OF ok] by (simp add: in_flight_card [OF ok])
qed

lemma concurrency_new_ok:
  "concurrency_limiter_new c = Ok lim \<Longrightarrow>
     concurrency_ok c lim \<and> in_flight lim = (\<lambda>_. 0) \<and> cn_active_concurrency lim = 0"
  by (auto simp: concurrency_limiter_new_def concurrency_config_validate_def and_then_eq_Ok
      concurrency_ok_def in_flight_def bt_get_or_def split: if_splits)

text \<open>The gauge of active operations is the number of leases that are out.\<close>

definition gauge_inv :: "local_concurrency_limit_config \<Rightarrow> local_concurrency_limiter \<times> string list \<Rightarrow> bool" where
  "gauge_inv c s \<longleftrightarrow> conc.ledger c s \<and> cn_active_concurrency (fst s) = length (snd s) mod 2 ^ 64"

lemma gauge_step: "gauge_inv c s \<Longrightarrow> gauge_inv c (lease_step acquires drop_lease s op)"
proof -
  assume g: "gauge_inv c s"
  obtain lim ls where s: "s = (lim, ls)" by (cases s)
  have led: "conc.ledger c (lim, ls)" and act: "cn_active_concurrency lim = length ls mod 2 ^ 64"
    using g s by (auto simp: gauge_inv_def)
  then have ok: "concurrency_ok c lim" and h: "in_flight lim = count_list ls"
    by (auto simp: conc.ledger_def)
  have "cn_active_concurrency (fst (lease_step acquires drop_lease (lim, ls) op))
      = length (snd (lease_step acquires drop_lease (lim, ls) op)) mod 2 ^ 64"
  proof (cases op)
    case (Acquire k)
    then show ?thesis
      using act by (auto simp: acquires_cases [OF ok] reject_acquire_def wrap_add_def mod_Suc_eq)
  next
    case (Drop k)
    show ?thesis
    proof (cases "k \<in> set ls")
      case True
      then have "map_of (cn_counts lim) k \<noteq> None"
        using in_flight_pos [OF ok, of k] h count_list_0_iff [of ls k] by auto
      then have "cn_active_concurrency (drop_lease k lim) = (length ls mod 2 ^ 64 + (2 ^ 64 - 1)) mod 2 ^ 64"
        using act by (auto simp: drop_lease_def wrap_add_def uint_max_def)
      also have "\<dots> = (length ls + (2 ^ 64 - 1)) mod 2 ^ 64" by (rule mod_add_left_eq)
      also have "\<dots> = (length ls - 1) mod 2 ^ 64"
      proof -
        obtain m where m: "length ls = Suc m" using True by (cases ls) auto
        have "Suc m + (2 ^ 64 - 1) = m + 2 ^ 64" by simp
        then show ?thesis by (simp only: m mod_add_self2) simp
      qed
      finally show ?thesis using Drop True by (simp add: length_remove1)
    qed (use Drop act in simp)
  qed
  then show ?thesis
    using conc.ledger_step [OF led, of op] s by (simp add: gauge_inv_def)
qed

interpretation gauge: invariant_machine "lease_step acquires drop_lease" "\<lambda>_. True" "gauge_inv c" for c
  by unfold_locales (rule gauge_step)

text \<open>
  C14. The concurrency limiter is exact: after any sequence of acquisitions and drops it
  counts the leases that are out per key, no key has more than the limit, no more keys than
  allowed are tracked, the gauge is the number of leases (up to wrap-around), an acquisition
  is granted if and only if its key is below the limit and there is room to track it, and
  nothing is left when all leases are dropped.
\<close>

theorem concurrency_limit_exact:
  assumes "concurrency_limiter_new c = Ok lim"
    and "foldl (lease_step acquires drop_lease) (lim, []) ops = (lim', leases)"
  shows "in_flight lim' = count_list leases \<and> (\<forall>k. count_list leases k \<le> cc_max_concurrent c) \<and>
    card (set leases) \<le> cc_max_tracked_keys c \<and>
    cn_active_concurrency lim' = length leases mod 2 ^ 64 \<and>
    (\<forall>k. fst (acquires k lim') \<longleftrightarrow> count_list leases k < cc_max_concurrent c \<and>
       (k \<notin> set leases \<longrightarrow> card (set leases) < cc_max_tracked_keys c)) \<and>
    in_flight (fst (foldl (lease_step acquires drop_lease) (lim', leases) (map Drop leases))) = (\<lambda>_. 0)"
proof -
  have new: "concurrency_ok c lim" "in_flight lim = (\<lambda>_. 0)" "cn_active_concurrency lim = 0"
    using concurrency_new_ok [OF assms(1)] by blast+
  have "gauge_inv c (lim, [])" using new by (auto simp: gauge_inv_def conc.ledger_def)
  then have "gauge_inv c (lim', leases)"
    using gauge.run_inv [of ops c "(lim, [])"] assms(2) by (simp add: list_all_iff)
  then have "cn_active_concurrency lim' = length leases mod 2 ^ 64" by (simp add: gauge_inv_def)
  then show ?thesis
    using conc.run_exact [OF new(1,2) assms(2)] conc.run_no_leak [OF new(1,2) assms(2)] by blast
qed

definition sample_concurrency :: local_concurrency_limit_config where
  "sample_concurrency =
     \<lparr>cc_scope = ScopeRoute ''api'', cc_key_kind = KeyRouteName, cc_max_concurrent = 1,
      cc_max_tracked_keys = 2\<rparr>"

definition sample_limiter :: local_concurrency_limiter where
  "sample_limiter =
     \<lparr>cn_config = sample_concurrency, cn_counts = [], cn_active_concurrency = 0,
      cn_acquired_count = 0, cn_rejection_count = 0\<rparr>"

theorem concurrency_limit_exact_witness:
  "\<not> fst (acquires ''a'' (fst (foldl (lease_step acquires drop_lease) (sample_limiter, [])
      [Acquire ''a'', Acquire ''b'', Drop ''b''])))"
proof -
  let ?r = "foldl (lease_step acquires drop_lease) (sample_limiter, []) [Acquire ''a'', Acquire ''b'', Drop ''b'']"
  have new: "concurrency_limiter_new sample_concurrency = Ok sample_limiter" by code_simp
  have leases: "snd ?r = [''a'']" by code_simp
  have "?r = (fst ?r, snd ?r)" by simp
  from concurrency_limit_exact [OF new this] leases show ?thesis
    by (simp add: sample_concurrency_def)
qed

section \<open>The rate limiter\<close>

definition rate_ok :: "local_rate_limiter \<Rightarrow> bool" where
  "rate_ok lim \<longleftrightarrow> 0 < rc_max_tracked_keys (lr_config lim) \<and> bt_ok (lr_state lim) \<and>
     length (lr_state lim) \<le> rc_max_tracked_keys (lr_config lim) \<and>
     (\<forall>k e. map_of (lr_state lim) k = Some e \<longrightarrow> rw_count e \<le> rc_requests_per_window (lr_config lim))"

definition rate_key :: "local_rate_limiter \<Rightarrow> limit_context \<Rightarrow> string" where
  "rate_key lim cx = normalize_limit_key (rc_scope (lr_config lim)) (rc_key_kind (lr_config lim)) cx"

definition entry_step ::
  "local_rate_limit_config \<Rightarrow> duration \<Rightarrow> rate_window_state \<Rightarrow> bool \<times> rate_window_state" where
  "entry_step c now e = map_prod rl_allowed id (entry_check c now e)"

interpretation window: fixed_window rw_window_started rw_count "entry_step c"
  "rc_window c" "rc_requests_per_window c" for c
  by unfold_locales (auto simp: entry_step_def entry_check_def Let_def)

definition fresh_entry :: "duration \<Rightarrow> rate_window_state" where
  "fresh_entry now = \<lparr>rw_window_started = now, rw_count = 0, rw_last_seen_tick = duration_tick now\<rparr>"

definition make_room :: "string \<Rightarrow> local_rate_limiter \<Rightarrow> (string, rate_window_state) btree_map" where
  "make_room key lim =
     (if \<not> bt_has key (lr_state lim) \<and> length (lr_state lim) = rc_max_tracked_keys (lr_config lim)
      then evict_oldest_key (lr_state lim) else lr_state lim)"

lemma arg_min_list_in: "xs \<noteq> [] \<Longrightarrow> arg_min_list f xs \<in> set xs"
  by (induction xs rule: induct_list012) (auto simp: Let_def)

lemma evict_length: "bt_ok m \<Longrightarrow> m \<noteq> [] \<Longrightarrow> Suc (length (evict_oldest_key m)) = length m"
proof -
  assume ok: "bt_ok m" and ne: "m \<noteq> []"
  have "bt_has (fst (arg_min_list (\<lambda>e. rw_last_seen_tick (snd e)) m)) m"
    using imageI [OF arg_min_list_in [OF ne], of fst] by (simp add: bt_has_iff)
  with ok ne show ?thesis by (simp add: evict_oldest_key_def length_bt_remove)
qed

lemma make_room_facts:
  assumes "rate_ok lim"
  shows "bt_ok (make_room key lim) \<and>
    (\<not> bt_has key (make_room key lim) \<longrightarrow> length (make_room key lim) < rc_max_tracked_keys (lr_config lim)) \<and>
    length (make_room key lim) \<le> rc_max_tracked_keys (lr_config lim) \<and>
    (\<forall>k e. map_of (make_room key lim) k = Some e \<longrightarrow> map_of (lr_state lim) k = Some e)"
proof (cases "\<not> bt_has key (lr_state lim) \<and> length (lr_state lim) = rc_max_tracked_keys (lr_config lim)")
  case True
  with assms have ne: "lr_state lim \<noteq> []" and ok: "bt_ok (lr_state lim)" by (auto simp: rate_ok_def)
  have len: "Suc (length (evict_oldest_key (lr_state lim))) = length (lr_state lim)"
    using evict_length [OF ok ne] .
  with ne ok True show ?thesis
    by (auto simp: make_room_def evict_oldest_key_def bt_remove_ok map_of_bt_remove split: if_splits)
qed (use assms in \<open>auto simp: make_room_def rate_ok_def\<close>)

lemma rate_check_key_cases:
  assumes "rate_ok lim"
  shows "rate_check_key now key lim =
    (case entry_check (lr_config lim) now (bt_get_or key (fresh_entry now) (make_room key lim)) of
       (d, e) \<Rightarrow>
         (Ok d, if rl_allowed d
          then lim\<lparr>lr_state := bt_insert key e (make_room key lim),
                   lr_allowed_count := wrap_add 64 (lr_allowed_count lim) 1\<rparr>
          else lim\<lparr>lr_state := bt_insert key e (make_room key lim),
                   lr_rate_limited_count := wrap_add 64 (lr_rate_limited_count lim) 1\<rparr>))"
proof -
  have "\<not> (\<not> bt_has key (make_room key lim) \<and>
      length (make_room key lim) = rc_max_tracked_keys (lr_config lim))"
    using make_room_facts [OF assms, of key] by auto
  then show ?thesis
    unfolding rate_check_key_def Let_def make_room_def [symmetric] fresh_entry_def [symmetric]
    by (rule if_not_P)
qed

lemma entry_check_count:
  "rw_count e \<le> rc_requests_per_window c \<Longrightarrow> rw_count (snd (entry_check c now e)) \<le> rc_requests_per_window c"
  by (auto simp: entry_check_def Let_def)

lemma rate_check_key_ok: "rate_ok lim \<Longrightarrow> rate_ok (snd (rate_check_key now key lim))"
proof -
  assume ok: "rate_ok lim"
  note room = make_room_facts [OF ok, of key]
  let ?e = "bt_get_or key (fresh_entry now) (make_room key lim)"
  obtain d e where de: "entry_check (lr_config lim) now ?e = (d, e)" by fastforce
  have "rw_count ?e \<le> rc_requests_per_window (lr_config lim)"
    using room ok by (auto simp: bt_get_or_def fresh_entry_def rate_ok_def split: option.split)
  from entry_check_count [OF this, of now] de
  have "rw_count e \<le> rc_requests_per_window (lr_config lim)" by simp
  with room ok show ?thesis
    by (auto simp: rate_check_key_cases [OF ok] de rate_ok_def bt_insert_ok map_of_bt_insert length_bt_insert)
qed

lemma rate_check_ok: "rate_ok lim \<Longrightarrow> rate_ok (snd (rate_check now cx lim))"
  unfolding rate_check_def by (rule rate_check_key_ok)

interpretation limiter: invariant_machine "\<lambda>lim e. snd (rate_check (fst e) (snd e) lim)" "\<lambda>_. True" rate_ok
  by unfold_locales (rule rate_check_ok)

lemma rate_limiter_new_ok: "rate_limiter_new c = Ok lim \<Longrightarrow> rate_ok lim"
  by (auto simp: rate_limiter_new_def rate_config_validate_def and_then_eq_Ok rate_ok_def split: if_splits)

text \<open>
  The rate limiter always decides and its state is bounded: after any sequence of checks
  on a limiter that was accepted at construction, at most the configured number of keys is
  tracked, no counter is above the limit, and the next check returns a decision: the error
  for a saturated table cannot occur.
\<close>

lemma rate_limiter_always_decides:
  assumes "rate_limiter_new c = Ok lim"
    and "foldl (\<lambda>l e. snd (rate_check (fst e) (snd e) l)) lim events = lim'"
  shows "rlm_tracked_keys (rate_metrics lim') \<le> rc_max_tracked_keys (lr_config lim') \<and>
    rate_ok lim' \<and> (\<exists>d. fst (rate_check now cx lim') = Ok d)"
proof -
  have ok: "rate_ok lim'"
    using limiter.run_inv [of events lim] rate_limiter_new_ok [OF assms(1)] assms(2)
    by (simp add: list_all_iff)
  then show ?thesis
    by (auto simp: rate_metrics_def rate_ok_def [of lim'] rate_check_def rate_check_key_cases
        split: prod.split)
qed

text \<open>The requests of one key that a run lets through.\<close>

definition allows :: "(rate_limit_decision, local_limit_error) result \<Rightarrow> bool" where
  "allows r = (case r of Inl _ \<Rightarrow> False | Inr d \<Rightarrow> rl_allowed d)"

fun granted_for :: "string \<Rightarrow> local_rate_limiter \<Rightarrow> (duration \<times> limit_context) list \<Rightarrow> nat" where
  "granted_for k lim [] = 0"
| "granted_for k lim ((t, cx) # es) =
     (case rate_check t cx lim of (r, lim') \<Rightarrow>
        of_bool (rate_key lim cx = k \<and> allows r) + granted_for k lim' es)"

definition times_of :: "string \<Rightarrow> local_rate_limiter \<Rightarrow> (duration \<times> limit_context) list \<Rightarrow> duration list" where
  "times_of k lim es = map fst (filter (\<lambda>e. rate_key lim (snd e) = k) es)"

definition run_keys :: "local_rate_limiter \<Rightarrow> (duration \<times> limit_context) list \<Rightarrow> string set" where
  "run_keys lim es = fst ` set (lr_state lim) \<union> (\<lambda>e. rate_key lim (snd e)) ` set es"

definition entry_for :: "string \<Rightarrow> local_rate_limiter \<Rightarrow> duration list \<Rightarrow> rate_window_state" where
  "entry_for k lim ts = bt_get_or k (fresh_entry (hd ts)) (lr_state lim)"

lemma rate_check_config: "rate_ok lim \<Longrightarrow> lr_config (snd (rate_check now cx lim)) = lr_config lim"
  by (simp add: rate_check_def rate_check_key_cases case_prod_beta)

lemma no_eviction:
  assumes "rate_ok lim" and "card (run_keys lim ((t, cx) # es)) \<le> rc_max_tracked_keys (lr_config lim)"
  shows "make_room (rate_key lim cx) lim = lr_state lim"
proof -
  let ?k = "rate_key lim cx"
  have "length (lr_state lim) \<noteq> rc_max_tracked_keys (lr_config lim)" if "\<not> bt_has ?k (lr_state lim)"
  proof -
    have "length (lr_state lim) = card (fst ` set (lr_state lim))"
      using distinct_card [OF bt_ok_distinct, of "lr_state lim"] assms(1) by (simp add: rate_ok_def)
    also have "\<dots> < card (insert ?k (fst ` set (lr_state lim)))"
      using that by (simp add: bt_has_iff)
    also have "\<dots> \<le> card (run_keys lim ((t, cx) # es))"
      by (rule card_mono) (auto simp: run_keys_def)
    finally show ?thesis using assms(2) by simp
  qed
  then show ?thesis by (auto simp: make_room_def)
qed

lemma rate_check_entry:
  assumes "rate_ok lim" and "card (run_keys lim ((t, cx) # es)) \<le> rc_max_tracked_keys (lr_config lim)"
  shows "let k = rate_key lim cx; r = entry_step (lr_config lim) t (bt_get_or k (fresh_entry t) (lr_state lim)) in
    allows (fst (rate_check t cx lim)) = fst r \<and>
    lr_state (snd (rate_check t cx lim)) = bt_insert k (snd r) (lr_state lim)"
  using no_eviction [OF assms]
  by (simp add: rate_check_def rate_key_def [symmetric] rate_check_key_cases [OF assms(1)] allows_def
      entry_step_def case_prod_beta Let_def)

lemma granted_for_window:
  assumes "rate_ok lim" and "card (run_keys lim es) \<le> rc_max_tracked_keys (lr_config lim)"
  shows "granted_for k lim es =
    fst (window_run (entry_step (lr_config lim)) (entry_for k lim (times_of k lim es)) (times_of k lim es))"
  using assms
proof (induction es arbitrary: lim)
  case (Cons ev es)
  obtain t cx where ev: "ev = (t, cx)" by (cases ev)
  let ?l = "snd (rate_check t cx lim)" and ?k = "rate_key lim cx"
  note st = rate_check_entry [OF Cons.prems [unfolded ev], unfolded Let_def]
  have ok: "rate_ok ?l" "lr_config ?l = lr_config lim"
    using Cons.prems(1) by (simp_all add: rate_check_ok rate_check_config)
  then have keys: "rate_key ?l = rate_key lim" by (simp add: rate_key_def fun_eq_iff)
  then have ts: "times_of k ?l es = times_of k lim es" by (simp add: times_of_def)
  have "run_keys ?l es = run_keys lim (ev # es)"
    using st by (auto simp: run_keys_def keys ev set_fst_bt_insert)
  then have IH: "granted_for k ?l es =
      fst (window_run (entry_step (lr_config lim)) (entry_for k ?l (times_of k lim es)) (times_of k lim es))"
    using Cons.IH [OF ok(1)] Cons.prems(2) ok(2) ts by simp
  have bt: "bt_ok (lr_state lim)" using Cons.prems(1) by (simp add: rate_ok_def)
  show ?case
  proof (cases "?k = k")
    case True
    have "entry_for k ?l (times_of k lim es) =
        snd (entry_step (lr_config lim) t (bt_get_or k (fresh_entry t) (lr_state lim)))"
      using st True bt by (simp add: entry_for_def bt_get_or_def [of k] map_of_bt_insert)
    with True IH st show ?thesis
      by (simp add: ev times_of_def entry_for_def [of k lim] case_prod_beta)
  next
    case False
    have "entry_for k ?l (times_of k lim es) = entry_for k lim (times_of k lim es)"
      using st False bt by (simp add: entry_for_def bt_get_or_def [of k] map_of_bt_insert)
    with False IH show ?thesis by (simp add: ev times_of_def case_prod_beta)
  qed
qed (simp add: times_of_def)

text \<open>
  C31. The rate limit holds: as long as the keys in use fit into the table, in any period of
  the length of the window a key gets at most twice its limit through, and a key that is new
  gets through exactly its first requests, up to the limit.
\<close>

theorem rate_limit_holds:
  assumes "rate_ok lim" and "card (run_keys lim es) \<le> rc_max_tracked_keys (lr_config lim)"
    and "\<forall>e\<in>set es. lo \<le> fst e \<and> fst e < lo + rc_window (lr_config lim)"
  shows "granted_for k lim es \<le> 2 * rc_requests_per_window (lr_config lim) \<and>
    (\<not> bt_has k (lr_state lim) \<longrightarrow>
       granted_for k lim es = min (length (times_of k lim es)) (rc_requests_per_window (lr_config lim)))"
proof -
  let ?ts = "times_of k lim es" and ?c = "lr_config lim"
  have per: "\<forall>t\<in>set ?ts. lo \<le> t \<and> t < lo + rc_window ?c"
    using assms(3) by (auto simp: times_of_def)
  have used: "rw_count (entry_for k lim ?ts) \<le> rc_requests_per_window ?c"
    using assms(1) by (auto simp: entry_for_def bt_get_or_def fresh_entry_def rate_ok_def split: option.split)
  have "granted_for k lim es = min (length ?ts) (rc_requests_per_window ?c)" if new: "\<not> bt_has k (lr_state lim)"
  proof (cases ?ts)
    case Nil
    then show ?thesis by (simp add: granted_for_window [OF assms(1,2)])
  next
    case (Cons t ts)
    have e: "entry_for k lim ?ts = fresh_entry t"
      using new Cons by (simp add: entry_for_def bt_get_or_def bt_has_def)
    have "\<forall>u\<in>set ?ts. u - rw_window_started (fresh_entry t) < rc_window ?c"
    proof
      fix u assume "u \<in> set ?ts"
      moreover have "t \<in> set ?ts" using Cons by simp
      ultimately have "u < lo + rc_window ?c" "lo \<le> t" "t < lo + rc_window ?c" using per by auto
      then show "u - rw_window_started (fresh_entry t) < rc_window ?c" by (auto simp: fresh_entry_def)
    qed
    from window.same_window [OF this] show ?thesis
      by (simp add: granted_for_window [OF assms(1,2)] e) (simp add: fresh_entry_def)
  qed
  moreover have "granted_for k lim es \<le> 2 * rc_requests_per_window ?c"
    using window.any_period [OF per used] by (simp add: granted_for_window [OF assms(1,2)])
  ultimately show ?thesis by blast
qed

definition sample_rate :: local_rate_limiter where
  "sample_rate =
     \<lparr>lr_config = \<lparr>rc_scope = ScopeRoute ''api'', rc_key_kind = KeyRouteName,
                   rc_requests_per_window = 2, rc_window = secs 1, rc_max_tracked_keys = 1\<rparr>,
      lr_state = [], lr_allowed_count = 0, lr_rate_limited_count = 0\<rparr>"

definition sample_context :: limit_context where
  "sample_context = \<lparr>lx_source_ip = None, lx_route_name = Some ''v1'', lx_upstream_cluster = None\<rparr>"

theorem rate_limit_holds_witness:
  "granted_for (rate_key sample_rate sample_context) sample_rate
     [(0, sample_context), (1, sample_context), (2, sample_context)] = 2"
proof -
  let ?es = "[(0, sample_context), (1, sample_context), (2, sample_context)]"
  have "rate_ok sample_rate" "\<not> bt_has (rate_key sample_rate sample_context) (lr_state sample_rate)"
    by (simp_all add: rate_ok_def sample_rate_def bt_has_def)
  moreover have "run_keys sample_rate ?es = {rate_key sample_rate sample_context}"
    by (simp add: run_keys_def sample_rate_def [THEN arg_cong, of lr_state])
  moreover have "\<forall>e\<in>set ?es. 0 \<le> fst e \<and> fst e < 0 + rc_window (lr_config sample_rate)"
    by (simp add: sample_rate_def secs_def)
  ultimately show ?thesis
    using rate_limit_holds [of sample_rate ?es 0 "rate_key sample_rate sample_context"]
    by (simp add: times_of_def) (simp add: sample_rate_def)
qed

end
