(* ===== verification/Overload_Management.thy ===== *)
theory Overload_Management
  imports LB_Prelude
begin

text \<open>
  \<open>crates/runtime/src/overload_management.rs\<close>: overload signals in a sliding window, the
  overload state they are classified into, the shedding decision per traffic class and the
  features switched off in a brownout. A \<open>BTreeSet\<close> is a strictly increasing list.

  The sum over the samples is kept as a natural number: there are at most four counts per
  sample held in memory, so the \<open>u64\<close> of the code cannot overflow. The lemmas show that the
  queue with eviction from the front is the full history seen through the window, and that
  shedding follows the priorities.
\<close>

section \<open>Classes, states and policy\<close>

definition MAX_OVERLOAD_EVENTS :: nat where
  "MAX_OVERLOAD_EVENTS = 64"

datatype traffic_class = Critical | DefaultClass | BestEffort

datatype overload_state = Normal | Constrained | Shedding | Brownout

record brownout_feature =
  bf_name :: string
  bf_priority :: traffic_class

record overload_policy =
  op_signal_window :: duration
  op_constrained_signal_threshold :: nat
  op_shedding_signal_threshold :: nat
  op_brownout_signal_threshold :: nat

definition overload_policy_default :: overload_policy where
  "overload_policy_default =
     \<lparr>op_signal_window = secs 10, op_constrained_signal_threshold = 3,
      op_shedding_signal_threshold = 6, op_brownout_signal_threshold = 9\<rparr>"

datatype overload_management_error =
    ZeroSignalWindow
  | ZeroSignalThreshold
  | InvalidSignalThresholdOrder
  | EmptyBrownoutFeatureName
  | DuplicateBrownoutFeature

definition overload_policy_validate :: "overload_policy \<Rightarrow> (unit, overload_management_error) result" where
  "overload_policy_validate p =
     (if op_signal_window p = 0 then Err ZeroSignalWindow
      else if op_constrained_signal_threshold p = 0 \<or> op_shedding_signal_threshold p = 0
         \<or> op_brownout_signal_threshold p = 0
      then Err ZeroSignalThreshold
      else if op_constrained_signal_threshold p > op_shedding_signal_threshold p
         \<or> op_shedding_signal_threshold p > op_brownout_signal_threshold p
      then Err InvalidSignalThresholdOrder
      else Ok ())"

datatype overload_signal_kind =
    RateLimited | ConcurrencyLimited | CircuitBreakerOpen | RetryBudgetExhausted

primrec signal_rank :: "overload_signal_kind \<Rightarrow> nat" where
  "signal_rank RateLimited = 0"
| "signal_rank ConcurrencyLimited = 1"
| "signal_rank CircuitBreakerOpen = 2"
| "signal_rank RetryBudgetExhausted = 3"

lemma signal_rank_inj: "signal_rank a = signal_rank b \<Longrightarrow> a = b"
  by (cases a; cases b) simp_all

instantiation overload_signal_kind :: linorder
begin

definition less_eq_overload_signal_kind :: "overload_signal_kind \<Rightarrow> overload_signal_kind \<Rightarrow> bool" where
  "less_eq_overload_signal_kind a b = (signal_rank a \<le> signal_rank b)"

definition less_overload_signal_kind :: "overload_signal_kind \<Rightarrow> overload_signal_kind \<Rightarrow> bool" where
  "less_overload_signal_kind a b = (signal_rank a < signal_rank b)"

instance
  by standard (auto simp: less_eq_overload_signal_kind_def less_overload_signal_kind_def
      intro: signal_rank_inj)

end

record overload_signal =
  os_rate_limited :: bool
  os_concurrency_limited :: bool
  os_breaker_open :: bool
  os_retry_budget_exhausted :: bool

definition active_count :: "overload_signal \<Rightarrow> nat" where
  "active_count s =
     of_bool (os_rate_limited s) + of_bool (os_concurrency_limited s)
       + of_bool (os_breaker_open s) + of_bool (os_retry_budget_exhausted s)"

definition active_kinds :: "overload_signal \<Rightarrow> overload_signal_kind list" where
  "active_kinds s =
     (if os_rate_limited s then [RateLimited] else [])
       @ (if os_concurrency_limited s then [ConcurrencyLimited] else [])
       @ (if os_breaker_open s then [CircuitBreakerOpen] else [])
       @ (if os_retry_budget_exhausted s then [RetryBudgetExhausted] else [])"

datatype shedding_action = Allow | Shed

datatype shed_reason = PriorityDrop | BrownoutActive

record shedding_decision =
  sd_action :: shedding_action
  sd_state :: overload_state
  sd_reason :: "shed_reason option"

record overload_snapshot =
  ov_state :: overload_state
  ov_active_signal_count :: nat
  ov_rate_limited_count :: nat
  ov_concurrency_limited_count :: nat
  ov_breaker_open_count :: nat
  ov_retry_budget_exhausted_count :: nat
  ov_shed_request_count :: nat
  ov_brownout_feature_count :: nat

record overload_metrics =
  om_state_change_count :: nat
  om_shed_request_count :: nat
  om_brownout_activation_count :: nat
  om_signal_counts :: "(overload_signal_kind, nat) btree_map"

datatype overload_event_kind = StateChanged | RequestShed | BrownoutFeaturesChanged

record overload_event =
  oe_kind :: overload_event_kind
  oe_scope :: string
  oe_detail :: string

section \<open>Brownout hooks\<close>

text \<open>The check of the feature names: the names seen so far are a set of normalised names.\<close>

fun check_feature_names :: "string list \<Rightarrow> brownout_feature list \<Rightarrow> (unit, overload_management_error) result" where
  "check_feature_names seen [] = Ok ()"
| "check_feature_names seen (f # fs) =
     (let normalized = to_ascii_lowercase (trim (bf_name f))
      in if normalized = [] then Err EmptyBrownoutFeatureName
         else if normalized \<in> set seen then Err DuplicateBrownoutFeature
         else check_feature_names (normalized # seen) fs)"

definition brownout_hooks_new ::
  "brownout_feature list \<Rightarrow> (brownout_feature list, overload_management_error) result" where
  "brownout_hooks_new fs = and_then (check_feature_names [] fs) (\<lambda>_. Ok fs)"

fun should_disable_feature :: "overload_state \<Rightarrow> traffic_class \<Rightarrow> bool" where
  "should_disable_feature Normal _ = False"
| "should_disable_feature Constrained _ = False"
| "should_disable_feature Shedding priority = (priority = BestEffort)"
| "should_disable_feature Brownout priority = (priority \<noteq> Critical)"

definition disabled_features_for :: "brownout_feature list \<Rightarrow> overload_state \<Rightarrow> string list" where
  "disabled_features_for fs state =
     fold (\<lambda>f disabled. if should_disable_feature state (bf_priority f)
                         then insort_insert (bf_name f) disabled else disabled) fs []"

section \<open>Manager\<close>

record signal_sample =
  ss_observed_at :: duration
  ss_signal :: overload_signal

record overload_manager =
  mg_policy :: overload_policy
  mg_hooks :: "brownout_feature list"
  mg_state :: overload_state
  mg_samples :: "signal_sample list"
  mg_disabled_features :: "string list"
  mg_state_change_count :: nat
  mg_shed_request_count :: nat
  mg_brownout_activation_count :: nat
  mg_events :: "overload_event list"

definition overload_manager_new ::
  "overload_policy \<Rightarrow> brownout_feature list \<Rightarrow> (overload_manager, overload_management_error) result" where
  "overload_manager_new p hooks =
     and_then (overload_policy_validate p) (\<lambda>_.
     Ok \<lparr>mg_policy = p, mg_hooks = hooks, mg_state = Normal, mg_samples = [],
         mg_disabled_features = [], mg_state_change_count = 0, mg_shed_request_count = 0,
         mg_brownout_activation_count = 0, mg_events = []\<rparr>)"

definition classify_state :: "overload_policy \<Rightarrow> nat \<Rightarrow> overload_state" where
  "classify_state p n =
     (if n \<ge> op_brownout_signal_threshold p then Brownout
      else if n \<ge> op_shedding_signal_threshold p then Shedding
      else if n \<ge> op_constrained_signal_threshold p then Constrained
      else Normal)"

fun evict_old_samples :: "overload_policy \<Rightarrow> duration \<Rightarrow> signal_sample list \<Rightarrow> signal_sample list" where
  "evict_old_samples p now [] = []"
| "evict_old_samples p now (s # ss) =
     (if now - ss_observed_at s < op_signal_window p then s # ss else evict_old_samples p now ss)"

definition aggregate_signal_counts :: "signal_sample list \<Rightarrow> (overload_signal_kind, nat) btree_map" where
  "aggregate_signal_counts samples =
     fold (\<lambda>s counts. fold (\<lambda>k. bt_entry k 0 Suc) (active_kinds (ss_signal s)) counts) samples []"

definition push_overload_event :: "overload_event_kind \<Rightarrow> string \<Rightarrow> overload_manager \<Rightarrow> overload_manager" where
  "push_overload_event kind detail m =
     m\<lparr>mg_events := push_bounded MAX_OVERLOAD_EVENTS (mg_events m)
        \<lparr>oe_kind = kind, oe_scope = ''dataplane'', oe_detail = detail\<rparr>\<rparr>"

fun show_overload_state :: "overload_state \<Rightarrow> string" where
  "show_overload_state Normal = ''Normal''"
| "show_overload_state Constrained = ''Constrained''"
| "show_overload_state Shedding = ''Shedding''"
| "show_overload_state Brownout = ''Brownout''"

fun show_traffic_class :: "traffic_class \<Rightarrow> string" where
  "show_traffic_class Critical = ''Critical''"
| "show_traffic_class DefaultClass = ''Default''"
| "show_traffic_class BestEffort = ''BestEffort''"

fun join_commas :: "string list \<Rightarrow> string" where
  "join_commas [] = []"
| "join_commas [x] = x"
| "join_commas (x # y # xs) = x @ '','' @ join_commas (y # xs)"

definition enter_state :: "overload_state \<Rightarrow> overload_manager \<Rightarrow> overload_manager" where
  "enter_state next m =
     (if next \<noteq> mg_state m
      then push_overload_event StateChanged
             (''overload state transitioned to '' @ show_overload_state next)
             (m\<lparr>mg_state := next,
                mg_state_change_count := wrap_add 64 (mg_state_change_count m) 1\<rparr>)
      else m)"

definition update_brownout :: "overload_manager \<Rightarrow> overload_manager" where
  "update_brownout m =
     (let disabled = disabled_features_for (mg_hooks m) (mg_state m)
      in if disabled \<noteq> mg_disabled_features m
         then let entering = (disabled \<noteq> [] \<and> mg_disabled_features m = []);
                  m = m\<lparr>mg_disabled_features := disabled,
                        mg_brownout_activation_count :=
                          (if entering then wrap_add 64 (mg_brownout_activation_count m) 1
                           else mg_brownout_activation_count m)\<rparr>
              in if disabled \<noteq> []
                 then push_overload_event BrownoutFeaturesChanged
                        (''brownout features disabled: '' @ join_commas disabled) m
                 else m
         else m)"

definition snapshot_of :: "overload_manager \<Rightarrow> overload_snapshot" where
  "snapshot_of m =
     (let counts = aggregate_signal_counts (mg_samples m)
      in \<lparr>ov_state = mg_state m,
          ov_active_signal_count = sum_list (map snd counts),
          ov_rate_limited_count = bt_get_or RateLimited 0 counts,
          ov_concurrency_limited_count = bt_get_or ConcurrencyLimited 0 counts,
          ov_breaker_open_count = bt_get_or CircuitBreakerOpen 0 counts,
          ov_retry_budget_exhausted_count = bt_get_or RetryBudgetExhausted 0 counts,
          ov_shed_request_count = mg_shed_request_count m,
          ov_brownout_feature_count = length (mg_disabled_features m)\<rparr>)"

definition record_signal ::
  "duration \<Rightarrow> overload_signal \<Rightarrow> overload_manager \<Rightarrow> overload_snapshot \<times> overload_manager" where
  "record_signal now signal m =
     (let m = m\<lparr>mg_samples := evict_old_samples (mg_policy m) now
                  (mg_samples m @ [\<lparr>ss_observed_at = now, ss_signal = signal\<rparr>])\<rparr>;
          active = sum_list (map snd (aggregate_signal_counts (mg_samples m)));
          m = update_brownout (enter_state (classify_state (mg_policy m) active) m)
      in (snapshot_of m, m))"

definition shed_action :: "overload_state \<Rightarrow> traffic_class \<Rightarrow> shedding_action" where
  "shed_action state class =
     (case state of
        Normal \<Rightarrow> Allow
      | Constrained \<Rightarrow> (case class of BestEffort \<Rightarrow> Shed | _ \<Rightarrow> Allow)
      | Shedding \<Rightarrow> (case class of Critical \<Rightarrow> Allow | _ \<Rightarrow> Shed)
      | Brownout \<Rightarrow> (case class of Critical \<Rightarrow> Allow | _ \<Rightarrow> Shed))"

definition decide :: "traffic_class \<Rightarrow> overload_manager \<Rightarrow> shedding_decision \<times> overload_manager" where
  "decide class m =
     (let action = shed_action (mg_state m) class;
          reason = (case action of
                      Allow \<Rightarrow> None
                    | Shed \<Rightarrow> Some (if mg_state m = Brownout then BrownoutActive else PriorityDrop));
          m = (if action = Shed
               then push_overload_event RequestShed
                      (''shed '' @ show_traffic_class class @ '' traffic under overload'')
                      (m\<lparr>mg_shed_request_count := wrap_add 64 (mg_shed_request_count m) 1\<rparr>)
               else m)
      in (\<lparr>sd_action = action, sd_state = mg_state m, sd_reason = reason\<rparr>, m))"

definition evict :: "duration \<Rightarrow> overload_manager \<Rightarrow> overload_manager" where
  "evict now m = m\<lparr>mg_samples := evict_old_samples (mg_policy m) now (mg_samples m)\<rparr>"

definition overload_snapshot_at :: "duration \<Rightarrow> overload_manager \<Rightarrow> overload_snapshot \<times> overload_manager" where
  "overload_snapshot_at now m = (let m = evict now m in (snapshot_of m, m))"

definition overload_metrics_at :: "duration \<Rightarrow> overload_manager \<Rightarrow> overload_metrics \<times> overload_manager" where
  "overload_metrics_at now m =
     (let m = evict now m
      in (\<lparr>om_state_change_count = mg_state_change_count m,
           om_shed_request_count = mg_shed_request_count m,
           om_brownout_activation_count = mg_brownout_activation_count m,
           om_signal_counts = aggregate_signal_counts (mg_samples m)\<rparr>, m))"

section \<open>The window over the history\<close>

text \<open>The specification keeps the whole history and looks at it through the window.\<close>

definition in_window :: "overload_policy \<Rightarrow> duration \<Rightarrow> signal_sample \<Rightarrow> bool" where
  "in_window p now s \<longleftrightarrow> now - ss_observed_at s < op_signal_window p"

definition active_in :: "overload_policy \<Rightarrow> duration \<Rightarrow> signal_sample list \<Rightarrow> nat" where
  "active_in p now h = (\<Sum>s\<leftarrow>filter (in_window p now) h. active_count (ss_signal s))"

datatype overload_op =
    RecordSignal duration overload_signal
  | Decide traffic_class
  | TakeSnapshot duration
  | TakeMetrics duration

primrec overload_step :: "overload_manager \<Rightarrow> overload_op \<Rightarrow> overload_manager" where
  "overload_step m (RecordSignal t s) = snd (record_signal t s m)"
| "overload_step m (Decide c) = snd (decide c m)"
| "overload_step m (TakeSnapshot t) = snd (overload_snapshot_at t m)"
| "overload_step m (TakeMetrics t) = snd (overload_metrics_at t m)"

primrec op_time :: "overload_op \<Rightarrow> duration option" where
  "op_time (RecordSignal t s) = Some t"
| "op_time (Decide c) = None"
| "op_time (TakeSnapshot t) = Some t"
| "op_time (TakeMetrics t) = Some t"

definition op_times :: "overload_op list \<Rightarrow> duration list" where
  "op_times ops = List.map_filter op_time ops"

fun history :: "overload_op list \<Rightarrow> signal_sample list" where
  "history [] = []"
| "history (RecordSignal t s # ops) = \<lparr>ss_observed_at = t, ss_signal = s\<rparr> # history ops"
| "history (_ # ops) = history ops"

lemma sum_snd_bt_entry:
  "bt_ok m \<Longrightarrow> sum_list (map snd (bt_entry k 0 Suc m)) = Suc (sum_list (map snd m))"
proof -
  have ins: "sum_list (map snd (bt_insert k v m)) + (case map_of m k of None \<Rightarrow> 0 | Some w \<Rightarrow> w)
      = sum_list (map snd m) + v" if "bt_ok m" for m :: "('a \<times> nat) list" and v
    using that
  proof (induction m)
    case (Cons e m)
    have "map_of m k = None" if "k \<le> fst e"
      using Cons.prems that by (force simp: bt_ok_Cons map_of_eq_None_iff)
    with Cons show ?case by (cases e) (auto simp: bt_ok_Cons split: option.splits)
  qed simp
  assume "bt_ok m"
  from ins [OF this, of "bt_get_or k 0 m + 1"] show ?thesis
    by (auto simp: bt_entry_def bt_get_or_def split: option.splits)
qed

lemma aggregate_kinds:
  "bt_ok m \<Longrightarrow> bt_ok (fold (\<lambda>k. bt_entry k 0 Suc) ks m) \<and>
     sum_list (map snd (fold (\<lambda>k. bt_entry k 0 Suc) ks m)) = sum_list (map snd m) + length ks"
  by (induction ks arbitrary: m) (simp_all add: bt_entry_ok sum_snd_bt_entry)

lemma active_kinds_length: "length (active_kinds s) = active_count s"
  by (simp add: active_kinds_def active_count_def)

lemma aggregate_sum:
  "sum_list (map snd (aggregate_signal_counts samples)) = (\<Sum>s\<leftarrow>samples. active_count (ss_signal s))"
proof -
  have "bt_ok m \<Longrightarrow> sum_list (map snd (fold (\<lambda>s counts.
      fold (\<lambda>k. bt_entry k 0 Suc) (active_kinds (ss_signal s)) counts) samples m))
    = sum_list (map snd m) + (\<Sum>s\<leftarrow>samples. active_count (ss_signal s))" for m
    by (induction samples arbitrary: m) (simp_all add: aggregate_kinds active_kinds_length)
  from this [of "[]"] show ?thesis by (simp add: aggregate_signal_counts_def)
qed

lemma evict_is_filter:
  "sorted (map ss_observed_at ss) \<Longrightarrow> evict_old_samples p now ss = filter (in_window p now) ss"
proof (induction ss)
  case (Cons s ss)
  have "filter (in_window p now) ss = ss" if "in_window p now s"
    using Cons.prems that by (intro filter_True) (auto simp: in_window_def)
  moreover have "evict_old_samples p now (s # ss) =
      (if in_window p now s then s # ss else evict_old_samples p now ss)"
    by (simp add: in_window_def)
  ultimately show ?case using Cons by (auto simp del: evict_old_samples.simps)
qed simp

lemma in_window_mono: "now \<le> now' \<Longrightarrow> in_window p now' s \<Longrightarrow> in_window p now s"
  by (auto simp: in_window_def)

text \<open>
  The samples kept are a part of the history that shows the same through every window from
  the time \<open>now\<close> on.
\<close>

definition window_view :: "overload_manager \<Rightarrow> signal_sample list \<Rightarrow> duration \<Rightarrow> bool" where
  "window_view m h now \<longleftrightarrow> sorted (map ss_observed_at (mg_samples m)) \<and>
     (\<forall>s\<in>set (mg_samples m). ss_observed_at s \<le> now) \<and>
     (\<forall>t\<ge>now. filter (in_window (mg_policy m) t) (mg_samples m) = filter (in_window (mg_policy m) t) h)"

lemma window_view_later: "window_view m h now \<Longrightarrow> now \<le> t \<Longrightarrow> window_view m h t"
  by (auto simp: window_view_def intro: order_trans)

lemma window_view_cong:
  "mg_samples m' = mg_samples m \<Longrightarrow> mg_policy m' = mg_policy m \<Longrightarrow> window_view m' h now = window_view m h now"
  by (simp add: window_view_def)

lemma window_view_evict: "window_view m h now \<Longrightarrow> window_view (evict now m) h now"
proof -
  assume v: "window_view m h now"
  then have s: "sorted (map ss_observed_at (mg_samples m))" by (simp add: window_view_def)
  have "filter (in_window (mg_policy m) t) (filter (in_window (mg_policy m) now) (mg_samples m))
      = filter (in_window (mg_policy m) t) (mg_samples m)" if "now \<le> t" for t
    using in_window_mono [OF that] by (auto simp: filter_filter intro: filter_cong)
  moreover have "sorted (map ss_observed_at (filter (in_window (mg_policy m) now) (mg_samples m)))"
    using s by (rule sorted_filter)
  moreover have "\<forall>x\<in>set (filter (in_window (mg_policy m) now) (mg_samples m)). ss_observed_at x \<le> now"
    using v unfolding window_view_def set_filter by blast
  moreover have "\<forall>t\<ge>now. filter (in_window (mg_policy m) t) (mg_samples m) = filter (in_window (mg_policy m) t) h"
    using v unfolding window_view_def by blast
  moreover have "mg_samples (evict now m) = filter (in_window (mg_policy m) now) (mg_samples m)"
    "mg_policy (evict now m) = mg_policy m"
    by (simp_all add: evict_def evict_is_filter [OF s])
  ultimately show ?thesis unfolding window_view_def by metis
qed

lemma window_view_push:
  "window_view m h now \<Longrightarrow>
     window_view (m\<lparr>mg_samples := mg_samples m @ [\<lparr>ss_observed_at = now, ss_signal = sg\<rparr>]\<rparr>)
       (h @ [\<lparr>ss_observed_at = now, ss_signal = sg\<rparr>]) now"
  by (auto simp: window_view_def sorted_append)

lemma update_frame [simp]:
  "mg_samples (enter_state s m) = mg_samples m" "mg_policy (enter_state s m) = mg_policy m"
  "mg_samples (update_brownout m) = mg_samples m" "mg_policy (update_brownout m) = mg_policy m"
  "mg_state (update_brownout m) = mg_state m" "mg_state (enter_state s m) = s"
  "mg_hooks (enter_state s m) = mg_hooks m" "mg_hooks (update_brownout m) = mg_hooks m"
  "mg_disabled_features (enter_state s m) = mg_disabled_features m"
  "mg_disabled_features (update_brownout m) = disabled_features_for (mg_hooks m) (mg_state m)"
  by (simp_all add: enter_state_def update_brownout_def push_overload_event_def Let_def)

lemma decide_frame [simp]:
  "mg_samples (snd (decide c m)) = mg_samples m" "mg_policy (snd (decide c m)) = mg_policy m"
  "mg_state (snd (decide c m)) = mg_state m"
  by (simp_all add: decide_def push_overload_event_def Let_def)

lemma record_signal_samples:
  "mg_samples (snd (record_signal t s m)) =
     mg_samples (evict t (m\<lparr>mg_samples := mg_samples m @ [\<lparr>ss_observed_at = t, ss_signal = s\<rparr>]\<rparr>))"
  "mg_policy (snd (record_signal t s m)) = mg_policy m"
  by (simp_all add: record_signal_def evict_def Let_def)

lemma window_view_record:
  "window_view m h t \<Longrightarrow>
     window_view (snd (record_signal t s m)) (h @ [\<lparr>ss_observed_at = t, ss_signal = s\<rparr>]) t"
  using window_view_evict [OF window_view_push, of m h t s]
  by (rule iffD1 [OF window_view_cong, rotated 2]) (simp_all add: record_signal_samples evict_def)

lemma overload_step_policy [simp]: "mg_policy (overload_step m op) = mg_policy m"
  by (cases op) (simp_all add: record_signal_samples overload_snapshot_at_def overload_metrics_at_def
      evict_def Let_def)

lemma window_view_step:
  assumes "window_view m h now" and "\<forall>t. op_time op = Some t \<longrightarrow> now \<le> t"
  shows "window_view (overload_step m op) (h @ history [op])
    (case op_time op of None \<Rightarrow> now | Some t \<Rightarrow> t)"
proof (cases op)
  case (RecordSignal t s)
  with assms window_view_record [OF window_view_later, of m h now t s] show ?thesis by simp
next
  case (Decide c)
  with assms window_view_cong [of "snd (decide c m)" m] show ?thesis by simp
next
  case (TakeSnapshot t)
  with assms window_view_evict [OF window_view_later, of m h now t] show ?thesis
    by (simp add: overload_snapshot_at_def Let_def)
next
  case (TakeMetrics t)
  with assms window_view_evict [OF window_view_later, of m h now t] show ?thesis
    by (simp add: overload_metrics_at_def Let_def)
qed

lemma history_append: "history (xs @ ys) = history xs @ history ys"
  by (induction xs rule: history.induct) simp_all

lemma op_times_Cons: "op_times (op # ops) = (case op_time op of None \<Rightarrow> op_times ops | Some t \<Rightarrow> t # op_times ops)"
  by (simp add: op_times_def map_filter_simps split: option.split)

lemma window_view_run:
  assumes "window_view m h now" and "sorted (now # op_times ops)"
  shows "window_view (foldl overload_step m ops) (h @ history ops) (last (now # op_times ops))"
  using assms
proof (induction ops arbitrary: m h now)
  case Nil
  then show ?case by (simp add: op_times_def map_filter_def)
next
  case (Cons op ops)
  let ?now = "case op_time op of None \<Rightarrow> now | Some t \<Rightarrow> t"
  have t: "\<forall>t. op_time op = Some t \<longrightarrow> now \<le> t"
    using Cons.prems(2) by (auto simp: op_times_Cons split: option.splits)
  have "sorted (?now # op_times ops)"
    using Cons.prems(2) by (auto simp: op_times_Cons split: option.splits)
  from Cons.IH [OF window_view_step [OF Cons.prems(1) t] this] show ?case
    using history_append [of "[op]" ops] by (cases "op_time op") (simp_all add: op_times_Cons)
qed

lemma foldl_overload_policy [simp]: "mg_policy (foldl overload_step m ops) = mg_policy m"
  by (induction ops arbitrary: m) simp_all

lemma overload_new_view:
  "overload_manager_new p hooks = Ok m \<Longrightarrow> mg_policy m = p \<and> mg_hooks m = hooks \<and> window_view m [] 0"
  by (auto simp: overload_manager_new_def and_then_eq_Ok window_view_def)

lemma overload_step_hooks [simp]: "mg_hooks (overload_step m op) = mg_hooks m"
  by (cases op) (simp_all add: record_signal_def decide_def push_overload_event_def
      overload_snapshot_at_def overload_metrics_at_def evict_def Let_def)

lemma foldl_overload_hooks [simp]: "mg_hooks (foldl overload_step m ops) = mg_hooks m"
  by (induction ops arbitrary: m) simp_all

text \<open>
  C15. The overload state is a function of the recent past: after any run in time order,
  recording a signal puts the manager into exactly the state that the thresholds assign to
  the number of signals in the whole history that lie within the window, reports that
  number, and switches off exactly the features of that state. Evicting from the front of
  the queue loses nothing.
\<close>

theorem overload_state_exact:
  assumes "overload_manager_new p hooks = Ok m" and "sorted (op_times (ops @ [RecordSignal now sg]))"
    and "foldl overload_step m ops = m'"
  shows "let active = active_in p now (history (ops @ [RecordSignal now sg]));
             r = record_signal now sg m' in
    mg_state (snd r) = classify_state p active \<and>
    ov_active_signal_count (fst r) = active \<and> ov_state (fst r) = classify_state p active \<and>
    mg_disabled_features (snd r) = disabled_features_for hooks (classify_state p active)"
proof -
  note new = overload_new_view [OF assms(1)]
  have "sorted (0 # op_times (ops @ [RecordSignal now sg]))" using assms(2) by simp
  then have "window_view (snd (record_signal now sg m')) (history (ops @ [RecordSignal now sg])) now"
    using window_view_run [of m "[]" 0 "ops @ [RecordSignal now sg]"] new assms(3)
    by (simp add: op_times_def map_filter_simps map_filter_def)
  moreover have "filter (in_window p now) (mg_samples (snd (record_signal now sg m'))) =
      mg_samples (snd (record_signal now sg m'))"
  proof -
    have "sorted (0 # op_times ops)" "\<forall>t\<in>set (op_times ops). t \<le> now"
      using assms(2) by (auto simp: op_times_def map_filter_def sorted_append)
    then have "window_view m' (history ops) (last (0 # op_times ops))" "last (0 # op_times ops) \<le> now"
      using window_view_run [of m "[]" 0 ops] new assms(3) last_in_set [of "0 # op_times ops"] by auto
    then have "window_view m' (history ops) now" by (rule window_view_later)
    from window_view_push [OF this, of sg]
    have "sorted (map ss_observed_at (mg_samples m' @ [\<lparr>ss_observed_at = now, ss_signal = sg\<rparr>]))"
      by (simp add: window_view_def)
    then show ?thesis
      using new assms(3) by (auto simp: record_signal_samples evict_def evict_is_filter)
  qed
  moreover have "mg_policy m' = p" "mg_hooks m' = hooks" using new assms(3) by auto
  ultimately have "(\<Sum>s\<leftarrow>mg_samples (snd (record_signal now sg m')). active_count (ss_signal s))
      = active_in p now (history (ops @ [RecordSignal now sg]))"
    by (simp add: window_view_def active_in_def record_signal_samples)
  then show ?thesis
    using \<open>mg_policy m' = p\<close> \<open>mg_hooks m' = hooks\<close>
    by (simp add: record_signal_def snapshot_of_def aggregate_sum Let_def)
qed

definition one_signal :: overload_signal where
  "one_signal =
     \<lparr>os_rate_limited = True, os_concurrency_limited = True, os_breaker_open = True,
      os_retry_budget_exhausted = False\<rparr>"

definition sample_manager :: overload_manager where
  "sample_manager =
     \<lparr>mg_policy = overload_policy_default,
      mg_hooks = [\<lparr>bf_name = ''previews'', bf_priority = BestEffort\<rparr>],
      mg_state = Normal, mg_samples = [], mg_disabled_features = [], mg_state_change_count = 0,
      mg_shed_request_count = 0, mg_brownout_activation_count = 0, mg_events = []\<rparr>"

theorem overload_state_exact_witness:
  "mg_state (snd (record_signal (secs 12) one_signal
     (overload_step (overload_step sample_manager (RecordSignal 0 one_signal))
        (RecordSignal (secs 5) one_signal)))) = Shedding"
proof -
  let ?ops = "[RecordSignal 0 one_signal, RecordSignal (secs 5) one_signal]"
  have new: "overload_manager_new overload_policy_default
      [\<lparr>bf_name = ''previews'', bf_priority = BestEffort\<rparr>] = Ok sample_manager"
    by (simp add: overload_manager_new_def overload_policy_validate_def overload_policy_default_def
        sample_manager_def secs_def)
  have sorted: "sorted (op_times (?ops @ [RecordSignal (secs 12) one_signal]))"
    by (simp add: op_times_Cons op_times_def map_filter_simps secs_def)
  have "active_in overload_policy_default (secs 12) (history (?ops @ [RecordSignal (secs 12) one_signal])) = 6"
    by (simp add: active_in_def in_window_def overload_policy_default_def secs_def active_count_def one_signal_def)
  with overload_state_exact [OF new sorted refl] show ?thesis
    by (simp add: Let_def classify_state_def overload_policy_default_def)
qed

section \<open>Priorities\<close>

primrec class_rank :: "traffic_class \<Rightarrow> nat" where
  "class_rank Critical = 0"
| "class_rank DefaultClass = 1"
| "class_rank BestEffort = 2"

primrec state_rank :: "overload_state \<Rightarrow> nat" where
  "state_rank Normal = 0"
| "state_rank Constrained = 1"
| "state_rank Shedding = 2"
| "state_rank Brownout = 3"

lemma classify_state_mono:
  "overload_policy_validate p = Ok () \<Longrightarrow> m \<le> n \<Longrightarrow>
     state_rank (classify_state p m) \<le> state_rank (classify_state p n)"
  by (auto simp: classify_state_def overload_policy_validate_def split: if_splits)

lemma shed_action_mono:
  "state_rank s \<le> state_rank s' \<Longrightarrow> class_rank c \<le> class_rank c' \<Longrightarrow>
     shed_action s c = Shed \<Longrightarrow> shed_action s' c' = Shed"
  by (cases s; cases s'; cases c; cases c') (simp_all add: shed_action_def)

lemma should_disable_mono:
  "state_rank s \<le> state_rank s' \<Longrightarrow> class_rank c \<le> class_rank c' \<Longrightarrow>
     should_disable_feature s c \<Longrightarrow> should_disable_feature s' c'"
  by (cases s; cases s'; cases c; cases c') simp_all

text \<open>
  C38. Shedding follows priority and pressure: critical traffic is never shed and no critical
  feature is ever switched off; and with a valid policy, what is shed or switched off at some
  number of active signals is, for traffic of the same or a lower priority, also shed or
  switched off at any higher number.
\<close>

theorem shedding_monotone:
  assumes "overload_policy_validate p = Ok ()" and "m \<le> n" and "class_rank c \<le> class_rank c'"
  shows "shed_action (classify_state p m) Critical = Allow \<and>
    \<not> should_disable_feature (classify_state p m) Critical \<and>
    (shed_action (classify_state p m) c = Shed \<longrightarrow> shed_action (classify_state p n) c' = Shed) \<and>
    (should_disable_feature (classify_state p m) c \<longrightarrow> should_disable_feature (classify_state p n) c')"
proof -
  have "shed_action s Critical = Allow" "\<not> should_disable_feature s Critical" for s
    by (cases s; simp add: shed_action_def)+
  with shed_action_mono should_disable_mono classify_state_mono [OF assms(1,2)] assms(3)
  show ?thesis by blast
qed

theorem shedding_monotone_witness:
  "shed_action (classify_state overload_policy_default 9) BestEffort = Shed"
  using shedding_monotone [of overload_policy_default 6 9 DefaultClass BestEffort]
  by (simp add: overload_policy_validate_def overload_policy_default_def classify_state_def
      shed_action_def secs_def)

section \<open>What time alone does not change\<close>

primrec is_record :: "overload_op \<Rightarrow> bool" where
  "is_record (RecordSignal t s) = True"
| "is_record (Decide c) = False"
| "is_record (TakeSnapshot t) = False"
| "is_record (TakeMetrics t) = False"

lemma quiet_step: "\<not> is_record op \<Longrightarrow> mg_state (overload_step m op) = mg_state m"
  by (cases op) (simp_all add: overload_snapshot_at_def overload_metrics_at_def evict_def Let_def)

text \<open>
  The overload state outlives its signals: as long as no further signal is recorded, the
  state and with it every shedding decision stay the same, however much time passes and
  however few signals a snapshot then counts.
\<close>

lemma overload_state_sticky:
  assumes "\<forall>op\<in>set ops. \<not> is_record op"
  shows "mg_state (foldl overload_step m ops) = mg_state m \<and>
    fst (decide c (foldl overload_step m ops)) = fst (decide c m)"
proof -
  have "mg_state (foldl overload_step m ops) = mg_state m"
    using assms by (induction ops arbitrary: m) (simp_all add: quiet_step)
  then show ?thesis by (simp add: decide_def Let_def push_overload_event_def)
qed

section \<open>Feature names\<close>

lemma check_feature_names_Ok:
  "check_feature_names seen fs = Ok () \<longleftrightarrow>
     (let names = map (\<lambda>f. to_ascii_lowercase (trim (bf_name f))) fs
      in distinct names \<and> set names \<inter> set seen = {} \<and> [] \<notin> set names)"
  by (induction seen fs rule: check_feature_names.induct) (auto simp: Let_def)

lemma disabled_features_sorted:
  "sorted_wrt (<) (disabled_features_for fs s) \<and>
   set (disabled_features_for fs s) = bf_name ` {f \<in> set fs. should_disable_feature s (bf_priority f)}"
proof -
  have "sorted_wrt (<) xs \<Longrightarrow>
      sorted_wrt (<) (fold (\<lambda>f disabled. if should_disable_feature s (bf_priority f)
        then insort_insert (bf_name f) disabled else disabled) fs xs) \<and>
      set (fold (\<lambda>f disabled. if should_disable_feature s (bf_priority f)
        then insort_insert (bf_name f) disabled else disabled) fs xs)
      = set xs \<union> bf_name ` {f \<in> set fs. should_disable_feature s (bf_priority f)}" for xs
    by (induction fs arbitrary: xs)
      (auto simp: strict_sorted_iff sorted_insort_insert distinct_insort_insert set_insort_insert)
  from this [of "[]"] show ?thesis by (simp add: disabled_features_for_def)
qed

end
