(* ===== verification/Lifecycle.thy ===== *)
theory Lifecycle
  imports LB_Prelude
begin

text \<open>
  \<open>crates/runtime/src/lifecycle.rs\<close>: the state machine of a managed endpoint or client;
  \<open>probe_semantics.rs\<close>: startup, liveness and readiness probes with their counters; and the
  stable names of \<open>protocol_protection.rs\<close>. The lemmas relate the lifecycle operations to
  the transition relation, show that a lifecycle only moves forward, and characterise the
  probe answers.
\<close>

section \<open>Lifecycle state machine\<close>

datatype lifecycle_state = Warming | Active | Draining | Drained | Removed

primrec lifecycle_rank :: "lifecycle_state \<Rightarrow> nat" where
  "lifecycle_rank Warming = 0"
| "lifecycle_rank Active = 1"
| "lifecycle_rank Draining = 2"
| "lifecycle_rank Drained = 3"
| "lifecycle_rank Removed = 4"

lemma lifecycle_rank_inj: "lifecycle_rank a = lifecycle_rank b \<Longrightarrow> a = b"
  by (cases a; cases b) simp_all

instantiation lifecycle_state :: linorder
begin

definition less_eq_lifecycle_state :: "lifecycle_state \<Rightarrow> lifecycle_state \<Rightarrow> bool" where
  "less_eq_lifecycle_state a b = (lifecycle_rank a \<le> lifecycle_rank b)"

definition less_lifecycle_state :: "lifecycle_state \<Rightarrow> lifecycle_state \<Rightarrow> bool" where
  "less_lifecycle_state a b = (lifecycle_rank a < lifecycle_rank b)"

instance
  by standard (auto simp: less_eq_lifecycle_state_def less_lifecycle_state_def
      intro: lifecycle_rank_inj)

end

fun lifecycle_as_str :: "lifecycle_state \<Rightarrow> string" where
  "lifecycle_as_str Warming = ''warming''"
| "lifecycle_as_str Active = ''active''"
| "lifecycle_as_str Draining = ''draining''"
| "lifecycle_as_str Drained = ''drained''"
| "lifecycle_as_str Removed = ''removed''"

record lifecycle_transition_error =
  lt_from :: lifecycle_state
  lt_action :: string

definition transition_error_display :: "lifecycle_transition_error \<Rightarrow> string" where
  "transition_error_display e =
     ''invalid lifecycle transition: action '' @ lt_action e @ '' is not allowed from ''
       @ lifecycle_as_str (lt_from e)"

record lifecycle_state_machine =
  lsm_state :: lifecycle_state

definition new_warming :: lifecycle_state_machine where
  "new_warming = \<lparr>lsm_state = Warming\<rparr>"

definition new_active :: lifecycle_state_machine where
  "new_active = \<lparr>lsm_state = Active\<rparr>"

type_synonym lifecycle_result = "(unit, lifecycle_transition_error) result \<times> lifecycle_state_machine"

definition activate :: "lifecycle_state_machine \<Rightarrow> lifecycle_result" where
  "activate m =
     (case lsm_state m of
        Warming \<Rightarrow> (Ok (), m\<lparr>lsm_state := Active\<rparr>)
      | Active \<Rightarrow> (Ok (), m)
      | state \<Rightarrow> (Err \<lparr>lt_from = state, lt_action = ''activate''\<rparr>, m))"

definition start_draining :: "lifecycle_state_machine \<Rightarrow> lifecycle_result" where
  "start_draining m =
     (case lsm_state m of
        Warming \<Rightarrow> (Ok (), m\<lparr>lsm_state := Draining\<rparr>)
      | Active \<Rightarrow> (Ok (), m\<lparr>lsm_state := Draining\<rparr>)
      | Draining \<Rightarrow> (Ok (), m)
      | state \<Rightarrow> (Err \<lparr>lt_from = state, lt_action = ''start_draining''\<rparr>, m))"

definition mark_drained :: "lifecycle_state_machine \<Rightarrow> lifecycle_result" where
  "mark_drained m =
     (case lsm_state m of
        Draining \<Rightarrow> (Ok (), m\<lparr>lsm_state := Drained\<rparr>)
      | Drained \<Rightarrow> (Ok (), m)
      | state \<Rightarrow> (Err \<lparr>lt_from = state, lt_action = ''mark_drained''\<rparr>, m))"

definition mark_removed :: "lifecycle_state_machine \<Rightarrow> lifecycle_result" where
  "mark_removed m =
     (case lsm_state m of
        Drained \<Rightarrow> (Ok (), m\<lparr>lsm_state := Removed\<rparr>)
      | Removed \<Rightarrow> (Ok (), m)
      | state \<Rightarrow> (Err \<lparr>lt_from = state, lt_action = ''mark_removed''\<rparr>, m))"

definition force_remove :: "lifecycle_state_machine \<Rightarrow> lifecycle_state_machine" where
  "force_remove m = m\<lparr>lsm_state := Removed\<rparr>"

section \<open>Probes\<close>

record runtime_probe_input =
  pi_startup_complete :: bool
  pi_active_config_loaded :: bool
  pi_has_ready_listeners :: bool
  pi_has_ready_upstreams :: bool
  pi_degraded :: bool
  pi_fatal_error :: bool
  pi_control_plane_stalled :: bool

datatype startup_probe_state = Starting | Succeeded
datatype liveness_probe_state = Live | Failed
datatype readiness_probe_state = Ready | NotReady

record probe_evaluation =
  pe_startup :: startup_probe_state
  pe_liveness :: liveness_probe_state
  pe_readiness :: readiness_probe_state
  pe_readiness_reason :: string

record probe_metrics =
  pm_readiness_ready_count :: nat
  pm_readiness_not_ready_count :: nat
  pm_liveness_live_count :: nat
  pm_liveness_failed_count :: nat
  pm_startup_pending_count :: nat
  pm_startup_success_count :: nat

definition probe_metrics_default :: probe_metrics where
  "probe_metrics_default =
     \<lparr>pm_readiness_ready_count = 0, pm_readiness_not_ready_count = 0, pm_liveness_live_count = 0,
      pm_liveness_failed_count = 0, pm_startup_pending_count = 0, pm_startup_success_count = 0\<rparr>"

definition evaluate_startup :: "runtime_probe_input \<Rightarrow> probe_metrics \<Rightarrow> startup_probe_state \<times> probe_metrics" where
  "evaluate_startup i m =
     (if pi_startup_complete i \<and> pi_active_config_loaded i
      then (Succeeded, m\<lparr>pm_startup_success_count := sat_add 64 (pm_startup_success_count m) 1\<rparr>)
      else (Starting, m\<lparr>pm_startup_pending_count := sat_add 64 (pm_startup_pending_count m) 1\<rparr>))"

definition evaluate_liveness :: "runtime_probe_input \<Rightarrow> probe_metrics \<Rightarrow> liveness_probe_state \<times> probe_metrics" where
  "evaluate_liveness i m =
     (if pi_fatal_error i \<or> pi_control_plane_stalled i
      then (Failed, m\<lparr>pm_liveness_failed_count := sat_add 64 (pm_liveness_failed_count m) 1\<rparr>)
      else (Live, m\<lparr>pm_liveness_live_count := sat_add 64 (pm_liveness_live_count m) 1\<rparr>))"

definition readiness_of :: "runtime_probe_input \<Rightarrow> readiness_probe_state \<times> string" where
  "readiness_of i =
     (if \<not> pi_startup_complete i \<or> \<not> pi_active_config_loaded i then (NotReady, ''startup_incomplete'')
      else if \<not> pi_has_ready_listeners i then (NotReady, ''no_ready_listeners'')
      else if \<not> pi_has_ready_upstreams i then (NotReady, ''no_ready_upstreams'')
      else if pi_degraded i then (NotReady, ''runtime_degraded'')
      else if pi_fatal_error i then (NotReady, ''fatal_error'')
      else (Ready, ''ready''))"

definition count_readiness :: "readiness_probe_state \<Rightarrow> probe_metrics \<Rightarrow> probe_metrics" where
  "count_readiness r m =
     (case r of
        Ready \<Rightarrow> m\<lparr>pm_readiness_ready_count := sat_add 64 (pm_readiness_ready_count m) 1\<rparr>
      | NotReady \<Rightarrow> m\<lparr>pm_readiness_not_ready_count := sat_add 64 (pm_readiness_not_ready_count m) 1\<rparr>)"

definition evaluate :: "runtime_probe_input \<Rightarrow> probe_metrics \<Rightarrow> probe_evaluation \<times> probe_metrics" where
  "evaluate i m =
     (case evaluate_startup i m of (startup, m1) \<Rightarrow>
      case evaluate_liveness i m1 of (liveness, m2) \<Rightarrow>
      case readiness_of i of (readiness, reason) \<Rightarrow>
        (\<lparr>pe_startup = startup, pe_liveness = liveness, pe_readiness = readiness,
          pe_readiness_reason = reason\<rparr>, count_readiness readiness m2))"

section \<open>Names of protocol anomalies\<close>

datatype protocol_anomaly_category =
    MalformedPreface
  | MalformedMessage
  | AmbiguousFraming
  | HeadSizeLimitExceeded
  | HeaderCountLimitExceeded
  | BodySizeLimitExceeded
  | StreamConcurrencyLimitExceeded

fun anomaly_display :: "protocol_anomaly_category \<Rightarrow> string" where
  "anomaly_display MalformedPreface = ''malformed-preface''"
| "anomaly_display MalformedMessage = ''malformed-message''"
| "anomaly_display AmbiguousFraming = ''ambiguous-framing''"
| "anomaly_display HeadSizeLimitExceeded = ''head-size-limit-exceeded''"
| "anomaly_display HeaderCountLimitExceeded = ''header-count-limit-exceeded''"
| "anomaly_display BodySizeLimitExceeded = ''body-size-limit-exceeded''"
| "anomaly_display StreamConcurrencyLimitExceeded = ''stream-concurrency-limit-exceeded''"

datatype slow_client_stage = RequestHead | RequestBody

fun slow_client_display :: "slow_client_stage \<Rightarrow> string" where
  "slow_client_display RequestHead = ''request-head''"
| "slow_client_display RequestBody = ''request-body''"

lemma anomaly_display_inj: "anomaly_display a = anomaly_display b \<Longrightarrow> a = b"
  by (cases a; cases b) simp_all

section \<open>The lifecycle relation\<close>

datatype lifecycle_op = OpActivate | OpStartDraining | OpMarkDrained | OpMarkRemoved | OpForceRemove

primrec lifecycle_step :: "lifecycle_state_machine \<Rightarrow> lifecycle_op \<Rightarrow> lifecycle_result" where
  "lifecycle_step m OpActivate = activate m"
| "lifecycle_step m OpStartDraining = start_draining m"
| "lifecycle_step m OpMarkDrained = mark_drained m"
| "lifecycle_step m OpMarkRemoved = mark_removed m"
| "lifecycle_step m OpForceRemove = (Ok (), force_remove m)"

inductive lifecycle_trans :: "lifecycle_state \<Rightarrow> lifecycle_op \<Rightarrow> lifecycle_state \<Rightarrow> bool" where
  warm_up: "lifecycle_trans Warming OpActivate Active"
| stay_active: "lifecycle_trans Active OpActivate Active"
| drain_early: "lifecycle_trans Warming OpStartDraining Draining"
| drain: "lifecycle_trans Active OpStartDraining Draining"
| stay_draining: "lifecycle_trans Draining OpStartDraining Draining"
| finish: "lifecycle_trans Draining OpMarkDrained Drained"
| stay_drained: "lifecycle_trans Drained OpMarkDrained Drained"
| remove: "lifecycle_trans Drained OpMarkRemoved Removed"
| stay_removed: "lifecycle_trans Removed OpMarkRemoved Removed"
| force: "lifecycle_trans s OpForceRemove Removed"

inductive_cases lifecycle_transE: "lifecycle_trans s op t"
inductive_simps lifecycle_trans_simps:
  "lifecycle_trans s OpActivate t" "lifecycle_trans s OpStartDraining t"
  "lifecycle_trans s OpMarkDrained t" "lifecycle_trans s OpMarkRemoved t"
  "lifecycle_trans s OpForceRemove t"

lemma lifecycle_step_Ok:
  "lifecycle_step m op = (Ok (), m') \<longleftrightarrow> lifecycle_trans (lsm_state m) op (lsm_state m')"
  by (cases m; cases m'; cases "lsm_state m"; cases op)
    (auto simp: lifecycle_trans_simps activate_def start_draining_def mark_drained_def mark_removed_def
      force_remove_def)

lemma lifecycle_step_Err:
  "lifecycle_step m op = (Err e, m') \<longleftrightarrow>
     m' = m \<and> lt_from e = lsm_state m \<and> (\<nexists>t. lifecycle_trans (lsm_state m) op t) \<and>
     lt_action e = (case op of OpActivate \<Rightarrow> ''activate'' | OpStartDraining \<Rightarrow> ''start_draining''
       | OpMarkDrained \<Rightarrow> ''mark_drained'' | _ \<Rightarrow> ''mark_removed'')"
  by (cases e; cases "lsm_state m"; cases op)
    (auto simp: lifecycle_trans_simps activate_def start_draining_def mark_drained_def mark_removed_def
      force_remove_def)

lemma lifecycle_trans_forward: "lifecycle_trans s op t \<Longrightarrow> s \<le> t"
  by (erule lifecycle_transE) (simp_all add: less_eq_lifecycle_state_def, cases s, simp_all)

lemma lifecycle_step_forward: "lsm_state m \<le> lsm_state (snd (lifecycle_step m op))"
proof (cases "fst (lifecycle_step m op)")
  case (Inl e)
  then show ?thesis using lifecycle_step_Err [of m op e "snd (lifecycle_step m op)"]
    by (metis order_refl prod.collapse)
next
  case (Inr u)
  then have "lifecycle_step m op = (Ok (), snd (lifecycle_step m op))"
    by (cases "lifecycle_step m op") simp
  then show ?thesis
    using lifecycle_step_Ok [of m op "snd (lifecycle_step m op)"] by (blast intro: lifecycle_trans_forward)
qed

lemma lifecycle_run_forward: "lsm_state m \<le> lsm_state (foldl (\<lambda>m op. snd (lifecycle_step m op)) m ops)"
proof (induction ops arbitrary: m)
  case (Cons op ops)
  have "lsm_state m \<le> lsm_state (snd (lifecycle_step m op))" by (rule lifecycle_step_forward)
  also have "\<dots> \<le> lsm_state (foldl (\<lambda>m op. snd (lifecycle_step m op)) (snd (lifecycle_step m op)) ops)"
    by (rule Cons.IH)
  finally show ?case by simp
qed simp

text \<open>
  The lifecycle implements its transition relation: an operation succeeds with a new
  state if and only if the relation allows the step, otherwise it reports the state it was
  in and changes nothing; and over any sequence of operations a lifecycle only moves
  forward, so a resource that started draining is never active again.
\<close>

lemma lifecycle_refines_relation:
  "(lifecycle_step m op = (Ok (), m') \<longleftrightarrow> lifecycle_trans (lsm_state m) op (lsm_state m')) \<and>
   (fst (lifecycle_step m op) = Err e \<longleftrightarrow>
      (\<nexists>t. lifecycle_trans (lsm_state m) op t) \<and> lt_from e = lsm_state m \<and>
      lt_action e = (case op of OpActivate \<Rightarrow> ''activate'' | OpStartDraining \<Rightarrow> ''start_draining''
        | OpMarkDrained \<Rightarrow> ''mark_drained'' | _ \<Rightarrow> ''mark_removed'')) \<and>
   lsm_state m \<le> lsm_state (foldl (\<lambda>m op. snd (lifecycle_step m op)) m ops)"
proof -
  have "fst (lifecycle_step m op) = Err e \<longleftrightarrow> (\<exists>m'. lifecycle_step m op = (Err e, m'))"
    by (cases "lifecycle_step m op") simp
  then show ?thesis
    using lifecycle_step_Ok lifecycle_step_Err lifecycle_run_forward by (auto simp only:)
qed

section \<open>Probe answers\<close>

lemma evaluate_answers:
  "pe_startup (fst (evaluate i m)) = Succeeded \<longleftrightarrow> pi_startup_complete i \<and> pi_active_config_loaded i"
  "pe_liveness (fst (evaluate i m)) = Live \<longleftrightarrow> \<not> pi_fatal_error i \<and> \<not> pi_control_plane_stalled i"
  "pe_readiness (fst (evaluate i m)) = Ready \<longleftrightarrow>
     pi_startup_complete i \<and> pi_active_config_loaded i \<and> pi_has_ready_listeners i \<and>
     pi_has_ready_upstreams i \<and> \<not> pi_degraded i \<and> \<not> pi_fatal_error i"
  by (auto simp: evaluate_def evaluate_startup_def evaluate_liveness_def readiness_of_def)

definition probe_totals :: "probe_metrics \<Rightarrow> nat \<times> nat \<times> nat" where
  "probe_totals m =
     (pm_startup_pending_count m + pm_startup_success_count m,
      pm_liveness_live_count m + pm_liveness_failed_count m,
      pm_readiness_ready_count m + pm_readiness_not_ready_count m)"

lemma probe_totals_step:
  assumes "pm_startup_pending_count m + pm_startup_success_count m = n"
    and "pm_liveness_live_count m + pm_liveness_failed_count m = n"
    and "pm_readiness_ready_count m + pm_readiness_not_ready_count m = n" and "n < uint_max 64"
  shows "probe_totals (snd (evaluate i m)) = (Suc n, Suc n, Suc n)"
proof -
  have inc: "sat_add 64 a 1 = Suc a" if "a \<le> n" for a
    using that assms(4) by (simp add: sat_add_def)
  show ?thesis
    using assms(1-3) inc
    by (auto simp: probe_totals_def evaluate_def evaluate_startup_def evaluate_liveness_def
        readiness_of_def count_readiness_def)
qed

lemma probe_totals_run:
  "length is \<le> uint_max 64 \<Longrightarrow>
     probe_totals (foldl (\<lambda>m i. snd (evaluate i m)) probe_metrics_default is) = (length is, length is, length is)"
proof (induction "is" rule: rev_induct)
  case Nil
  then show ?case by (simp add: probe_totals_def probe_metrics_default_def)
next
  case (snoc i "is")
  let ?m = "foldl (\<lambda>m i. snd (evaluate i m)) probe_metrics_default is"
  have "probe_totals ?m = (length is, length is, length is)" using snoc by simp
  then show ?case
    using probe_totals_step [of ?m "length is" i] snoc.prems by (simp add: probe_totals_def)
qed

text \<open>
  The probes agree with each other and are all counted: readiness implies a completed
  startup and no fatal error; and after any number of evaluations (below the width of the
  counters) each of the three pairs of counters adds up to that number.
\<close>

lemma probes_consistent:
  assumes "length is \<le> uint_max 64"
  shows "(pe_readiness (fst (evaluate i m)) = Ready \<longrightarrow>
      pe_startup (fst (evaluate i m)) = Succeeded \<and> \<not> pi_fatal_error i \<and>
      pe_readiness_reason (fst (evaluate i m)) = ''ready'') \<and>
    probe_totals (foldl (\<lambda>m i. snd (evaluate i m)) probe_metrics_default is) = (length is, length is, length is)"
  using probe_totals_run [OF assms]
  by (auto simp: evaluate_answers) (auto simp: evaluate_def evaluate_startup_def evaluate_liveness_def readiness_of_def)

end
