(* ===== verification/Discovery.thy ===== *)
theory Discovery
  imports Upstream_Health Lifecycle
begin

text \<open>
  \<open>crates/runtime/src/discovery.rs\<close>: endpoint membership from discovery sources. A snapshot
  of a source is reconciled with the health registry: new endpoints are inserted, endpoints
  that no source advertises any more are drained and removed when their grace period is
  over, and snapshots of an older generation are ignored.

  The hasher of the refresh jitter is a parameter: the standard library leaves its function
  open. The calls to the telemetry object are collected in the order the code makes them.
  The main lemmas are about the invariant \<open>discovery_inv\<close>, which says that the registry
  holds exactly the advertised endpoints, ready, and the draining ones. Every operation
  keeps it, and no registry call of a reconciliation fails under it.
\<close>

section \<open>Sources, endpoints and snapshots\<close>

datatype discovery_provider_kind = DnsAaaa | DnsSrv | KubernetesEndpointSlice | ConsulLike

primrec provider_rank :: "discovery_provider_kind \<Rightarrow> nat" where
  "provider_rank DnsAaaa = 0"
| "provider_rank DnsSrv = 1"
| "provider_rank KubernetesEndpointSlice = 2"
| "provider_rank ConsulLike = 3"

lemma provider_rank_inj: "provider_rank a = provider_rank b \<Longrightarrow> a = b"
  by (cases a; cases b) simp_all

instantiation discovery_provider_kind :: linorder
begin

definition less_eq_discovery_provider_kind :: "discovery_provider_kind \<Rightarrow> discovery_provider_kind \<Rightarrow> bool" where
  "less_eq_discovery_provider_kind a b = (provider_rank a \<le> provider_rank b)"

definition less_discovery_provider_kind :: "discovery_provider_kind \<Rightarrow> discovery_provider_kind \<Rightarrow> bool" where
  "less_discovery_provider_kind a b = (provider_rank a < provider_rank b)"

instance
  by standard (auto simp: less_eq_discovery_provider_kind_def less_discovery_provider_kind_def
      intro: provider_rank_inj)

end

definition has_monotonic_generations :: "discovery_provider_kind \<Rightarrow> bool" where
  "has_monotonic_generations p \<longleftrightarrow> p \<noteq> KubernetesEndpointSlice"

fun provider_as_str :: "discovery_provider_kind \<Rightarrow> string" where
  "provider_as_str DnsAaaa = ''dns_aaaa''"
| "provider_as_str DnsSrv = ''dns_srv''"
| "provider_as_str KubernetesEndpointSlice = ''k8s_endpoint_slice''"
| "provider_as_str ConsulLike = ''consul_like''"

text \<open>
  The derived order of \<open>DiscoverySourceId\<close> compares provider, source name and cluster name
  in this order, so an id is a triple.
\<close>

type_synonym discovery_source_id = "discovery_provider_kind \<times> string \<times> cluster_name"

abbreviation src_provider :: "discovery_source_id \<Rightarrow> discovery_provider_kind" where
  "src_provider s \<equiv> fst s"

abbreviation src_name :: "discovery_source_id \<Rightarrow> string" where
  "src_name s \<equiv> fst (snd s)"

abbreviation src_cluster :: "discovery_source_id \<Rightarrow> cluster_name" where
  "src_cluster s \<equiv> snd (snd s)"

definition source_id_new ::
  "discovery_provider_kind \<Rightarrow> string \<Rightarrow> string \<Rightarrow> (discovery_source_id, upstream_model_error) result" where
  "source_id_new provider name cluster =
     and_then (cluster_name_new cluster) (\<lambda>c. Ok (provider, name, c))"

record discovery_endpoint =
  de_endpoint_id :: endpoint_id
  de_address :: socket_addr
  de_zone :: "string option"
  de_locality :: "string option"
  de_weight :: nat

definition discovery_endpoint_new ::
  "string \<Rightarrow> socket_addr \<Rightarrow> string option \<Rightarrow> string option \<Rightarrow> nat \<Rightarrow>
     (discovery_endpoint, upstream_model_error) result" where
  "discovery_endpoint_new i a z l w =
     and_then (endpoint_id_new i) (\<lambda>i'.
     Ok \<lparr>de_endpoint_id = i', de_address = a, de_zone = z, de_locality = l, de_weight = w\<rparr>)"

definition into_upstream_endpoint ::
  "discovery_endpoint \<Rightarrow> endpoint_state \<Rightarrow> (upstream_endpoint, upstream_model_error) result" where
  "into_upstream_endpoint e st =
     endpoint_new (de_endpoint_id e) (de_address e) st
       \<lparr>em_zone = de_zone e, em_locality = de_locality e, em_weight = de_weight e\<rparr>"

record discovery_snapshot =
  sn_source :: discovery_source_id
  sn_generation :: nat
  sn_valid_for :: duration
  sn_endpoints :: "discovery_endpoint list"

section \<open>Refresh state\<close>

datatype discovery_refresh_health = Fresh | Stale | Backoff

record discovery_refresh_state =
  rf_health :: discovery_refresh_health
  rf_valid_for :: duration
  rf_next_refresh_in :: duration
  rf_consecutive_failures :: nat
  rf_last_error :: "string option"

text \<open>
  The jitter window is cast from \<open>u128\<close> to \<open>u64\<close>; a remainder by zero is a panic, here
  \<open>None\<close>.
\<close>

definition jittered_refresh_delay ::
  "(nat \<Rightarrow> nat \<Rightarrow> nat) \<Rightarrow> duration \<Rightarrow> nat \<Rightarrow> nat \<Rightarrow> duration option" where
  "jittered_refresh_delay hash valid_for attempt seed =
     (let base = (if valid_for = 0 then secs 1 else valid_for);
          jitter_window_ms = cast_to 64 (max (as_millis base div 5) 1)
      in if jitter_window_ms = 0 then None
         else Some (base - (hash seed attempt mod jitter_window_ms) * 1000000))"

definition failure_backoff_delay :: "nat \<Rightarrow> duration" where
  "failure_backoff_delay n = secs (2 ^ min n 6)"

definition refresh_fresh :: "(nat \<Rightarrow> nat \<Rightarrow> nat) \<Rightarrow> duration \<Rightarrow> discovery_refresh_state option" where
  "refresh_fresh hash valid_for =
     map_option (\<lambda>delay.
       \<lparr>rf_health = Fresh, rf_valid_for = valid_for, rf_next_refresh_in = delay,
        rf_consecutive_failures = 0, rf_last_error = None\<rparr>)
       (jittered_refresh_delay hash valid_for 0 0x4D2)"

definition refresh_on_failure :: "string \<Rightarrow> discovery_refresh_state \<Rightarrow> discovery_refresh_state" where
  "refresh_on_failure error s =
     (let failures = sat_add 32 (rf_consecutive_failures s) 1
      in s\<lparr>rf_consecutive_failures := failures, rf_last_error := Some error, rf_health := Backoff,
           rf_next_refresh_in := failure_backoff_delay failures\<rparr>)"

definition refresh_on_expired :: "discovery_refresh_state \<Rightarrow> discovery_refresh_state" where
  "refresh_on_expired s = s\<lparr>rf_health := Stale, rf_next_refresh_in := 0\<rparr>"

section \<open>Reconciler\<close>

record discovery_outcome =
  do_inserted :: nat
  do_updated :: nat
  do_marked_draining :: nat
  do_removed_after_drain :: nat
  do_lifecycle_warming :: nat
  do_lifecycle_active :: nat
  do_lifecycle_draining :: nat
  do_lifecycle_drained :: nat
  do_lifecycle_removed :: nat
  do_stale_generation_rejected :: bool

definition outcome_default :: discovery_outcome where
  "outcome_default =
     \<lparr>do_inserted = 0, do_updated = 0, do_marked_draining = 0, do_removed_after_drain = 0,
      do_lifecycle_warming = 0, do_lifecycle_active = 0, do_lifecycle_draining = 0,
      do_lifecycle_drained = 0, do_lifecycle_removed = 0, do_stale_generation_rejected = False\<rparr>"

datatype discovery_reconcile_error =
    ReconcileHealthRegistry upstream_health_error
  | InvalidEndpoint upstream_model_error

text \<open>An event handed to the telemetry: result, cluster and detail.\<close>

type_synonym discovery_trace = "string \<times> cluster_name \<times> string"

record discovery_reconciler =
  dr_drain_grace :: duration
  dr_now :: duration
  dr_active_endpoints_by_source ::
    "(discovery_source_id, (endpoint_id, discovery_endpoint) btree_map) btree_map"
  dr_draining_deadlines :: "(cluster_name \<times> endpoint_id, duration) btree_map"
  dr_endpoint_lifecycle :: "(cluster_name \<times> endpoint_id, lifecycle_state_machine) btree_map"
  dr_applied_generations :: "(discovery_source_id, nat) btree_map"
  dr_telemetry :: "(string \<times> discovery_trace list) option"

definition reconciler_new :: "duration \<Rightarrow> discovery_reconciler" where
  "reconciler_new grace =
     \<lparr>dr_drain_grace = grace, dr_now = 0, dr_active_endpoints_by_source = [],
      dr_draining_deadlines = [], dr_endpoint_lifecycle = [], dr_applied_generations = [],
      dr_telemetry = None\<rparr>"

definition with_telemetry :: "string \<Rightarrow> discovery_reconciler \<Rightarrow> discovery_reconciler" where
  "with_telemetry scope d = d\<lparr>dr_telemetry := Some (scope, [])\<rparr>"

definition emit_discovery_event ::
  "string \<Rightarrow> cluster_name \<Rightarrow> string \<Rightarrow> discovery_reconciler \<Rightarrow> discovery_reconciler" where
  "emit_discovery_event result c detail d =
     d\<lparr>dr_telemetry := map_option (\<lambda>(scope, log). (scope, log @ [(result, c, detail)])) (dr_telemetry d)\<rparr>"

definition ignore_missing_endpoint ::
  "('a, upstream_health_error) result \<Rightarrow> (unit, discovery_reconcile_error) result" where
  "ignore_missing_endpoint r =
     (case r of
        Inr _ \<Rightarrow> Ok ()
      | Inl (EndpointNotTracked _ _) \<Rightarrow> Ok ()
      | Inl (HealthRegistry (EndpointNotFound _ _)) \<Rightarrow> Ok ()
      | Inl (HealthRegistry (ClusterNotFound _)) \<Rightarrow> Ok ()
      | Inl e \<Rightarrow> Err (ReconcileHealthRegistry e))"

fun find_map :: "('a \<Rightarrow> 'b option) \<Rightarrow> 'a list \<Rightarrow> 'b option" where
  "find_map f [] = None"
| "find_map f (x # xs) = (case f x of Some y \<Rightarrow> Some y | None \<Rightarrow> find_map f xs)"

definition other_source_definition ::
  "discovery_source_id \<Rightarrow> endpoint_id \<Rightarrow> discovery_reconciler \<Rightarrow> discovery_endpoint option" where
  "other_source_definition source i d =
     find_map (\<lambda>(_, endpoints). map_of endpoints i)
       (filter (\<lambda>(other, _). other \<noteq> source \<and> src_cluster other = src_cluster source)
          (dr_active_endpoints_by_source d))"

text \<open>The first loop: every endpoint is validated before anything is changed.\<close>

fun validate_endpoints ::
  "discovery_endpoint list \<Rightarrow> (endpoint_id, discovery_endpoint \<times> upstream_endpoint) btree_map \<Rightarrow>
     ((endpoint_id, discovery_endpoint \<times> upstream_endpoint) btree_map, discovery_reconcile_error) result" where
  "validate_endpoints [] acc = Ok acc"
| "validate_endpoints (e # es) acc =
     (case into_upstream_endpoint e StateReady of
        Inl err \<Rightarrow> Err (InvalidEndpoint err)
      | Inr u \<Rightarrow> validate_endpoints es (bt_insert (de_endpoint_id e) (e, u) acc))"

text \<open>
  What the two loops over the endpoints change: the registry, the deadlines, the ids to
  record as activated or draining, and the outcome. An error returns with the changes made
  so far.
\<close>

record reconcile_progress =
  rg_registry :: upstream_health_registry
  rg_deadlines :: "(cluster_name \<times> endpoint_id, duration) btree_map"
  rg_activated :: "endpoint_id list"
  rg_draining :: "endpoint_id list"
  rg_outcome :: discovery_outcome

definition reinstall ::
  "cluster_name \<Rightarrow> endpoint_id \<Rightarrow> bool \<Rightarrow> upstream_endpoint \<Rightarrow> reconcile_progress \<Rightarrow>
     (unit, discovery_reconcile_error) result \<times> reconcile_progress" where
  "reinstall c i in_registry u p =
     (case (if in_registry then map_prod ignore_missing_endpoint id (uh_remove_endpoint c i (rg_registry p))
            else (Ok (), rg_registry p)) of
        (Inl err, reg) \<Rightarrow> (Err err, p\<lparr>rg_registry := reg\<rparr>)
      | (Inr _, reg) \<Rightarrow>
          (case uh_insert_endpoint c u reg of
             (Inl err, reg') \<Rightarrow> (Err (ReconcileHealthRegistry err), p\<lparr>rg_registry := reg'\<rparr>)
           | (Inr _, reg') \<Rightarrow>
               (Ok (), p\<lparr>rg_registry := reg', rg_activated := rg_activated p @ [i]\<rparr>)))"

definition count_applied :: "bool \<Rightarrow> reconcile_progress \<Rightarrow> reconcile_progress" where
  "count_applied known p =
     (let o' = rg_outcome p
      in p\<lparr>rg_outcome := (if known then o'\<lparr>do_updated := do_updated o' + 1\<rparr>
                          else o'\<lparr>do_inserted := do_inserted o' + 1\<rparr>)\<rparr>)"

definition apply_endpoint ::
  "discovery_source_id \<Rightarrow> (endpoint_id, discovery_endpoint) btree_map \<Rightarrow> discovery_reconciler \<Rightarrow>
     endpoint_id \<times> discovery_endpoint \<times> upstream_endpoint \<Rightarrow> reconcile_progress \<Rightarrow>
     (unit, discovery_reconcile_error) result \<times> reconcile_progress" where
  "apply_endpoint source previous d entry p =
     (case entry of (i, e, u) \<Rightarrow>
        if map_of previous i = Some e then (Ok (), p)
        else
          let key = (src_cluster source, i);
              was_draining = bt_has key (rg_deadlines p);
              p = p\<lparr>rg_deadlines := bt_remove key (rg_deadlines p)\<rparr>;
              other = other_source_definition source i d;
              in_registry = (was_draining \<or> bt_has i previous \<or> other \<noteq> None)
          in if other = Some e \<and> \<not> was_draining \<and> \<not> bt_has i previous
             then (Ok (), count_applied (bt_has i previous) p)
             else case reinstall (src_cluster source) i in_registry u p of
                    (Inl err, p) \<Rightarrow> (Err err, p)
                  | (Inr _, p) \<Rightarrow> (Ok (), count_applied (bt_has i previous) p))"

fun apply_endpoints ::
  "discovery_source_id \<Rightarrow> (endpoint_id, discovery_endpoint) btree_map \<Rightarrow> discovery_reconciler \<Rightarrow>
     (endpoint_id, discovery_endpoint \<times> upstream_endpoint) btree_map \<Rightarrow> reconcile_progress \<Rightarrow>
     (unit, discovery_reconcile_error) result \<times> reconcile_progress" where
  "apply_endpoints source previous d [] p = (Ok (), p)"
| "apply_endpoints source previous d (x # xs) p =
     (case apply_endpoint source previous d x p of
        (Inl err, p) \<Rightarrow> (Err err, p)
      | (Inr _, p) \<Rightarrow> apply_endpoints source previous d xs p)"

definition retire_endpoint ::
  "discovery_source_id \<Rightarrow> discovery_reconciler \<Rightarrow> endpoint_id \<times> discovery_endpoint \<Rightarrow> reconcile_progress \<Rightarrow>
     (unit, discovery_reconcile_error) result \<times> reconcile_progress" where
  "retire_endpoint source d entry p =
     (case entry of (i, removed) \<Rightarrow>
        case other_source_definition source i d of
          Some other \<Rightarrow>
            if other \<noteq> removed
            then (case into_upstream_endpoint other StateReady of
                    Inl err \<Rightarrow> (Err (InvalidEndpoint err), p)
                  | Inr adopted \<Rightarrow> reinstall (src_cluster source) i True adopted p)
            else (Ok (), p)
        | None \<Rightarrow>
            (case uh_set_endpoint_state (src_cluster source) i StateDraining (rg_registry p) of
               (r, reg) \<Rightarrow>
                 (case ignore_missing_endpoint r of
                    Inl err \<Rightarrow> (Err err, p\<lparr>rg_registry := reg\<rparr>)
                  | Inr _ \<Rightarrow>
                      (Ok (), p\<lparr>rg_registry := reg,
                         rg_deadlines := bt_insert (src_cluster source, i)
                           (dur_saturating_add (dr_now d) (dr_drain_grace d)) (rg_deadlines p),
                         rg_draining := rg_draining p @ [i],
                         rg_outcome := (rg_outcome p)\<lparr>do_marked_draining :=
                           do_marked_draining (rg_outcome p) + 1\<rparr>\<rparr>))))"

fun retire_endpoints ::
  "discovery_source_id \<Rightarrow> discovery_reconciler \<Rightarrow> (endpoint_id, discovery_endpoint) btree_map \<Rightarrow>
     reconcile_progress \<Rightarrow> (unit, discovery_reconcile_error) result \<times> reconcile_progress" where
  "retire_endpoints source d [] p = (Ok (), p)"
| "retire_endpoints source d (x # xs) p =
     (case retire_endpoint source d x p of
        (Inl err, p) \<Rightarrow> (Err err, p)
      | (Inr _, p) \<Rightarrow> retire_endpoints source d xs p)"

section \<open>Lifecycle records\<close>

type_synonym lifecycle_records = "(cluster_name \<times> endpoint_id, lifecycle_state_machine) btree_map"

definition record_endpoint_activated ::
  "cluster_name \<Rightarrow> endpoint_id \<Rightarrow> lifecycle_records \<times> discovery_outcome \<Rightarrow> lifecycle_records \<times> discovery_outcome" where
  "record_endpoint_activated c i lo =
     (case lo of (l, o') \<Rightarrow>
        (bt_entry (c, i) new_warming
           (\<lambda>m. case activate m of (Inl _, _) \<Rightarrow> new_active | (Inr _, m') \<Rightarrow> m') l,
         o'\<lparr>do_lifecycle_warming := do_lifecycle_warming o' + 1,
            do_lifecycle_active := do_lifecycle_active o' + 1\<rparr>))"

definition record_endpoint_draining ::
  "cluster_name \<Rightarrow> endpoint_id \<Rightarrow> lifecycle_records \<times> discovery_outcome \<Rightarrow> lifecycle_records \<times> discovery_outcome" where
  "record_endpoint_draining c i lo =
     (case lo of (l, o') \<Rightarrow>
        (bt_entry (c, i) new_active
           (\<lambda>m. case start_draining m of (Inl _, m') \<Rightarrow> force_remove m' | (Inr _, m') \<Rightarrow> m') l,
         o'\<lparr>do_lifecycle_draining := do_lifecycle_draining o' + 1\<rparr>))"

definition record_endpoint_drained ::
  "cluster_name \<times> endpoint_id \<Rightarrow> lifecycle_records \<times> discovery_outcome \<Rightarrow> lifecycle_records \<times> discovery_outcome" where
  "record_endpoint_drained key lo =
     (case lo of (l, o') \<Rightarrow>
        case map_of l key of
          None \<Rightarrow> (l, o')
        | Some m \<Rightarrow>
            (case mark_drained m of
               (Inl _, m') \<Rightarrow> (bt_insert key (force_remove m') l, o')
             | (Inr _, m') \<Rightarrow>
                 (bt_insert key m' l, o'\<lparr>do_lifecycle_drained := do_lifecycle_drained o' + 1\<rparr>)))"

definition record_endpoint_removed ::
  "cluster_name \<times> endpoint_id \<Rightarrow> lifecycle_records \<times> discovery_outcome \<Rightarrow> lifecycle_records \<times> discovery_outcome" where
  "record_endpoint_removed key lo =
     (case lo of (l, o') \<Rightarrow>
        case map_of l key of
          None \<Rightarrow> (l, o')
        | Some m \<Rightarrow>
            (bt_remove key l, o'\<lparr>do_lifecycle_removed := do_lifecycle_removed o' + 1\<rparr>))"

section \<open>The operations of the reconciler\<close>

definition stale_generation :: "discovery_snapshot \<Rightarrow> discovery_reconciler \<Rightarrow> nat option" where
  "stale_generation s d =
     (case map_of (dr_applied_generations d) (sn_source s) of
        None \<Rightarrow> None
      | Some applied \<Rightarrow>
          if has_monotonic_generations (src_provider (sn_source s)) \<and> sn_generation s < applied
          then Some applied else None)"

definition accepted_detail :: "discovery_snapshot \<Rightarrow> nat \<Rightarrow> discovery_outcome \<Rightarrow> string" where
  "accepted_detail s n o' =
     ''source '' @ src_name (sn_source s) @ '' applied generation '' @ show_nat (sn_generation s)
       @ '' with '' @ show_nat n @ '' endpoints (inserted='' @ show_nat (do_inserted o')
       @ '', updated='' @ show_nat (do_updated o') @ '', draining='' @ show_nat (do_marked_draining o') @ '')''"

definition finish_reconcile ::
  "discovery_snapshot \<Rightarrow> (endpoint_id, discovery_endpoint \<times> upstream_endpoint) btree_map \<Rightarrow>
     reconcile_progress \<Rightarrow> discovery_reconciler \<Rightarrow> discovery_outcome \<times> discovery_reconciler" where
  "finish_reconcile s next_endpoints p d =
     (let c = src_cluster (sn_source s);
          lo = fold (record_endpoint_activated c) (rg_activated p) (dr_endpoint_lifecycle d, rg_outcome p);
          lo = fold (record_endpoint_draining c) (rg_draining p) lo;
          d = d\<lparr>dr_draining_deadlines := rg_deadlines p,
                dr_active_endpoints_by_source := bt_insert (sn_source s)
                  (map (\<lambda>(i, e, _). (i, e)) next_endpoints) (dr_active_endpoints_by_source d),
                dr_applied_generations := bt_insert (sn_source s) (sn_generation s) (dr_applied_generations d),
                dr_endpoint_lifecycle := fst lo\<rparr>
      in (snd lo, emit_discovery_event ''accepted'' c (accepted_detail s (length next_endpoints) (snd lo)) d))"

definition reconcile_snapshot ::
  "discovery_snapshot \<Rightarrow> discovery_reconciler \<Rightarrow> upstream_health_registry \<Rightarrow>
     (discovery_outcome, discovery_reconcile_error) result \<times> discovery_reconciler \<times> upstream_health_registry" where
  "reconcile_snapshot s d registry =
     (let source = sn_source s in
      case stale_generation s d of
        Some applied \<Rightarrow>
          (Ok (outcome_default\<lparr>do_stale_generation_rejected := True\<rparr>),
           emit_discovery_event ''rejected'' (src_cluster source)
             (''source '' @ src_name source @ '' ignored stale generation '' @ show_nat (sn_generation s)
                @ '' (applied generation '' @ show_nat applied @ '')'') d, registry)
      | None \<Rightarrow>
          (case validate_endpoints (sn_endpoints s) [] of
             Inl err \<Rightarrow> (Err err, d, registry)
           | Inr next_endpoints \<Rightarrow>
               (let previous = bt_get_or source [] (dr_active_endpoints_by_source d);
                    p = \<lparr>rg_registry = registry, rg_deadlines = dr_draining_deadlines d,
                         rg_activated = [], rg_draining = [], rg_outcome = outcome_default\<rparr>
                in case apply_endpoints source previous d next_endpoints p of
                     (Inl err, p) \<Rightarrow>
                       (Err err, d\<lparr>dr_draining_deadlines := rg_deadlines p\<rparr>, rg_registry p)
                   | (Inr _, p) \<Rightarrow>
                       (case retire_endpoints source d
                               (filter (\<lambda>(i, _). \<not> bt_has i next_endpoints) previous) p of
                          (Inl err, p) \<Rightarrow>
                            (Err err, d\<lparr>dr_draining_deadlines := rg_deadlines p\<rparr>, rg_registry p)
                        | (Inr _, p) \<Rightarrow>
                            (case finish_reconcile s next_endpoints p d of
                               (outcome, d') \<Rightarrow> (Ok outcome, d', rg_registry p))))))"

text \<open>The removal of one endpoint whose grace period is over.\<close>

definition expire_endpoint ::
  "cluster_name \<times> endpoint_id \<Rightarrow> discovery_reconciler \<times> upstream_health_registry \<times> discovery_outcome \<Rightarrow>
     (unit, discovery_reconcile_error) result \<times> discovery_reconciler \<times> upstream_health_registry \<times> discovery_outcome" where
  "expire_endpoint key dro =
     (case dro of (d, registry, o') \<Rightarrow>
      case record_endpoint_drained key (dr_endpoint_lifecycle d, o') of (l, o') \<Rightarrow>
        let d = d\<lparr>dr_draining_deadlines := bt_remove key (dr_draining_deadlines d), dr_endpoint_lifecycle := l\<rparr>
        in case uh_remove_endpoint (fst key) (snd key) registry of
             (r, registry) \<Rightarrow>
               (case ignore_missing_endpoint r of
                  Inl err \<Rightarrow> (Err err, d, registry, o')
                | Inr _ \<Rightarrow>
                    (case record_endpoint_removed key (dr_endpoint_lifecycle d, o') of
                       (l, o') \<Rightarrow>
                         (Ok (), emit_discovery_event ''drained'' (fst key)
                            (''endpoint '' @ snd key @ '' fully removed after drain window'')
                            (d\<lparr>dr_endpoint_lifecycle := l\<rparr>), registry,
                          o'\<lparr>do_removed_after_drain := do_removed_after_drain o' + 1\<rparr>))))"

fun expire_endpoints ::
  "(cluster_name \<times> endpoint_id) list \<Rightarrow> discovery_reconciler \<times> upstream_health_registry \<times> discovery_outcome \<Rightarrow>
     (unit, discovery_reconcile_error) result \<times> discovery_reconciler \<times> upstream_health_registry \<times> discovery_outcome" where
  "expire_endpoints [] dro = (Ok (), dro)"
| "expire_endpoints (k # ks) dro =
     (case expire_endpoint k dro of
        (Inl err, dro) \<Rightarrow> (Err err, dro)
      | (Inr _, dro) \<Rightarrow> expire_endpoints ks dro)"

definition discovery_advance_time ::
  "duration \<Rightarrow> discovery_reconciler \<Rightarrow> upstream_health_registry \<Rightarrow>
     (discovery_outcome, discovery_reconcile_error) result \<times> discovery_reconciler \<times> upstream_health_registry" where
  "discovery_advance_time elapsed d registry =
     (let d = d\<lparr>dr_now := dur_saturating_add (dr_now d) elapsed\<rparr>;
          expired = map fst (filter (\<lambda>(_, deadline). deadline \<le> dr_now d) (dr_draining_deadlines d))
      in case expire_endpoints expired (d, registry, outcome_default) of
           (Inl err, d, registry, _) \<Rightarrow> (Err err, d, registry)
         | (Inr _, d, registry, outcome) \<Rightarrow> (Ok outcome, d, registry))"

section \<open>Registry operations on one endpoint\<close>

abbreviation entry_of :: "upstream_health_registry \<Rightarrow> endpoint_key \<Rightarrow> upstream_endpoint option" where
  "entry_of r \<equiv> reg_endpoint (uh_registry r)"

definition has_cluster :: "upstream_health_registry \<Rightarrow> cluster_name \<Rightarrow> bool" where
  "has_cluster r c \<longleftrightarrow> reg_view (uh_registry r) c \<noteq> None"

definition only_entry :: "endpoint_key \<Rightarrow> upstream_health_registry \<Rightarrow> upstream_health_registry \<Rightarrow> bool" where
  "only_entry key r r' \<longleftrightarrow> uh_wf r' \<and> (\<forall>c. has_cluster r' c = has_cluster r c) \<and>
     (\<forall>k. k \<noteq> key \<longrightarrow> entry_of r' k = entry_of r k)"

lemma only_entryI:
  assumes "uh_wf r'" and "reg_view (uh_registry r) (fst key) = Some m"
    and "reg_view (uh_registry r') = (reg_view (uh_registry r))(fst key \<mapsto> m(snd key := x))"
  shows "only_entry key r r' \<and> entry_of r' key = x"
  using assms by (cases key) (auto simp: only_entry_def has_cluster_def reg_endpoint_def split: option.splits)

lemma entry_of_Some: "entry_of r (c, i) = Some ep \<longleftrightarrow> (\<exists>m. reg_view (uh_registry r) c = Some m \<and> m i = Some ep)"
  by (auto simp: reg_endpoint_def split: option.splits)

lemma uh_insert_ok:
  assumes "uh_wf r" "has_cluster r c" "entry_of r (c, ep_id ep) = None"
    "endpoint_validate ep = Ok ()" "endpoint_typed ep"
  shows "\<exists>r'. uh_insert_endpoint c ep r = (Ok (), r') \<and> only_entry (c, ep_id ep) r r' \<and>
    entry_of r' (c, ep_id ep) = Some ep"
proof -
  obtain m where m: "reg_view (uh_registry r) c = Some m" using assms(2) by (auto simp: has_cluster_def)
  then have mi: "m (ep_id ep) = None" using assms(3) by (simp add: reg_endpoint_def)
  have wf: "reg_wf (uh_registry r)" using assms(1) by (rule uh_wf_parts)
  from m obtain cl where cl: "map_of (er_clusters (uh_registry r)) c = Some cl" "m = cluster_endpoint cl"
    by (auto simp: reg_view_def)
  have "\<not> list_ex (\<lambda>x. ep_id x = ep_id ep) (cl_endpoints cl)"
    using mi cl by (simp add: cluster_endpoint_None list_ex_iff) (metis imageI)
  then have "\<exists>c'. cluster_insert_endpoint ep cl = Ok c'"
    using assms(4) by (simp add: cluster_insert_endpoint_def)
  then have "fst (uh_insert_endpoint c ep r) = Ok ()"
    using cl by (auto simp: uh_insert_endpoint_def reg_insert_endpoint_def Let_def)
  then obtain r' where r': "uh_insert_endpoint c ep r = (Ok (), r')"
    by (cases "uh_insert_endpoint c ep r") simp
  have "uh_wf r'"
    using health_step_wf [of "HInsertEndpoint c ep" r] assms(1,5) r' by simp
  moreover have "uh_registry r' = snd (reg_insert_endpoint c ep (uh_registry r))"
    using r' by (auto simp: uh_insert_endpoint_def Let_def split: prod.splits sum.splits if_splits)
  then have "reg_view (uh_registry r') = (reg_view (uh_registry r))(c \<mapsto> m(ep_id ep \<mapsto> ep))"
    using insert_endpoint_refines [OF wf, of c ep] m mi assms(4) by simp
  ultimately show ?thesis
    using r' only_entryI [of r' r "(c, ep_id ep)" m "Some ep"] m by simp
qed

lemma uh_remove_ok:
  assumes "uh_wf r" "entry_of r (c, i) = Some ep"
  shows "\<exists>r'. uh_remove_endpoint c i r = (Ok ep, r') \<and> only_entry (c, i) r r' \<and> entry_of r' (c, i) = None"
proof -
  obtain m where m: "reg_view (uh_registry r) c = Some m" "m i = Some ep"
    using assms(2) by (auto simp: entry_of_Some)
  have wf: "reg_wf (uh_registry r)" using assms(1) by (rule uh_wf_parts)
  from m obtain cl where cl: "map_of (er_clusters (uh_registry r)) c = Some cl" "m = cluster_endpoint cl"
    by (auto simp: reg_view_def)
  have "fst (cluster_remove_endpoint i cl) = Some ep"
    using m(2) cl by (auto simp: cluster_remove_endpoint_def cluster_endpoint_def find_position split: option.splits)
  then have "fst (uh_remove_endpoint c i r) = Ok ep"
    using cl by (auto simp: uh_remove_endpoint_def reg_remove_endpoint_def split: prod.splits)
  then obtain r' where r': "uh_remove_endpoint c i r = (Ok ep, r')"
    by (cases "uh_remove_endpoint c i r") simp
  have "uh_wf r'" using health_step_wf [of "HRemoveEndpoint c i" r] assms(1) r' by simp
  moreover have "uh_registry r' = snd (reg_remove_endpoint c i (uh_registry r))"
    using r' by (auto simp: uh_remove_endpoint_def split: prod.splits sum.splits)
  then have "reg_view (uh_registry r') = (reg_view (uh_registry r))(c \<mapsto> m(i := None))"
    using remove_endpoint_refines [OF wf, of c i] m by simp
  ultimately show ?thesis
    using r' only_entryI [of r' r "(c, i)" m None] m by simp
qed

lemma uh_set_state_ok:
  assumes "uh_wf r" "entry_of r (c, i) = Some ep" "ep_state ep \<noteq> st"
  shows "\<exists>r'. uh_set_endpoint_state c i st r = (Ok (), r') \<and> only_entry (c, i) r r' \<and>
    entry_of r' (c, i) = Some (with_state ep st)"
proof -
  obtain m where m: "reg_view (uh_registry r) c = Some m" "m i = Some ep"
    using assms(2) by (auto simp: entry_of_Some)
  have wf: "reg_wf (uh_registry r)" using assms(1) by (rule uh_wf_parts)
  from m obtain cl where cl: "map_of (er_clusters (uh_registry r)) c = Some cl" "m = cluster_endpoint cl"
    by (auto simp: reg_view_def)
  have "fst (cluster_set_endpoint_state i st cl)"
    using m(2) cl assms(3) by (auto simp: cluster_set_endpoint_state_def cluster_endpoint_def find_position)
  then have "fst (uh_set_endpoint_state c i st r) = Ok ()"
    using cl by (auto simp: uh_set_endpoint_state_def reg_set_endpoint_state_def split: prod.splits)
  then obtain r' where r': "uh_set_endpoint_state c i st r = (Ok (), r')"
    by (cases "uh_set_endpoint_state c i st r") simp
  have "uh_wf r'" using health_step_wf [of "HSetEndpointState c i st" r] assms(1) r' by simp
  moreover have "uh_registry r' = snd (reg_set_endpoint_state c i st (uh_registry r))"
    using r' by (auto simp: uh_set_endpoint_state_def split: prod.splits sum.splits)
  then have "reg_view (uh_registry r') = (reg_view (uh_registry r))(c \<mapsto> m(i \<mapsto> with_state ep st))"
    using set_state_refines [OF wf, of c i st] m by simp
  ultimately show ?thesis
    using r' only_entryI [of r' r "(c, i)" m "Some (with_state ep st)"] m by simp
qed

section \<open>Advertised endpoints\<close>

definition ready_endpoint :: "discovery_endpoint \<Rightarrow> upstream_endpoint" where
  "ready_endpoint e =
     \<lparr>ep_id = de_endpoint_id e, ep_address = de_address e, ep_state = StateReady,
      ep_metadata = \<lparr>em_zone = de_zone e, em_locality = de_locality e, em_weight = de_weight e\<rparr>\<rparr>"

definition valid_endpoint :: "discovery_endpoint \<Rightarrow> bool" where
  "valid_endpoint e \<longleftrightarrow> endpoint_validate (ready_endpoint e) = Ok () \<and> de_weight e < 2 ^ 16"

lemma into_upstream_iff:
  "into_upstream_endpoint e StateReady = Ok u \<longleftrightarrow> u = ready_endpoint e \<and> endpoint_validate u = Ok ()"
  by (auto simp: into_upstream_endpoint_def ready_endpoint_def endpoint_new_def endpoint_validate_def and_then_eq_Ok)

definition advertisers ::
  "discovery_reconciler \<Rightarrow> (discovery_source_id \<Rightarrow> bool) \<Rightarrow> endpoint_key \<Rightarrow> discovery_endpoint set" where
  "advertisers d P key =
     {e. \<exists>s es. map_of (dr_active_endpoints_by_source d) s = Some es \<and> P s \<and>
        src_cluster s = fst key \<and> map_of es (snd key) = Some e}"

abbreviation advertised :: "discovery_reconciler \<Rightarrow> endpoint_key \<Rightarrow> discovery_endpoint set" where
  "advertised d \<equiv> advertisers d (\<lambda>_. True)"

lemma find_map_Some: "find_map f xs = Some y \<Longrightarrow> \<exists>x\<in>set xs. f x = Some y"
  by (induction xs) (auto split: option.splits)

lemma find_map_None: "find_map f xs = None \<longleftrightarrow> (\<forall>x\<in>set xs. f x = None)"
  by (induction xs) (auto split: option.splits)

lemma other_definition_facts:
  assumes "bt_ok (dr_active_endpoints_by_source d)"
  shows "(other_source_definition s i d = None \<longleftrightarrow> advertisers d (\<lambda>t. t \<noteq> s) (src_cluster s, i) = {}) \<and>
    (\<forall>e. other_source_definition s i d = Some e \<longrightarrow> e \<in> advertisers d (\<lambda>t. t \<noteq> s) (src_cluster s, i))"
proof -
  have adv: "advertisers d (\<lambda>t. t \<noteq> s) (src_cluster s, i) =
      {e. \<exists>t es. (t, es) \<in> set (dr_active_endpoints_by_source d) \<and> t \<noteq> s \<and>
         src_cluster t = src_cluster s \<and> map_of es i = Some e}"
    unfolding advertisers_def bt_get_mem [OF assms] by simp
  show ?thesis
  proof (cases "other_source_definition s i d")
    case None
    then have "advertisers d (\<lambda>t. t \<noteq> s) (src_cluster s, i) = {}"
      by (auto simp: adv other_source_definition_def find_map_None)
    with None show ?thesis by simp
  next
    case (Some e)
    then obtain t es where "(t, es) \<in> set (dr_active_endpoints_by_source d)" "t \<noteq> s"
      "src_cluster t = src_cluster s" "map_of es i = Some e"
      unfolding other_source_definition_def by (auto dest!: find_map_Some)
    then have "e \<in> advertisers d (\<lambda>t. t \<noteq> s) (src_cluster s, i)" unfolding adv by blast
    with Some show ?thesis by auto
  qed
qed

text \<open>
  What the registry holds for an id, given the definitions advertised for it and whether it
  has a drain deadline.
\<close>

definition slot_ok :: "discovery_endpoint set \<Rightarrow> bool \<Rightarrow> upstream_endpoint option \<Rightarrow> bool" where
  "slot_ok defs draining entry \<longleftrightarrow>
     (case entry of
        None \<Rightarrow> defs = {} \<and> \<not> draining
      | Some ep \<Rightarrow>
          if defs = {} then draining \<and> ep_state ep = StateDraining
          else \<not> draining \<and> ep \<in> ready_endpoint ` defs)"

lemma slot_ok_present: "slot_ok defs dr x \<Longrightarrow> x \<noteq> None \<longleftrightarrow> dr \<or> defs \<noteq> {}"
  by (auto simp: slot_ok_def split: option.splits if_splits)

section \<open>One endpoint of a snapshot\<close>

definition progress_ok :: "reconcile_progress \<Rightarrow> bool" where
  "progress_ok p \<longleftrightarrow> uh_wf (rg_registry p) \<and> bt_ok (rg_deadlines p)"

definition slot :: "reconcile_progress \<Rightarrow> endpoint_key \<Rightarrow> bool \<times> upstream_endpoint option" where
  "slot p key = (bt_has key (rg_deadlines p), entry_of (rg_registry p) key)"

definition only_slot :: "endpoint_key \<Rightarrow> reconcile_progress \<Rightarrow> reconcile_progress \<Rightarrow> bool" where
  "only_slot key p p' \<longleftrightarrow> progress_ok p' \<and>
     (\<forall>c. has_cluster (rg_registry p') c = has_cluster (rg_registry p) c) \<and>
     (\<forall>k. k \<noteq> key \<longrightarrow> slot p' k = slot p k \<and> map_of (rg_deadlines p') k = map_of (rg_deadlines p) k)"

lemma reinstall_ok:
  assumes "progress_ok p" and "has_cluster (rg_registry p) c" and "valid_endpoint e"
    and "in_registry = (entry_of (rg_registry p) (c, de_endpoint_id e) \<noteq> None)"
  shows "\<exists>p'. reinstall c (de_endpoint_id e) in_registry (ready_endpoint e) p = (Ok (), p') \<and>
    only_slot (c, de_endpoint_id e) p p' \<and> rg_deadlines p' = rg_deadlines p \<and>
    entry_of (rg_registry p') (c, de_endpoint_id e) = Some (ready_endpoint e)"
proof -
  let ?k = "(c, de_endpoint_id e)"
  have wf: "uh_wf (rg_registry p)" and bt: "bt_ok (rg_deadlines p)" using assms(1) by (auto simp: progress_ok_def)
  have id: "ep_id (ready_endpoint e) = de_endpoint_id e" by (simp add: ready_endpoint_def)
  have v: "endpoint_validate (ready_endpoint e) = Ok ()" "endpoint_typed (ready_endpoint e)"
    using assms(3) by (simp_all add: valid_endpoint_def endpoint_typed_def ready_endpoint_def)
  obtain r1 where r1: "(if in_registry then map_prod ignore_missing_endpoint id
        (uh_remove_endpoint c (de_endpoint_id e) (rg_registry p)) else (Ok (), rg_registry p)) = (Ok (), r1)"
    and o1: "only_entry ?k (rg_registry p) r1" "entry_of r1 ?k = None"
  proof (cases in_registry)
    case True
    with assms(4) obtain ep where "entry_of (rg_registry p) ?k = Some ep" by auto
    from uh_remove_ok [OF wf this] True show thesis by (auto simp: ignore_missing_endpoint_def intro: that)
  next
    case False
    with assms(4) wf show thesis by (intro that [of "rg_registry p"]) (auto simp: only_entry_def)
  qed
  have "uh_wf r1" "has_cluster r1 c" using o1 assms(2) by (auto simp: only_entry_def)
  from uh_insert_ok [OF this, of "ready_endpoint e"] o1(2) v id
  obtain r2 where r2: "uh_insert_endpoint c (ready_endpoint e) r1 = (Ok (), r2)"
    "only_entry ?k r1 r2" "entry_of r2 ?k = Some (ready_endpoint e)" by auto
  have "reinstall c (de_endpoint_id e) in_registry (ready_endpoint e) p =
      (Ok (), p\<lparr>rg_registry := r2, rg_activated := rg_activated p @ [de_endpoint_id e]\<rparr>)"
    by (simp add: reinstall_def r1 r2(1))
  moreover have "only_slot ?k p (p\<lparr>rg_registry := r2, rg_activated := rg_activated p @ [de_endpoint_id e]\<rparr>)"
    using o1(1) r2(2) bt by (auto simp: only_slot_def only_entry_def progress_ok_def slot_def)
  ultimately show ?thesis using r2(3) by simp
qed

lemma only_slot_refl: "progress_ok p \<Longrightarrow> only_slot key p p"
  by (simp add: only_slot_def)

lemma only_slot_deadlines:
  "progress_ok p \<Longrightarrow> only_slot key p (p\<lparr>rg_deadlines := bt_remove key (rg_deadlines p)\<rparr>)"
  by (auto simp: only_slot_def progress_ok_def slot_def bt_remove_ok bt_has_bt_remove map_of_bt_remove)

lemma only_slot_trans: "only_slot key p q \<Longrightarrow> only_slot key q r \<Longrightarrow> only_slot key p r"
  by (auto simp: only_slot_def)

lemma count_applied_simps [simp]:
  "rg_registry (count_applied b p) = rg_registry p" "rg_deadlines (count_applied b p) = rg_deadlines p"
  by (simp_all add: count_applied_def Let_def)

lemma only_slot_count: "only_slot key p (count_applied b q) = only_slot key p q"
  by (simp add: only_slot_def progress_ok_def slot_def)

lemma slot_count [simp]: "slot (count_applied b p) = slot p"
  by (simp add: slot_def fun_eq_iff)

lemma apply_endpoint_ok:
  assumes "progress_ok p" and "has_cluster (rg_registry p) (src_cluster s)"
    and "bt_ok (dr_active_endpoints_by_source d)" and "valid_endpoint e" and "de_endpoint_id e = i"
    and others: "others = advertisers d (\<lambda>t. t \<noteq> s) (src_cluster s, i)"
    and "slot_ok (set_option (map_of previous i) \<union> others) (fst (slot p (src_cluster s, i)))
           (snd (slot p (src_cluster s, i)))"
  shows "\<exists>p'. apply_endpoint s previous d (i, e, ready_endpoint e) p = (Ok (), p') \<and>
    only_slot (src_cluster s, i) p p' \<and>
    slot_ok ({e} \<union> others) (fst (slot p' (src_cluster s, i))) (snd (slot p' (src_cluster s, i)))"
proof (cases "map_of previous i = Some e")
  case True
  with assms show ?thesis
    by (auto simp: apply_endpoint_def only_slot_refl)
next
  case False
  let ?k = "(src_cluster s, i)" and ?other = "other_source_definition s i d"
  let ?p = "p\<lparr>rg_deadlines := bt_remove ?k (rg_deadlines p)\<rparr>"
  note other = other_definition_facts [OF assms(3), of s i, folded others]
  have p: "progress_ok ?p" "only_slot ?k p ?p" "has_cluster (rg_registry ?p) (src_cluster s)"
    using assms(1,2) only_slot_deadlines [OF assms(1), of ?k] by (simp_all add: only_slot_def)
  have no_dl: "\<not> bt_has ?k (bt_remove ?k (rg_deadlines p))" by (simp add: bt_has_bt_remove)
  have present: "entry_of (rg_registry p) ?k \<noteq> None \<longleftrightarrow>
      bt_has ?k (rg_deadlines p) \<or> bt_has i previous \<or> ?other \<noteq> None"
    using slot_ok_present [OF assms(7)] other by (auto simp: slot_def bt_has_def)
  show ?thesis
  proof (cases "?other = Some e \<and> \<not> bt_has ?k (rg_deadlines p) \<and> \<not> bt_has i previous")
    case True
    then have "apply_endpoint s previous d (i, e, ready_endpoint e) p = (Ok (), count_applied (bt_has i previous) ?p)"
      using False by (simp add: apply_endpoint_def Let_def)
    moreover have "{e} \<union> others = set_option (map_of previous i) \<union> others"
      using True other by (auto simp: bt_has_def)
    ultimately show ?thesis
      using p no_dl assms(7) True by (auto simp: only_slot_count slot_def)
  next
    case install: False
    from reinstall_ok [OF p(1,3) assms(4), of "bt_has ?k (rg_deadlines p) \<or> bt_has i previous \<or> ?other \<noteq> None"]
      present assms(5)
    obtain q where q: "reinstall (src_cluster s) i (bt_has ?k (rg_deadlines p) \<or> bt_has i previous \<or> ?other \<noteq> None)
        (ready_endpoint e) ?p = (Ok (), q)" "only_slot ?k ?p q" "rg_deadlines q = rg_deadlines ?p"
      "entry_of (rg_registry q) ?k = Some (ready_endpoint e)"
      by auto
    have "apply_endpoint s previous d (i, e, ready_endpoint e) p = (Ok (), count_applied (bt_has i previous) q)"
      unfolding apply_endpoint_def Let_def prod.case if_not_P [OF False] if_not_P [OF install] q(1) by simp
    moreover have "slot q ?k = (False, Some (ready_endpoint e))"
      using q(3,4) no_dl by (simp add: slot_def)
    ultimately show ?thesis
      using only_slot_trans [OF p(2) q(2)] by (auto simp: only_slot_count slot_ok_def)
  qed
qed

lemma retire_endpoint_ok:
  assumes "progress_ok p" and "has_cluster (rg_registry p) (src_cluster s)"
    and "bt_ok (dr_active_endpoints_by_source d)"
    and others: "others = advertisers d (\<lambda>t. t \<noteq> s) (src_cluster s, i)"
    and "\<forall>e\<in>others. valid_endpoint e \<and> de_endpoint_id e = i"
    and "slot_ok ({removed} \<union> others) (fst (slot p (src_cluster s, i))) (snd (slot p (src_cluster s, i)))"
  shows "\<exists>p'. retire_endpoint s d (i, removed) p = (Ok (), p') \<and> only_slot (src_cluster s, i) p p' \<and>
    slot_ok others (fst (slot p' (src_cluster s, i))) (snd (slot p' (src_cluster s, i)))"
proof -
  let ?k = "(src_cluster s, i)" and ?other = "other_source_definition s i d"
  note other = other_definition_facts [OF assms(3), of s i, folded others]
  from assms(6) obtain ep where ep: "entry_of (rg_registry p) ?k = Some ep"
      "\<not> bt_has ?k (rg_deadlines p)" "ep \<in> ready_endpoint ` ({removed} \<union> others)"
    by (auto simp: slot_ok_def slot_def split: option.splits)
  show ?thesis
  proof (cases ?other)
    case None
    have "uh_wf (rg_registry p)" "ep_state ep \<noteq> StateDraining"
      using assms(1) ep(3) by (auto simp: progress_ok_def ready_endpoint_def)
    from uh_set_state_ok [OF this(1) ep(1) this(2)] obtain r where
      r: "uh_set_endpoint_state (src_cluster s) i StateDraining (rg_registry p) = (Ok (), r)"
        "only_entry ?k (rg_registry p) r" "entry_of r ?k = Some (with_state ep StateDraining)" by blast
    then have "retire_endpoint s d (i, removed) p = (Ok (), p\<lparr>rg_registry := r,
        rg_deadlines := bt_insert ?k (dur_saturating_add (dr_now d) (dr_drain_grace d)) (rg_deadlines p),
        rg_draining := rg_draining p @ [i],
        rg_outcome := (rg_outcome p)\<lparr>do_marked_draining := do_marked_draining (rg_outcome p) + 1\<rparr>\<rparr>)"
      using None by (simp add: retire_endpoint_def ignore_missing_endpoint_def)
    then show ?thesis
      using r other None assms(1)
      by (auto simp: only_slot_def only_entry_def progress_ok_def slot_def slot_ok_def bt_insert_ok
          bt_has_bt_insert map_of_bt_insert with_state_def)
  next
    case (Some e)
    then have e: "e \<in> others" "valid_endpoint e" "de_endpoint_id e = i" using other assms(5) by auto
    show ?thesis
    proof (cases "e = removed")
      case True
      then have "retire_endpoint s d (i, removed) p = (Ok (), p)" using Some by (simp add: retire_endpoint_def)
      moreover have "{removed} \<union> others = others" using True e(1) by auto
      ultimately show ?thesis using assms(1,6) by (simp add: only_slot_refl)
    next
      case False
      from reinstall_ok [OF assms(1,2) e(2), of True] ep(1) e(3) obtain q where
        q: "reinstall (src_cluster s) i True (ready_endpoint e) p = (Ok (), q)" "only_slot ?k p q"
          "rg_deadlines q = rg_deadlines p" "entry_of (rg_registry q) ?k = Some (ready_endpoint e)" by auto
      moreover have "into_upstream_endpoint e StateReady = Ok (ready_endpoint e)"
        using e(2) by (simp add: into_upstream_iff valid_endpoint_def)
      ultimately have "retire_endpoint s d (i, removed) p = (Ok (), q)"
        using Some False by (simp add: retire_endpoint_def)
      then show ?thesis using q ep(2) e(1) by (auto simp: slot_def slot_ok_def)
    qed
  qed
qed

declare split_paired_All [simp del] split_paired_Ex [simp del]

section \<open>The two loops\<close>

definition only_slots :: "endpoint_key set \<Rightarrow> reconcile_progress \<Rightarrow> reconcile_progress \<Rightarrow> bool" where
  "only_slots K p p' \<longleftrightarrow> progress_ok p' \<and>
     (\<forall>c. has_cluster (rg_registry p') c = has_cluster (rg_registry p) c) \<and>
     (\<forall>k. k \<notin> K \<longrightarrow> slot p' k = slot p k)"

lemma only_slots_step: "only_slot key p q \<Longrightarrow> only_slots K q r \<Longrightarrow> only_slots (insert key K) p r"
  by (auto simp: only_slots_def only_slot_def)

lemma only_slots_trans: "only_slots K p q \<Longrightarrow> only_slots L q r \<Longrightarrow> only_slots (K \<union> L) p r"
  by (auto simp: only_slots_def)

abbreviation slot_good :: "discovery_endpoint set \<Rightarrow> reconcile_progress \<Rightarrow> endpoint_key \<Rightarrow> bool" where
  "slot_good D p k \<equiv> slot_ok D (fst (slot p k)) (snd (slot p k))"

lemma only_slot_good: "only_slot key p q \<Longrightarrow> k \<noteq> key \<Longrightarrow> slot_good D q k = slot_good D p k"
  by (simp add: only_slot_def)

lemma only_slots_good: "only_slots K p q \<Longrightarrow> k \<notin> K \<Longrightarrow> slot_good D q k = slot_good D p k"
  by (simp add: only_slots_def)

lemma apply_endpoints_ok:
  assumes "bt_ok (dr_active_endpoints_by_source d)"
    and others: "others = (\<lambda>i. advertisers d (\<lambda>t. t \<noteq> s) (src_cluster s, i))"
  shows "progress_ok p \<Longrightarrow> has_cluster (rg_registry p) (src_cluster s) \<Longrightarrow> distinct (map fst xs) \<Longrightarrow>
    (\<forall>(i, e, u)\<in>set xs. de_endpoint_id e = i \<and> valid_endpoint e \<and> u = ready_endpoint e \<and>
       slot_good (set_option (map_of previous i) \<union> others i) p (src_cluster s, i)) \<Longrightarrow>
    \<exists>p'. apply_endpoints s previous d xs p = (Ok (), p') \<and>
      only_slots (Pair (src_cluster s) ` fst ` set xs) p p' \<and>
      (\<forall>(i, e, u)\<in>set xs. slot_good ({e} \<union> others i) p' (src_cluster s, i))"
proof (induction xs arbitrary: p)
  case Nil
  then show ?case by (simp add: only_slots_def)
next
  case (Cons x xs)
  obtain i e u where x: "x = (i, e, u)" by (cases x)
  have xi: "de_endpoint_id e = i" "valid_endpoint e" "u = ready_endpoint e"
    "slot_good (set_option (map_of previous i) \<union> others i) p (src_cluster s, i)"
    using Cons.prems(4) x by auto
  from apply_endpoint_ok [OF Cons.prems(1,2) assms(1) xi(2,1) fun_cong [OF others, of i] xi(4)]
  obtain q where q: "apply_endpoint s previous d (i, e, u) p = (Ok (), q)" "only_slot (src_cluster s, i) p q"
    "slot_good ({e} \<union> others i) q (src_cluster s, i)"
    using xi(3) by blast
  have pre: "\<forall>(j, e, u)\<in>set xs. de_endpoint_id e = j \<and> valid_endpoint e \<and> u = ready_endpoint e \<and>
      slot_good (set_option (map_of previous j) \<union> others j) q (src_cluster s, j)"
  proof (rule ballI, clarify)
    fix j e' u' assume j: "(j, e', u') \<in> set xs"
    then have "j \<in> fst ` set xs" by (rule image_eqI [rotated]) simp
    then have ne: "(src_cluster s, j) \<noteq> (src_cluster s, i)" using Cons.prems(3) x by auto
    have "(j, e', u') \<in> set (x # xs)" using j by simp
    from bspec [OF Cons.prems(4) this]
    show "de_endpoint_id e' = j \<and> valid_endpoint e' \<and> u' = ready_endpoint e' \<and>
        slot_good (set_option (map_of previous j) \<union> others j) q (src_cluster s, j)"
      unfolding only_slot_good [OF q(2) ne] by simp
  qed
  have "progress_ok q" "has_cluster (rg_registry q) (src_cluster s)"
    using q(2) Cons.prems(2) by (auto simp: only_slot_def)
  from Cons.IH [OF this _ pre] Cons.prems(3) obtain r where
    r: "apply_endpoints s previous d xs q = (Ok (), r)"
      "only_slots (Pair (src_cluster s) ` fst ` set xs) q r"
      "\<forall>(i, e, u)\<in>set xs. slot_good ({e} \<union> others i) r (src_cluster s, i)" by auto
  have "(src_cluster s, i) \<notin> Pair (src_cluster s) ` fst ` set xs" using Cons.prems(3) x by auto
  then have "slot_good ({e} \<union> others i) r (src_cluster s, i)"
    using q(3) only_slots_good [OF r(2)] by simp
  with r q only_slots_step [OF q(2) r(2)] x show ?case by auto
qed

lemma retire_endpoints_ok:
  assumes "bt_ok (dr_active_endpoints_by_source d)"
    and others: "others = (\<lambda>i. advertisers d (\<lambda>t. t \<noteq> s) (src_cluster s, i))"
    and valid: "\<forall>i. \<forall>e\<in>others i. valid_endpoint e \<and> de_endpoint_id e = i"
  shows "progress_ok p \<Longrightarrow> has_cluster (rg_registry p) (src_cluster s) \<Longrightarrow> distinct (map fst xs) \<Longrightarrow>
    (\<forall>(i, e)\<in>set xs. slot_good ({e} \<union> others i) p (src_cluster s, i)) \<Longrightarrow>
    \<exists>p'. retire_endpoints s d xs p = (Ok (), p') \<and>
      only_slots (Pair (src_cluster s) ` fst ` set xs) p p' \<and>
      (\<forall>(i, e)\<in>set xs. slot_good (others i) p' (src_cluster s, i))"
proof (induction xs arbitrary: p)
  case Nil
  then show ?case by (simp add: only_slots_def)
next
  case (Cons x xs)
  obtain i e where x: "x = (i, e)" by (cases x)
  have "slot_good ({e} \<union> others i) p (src_cluster s, i)" using Cons.prems(4) x by auto
  from retire_endpoint_ok [OF Cons.prems(1,2) assms(1) fun_cong [OF others, of i] _ this] valid
  obtain q where q: "retire_endpoint s d (i, e) p = (Ok (), q)" "only_slot (src_cluster s, i) p q"
    "slot_good (others i) q (src_cluster s, i)" by auto
  have pre: "\<forall>(j, e)\<in>set xs. slot_good ({e} \<union> others j) q (src_cluster s, j)"
  proof (rule ballI, clarify)
    fix j e' assume j: "(j, e') \<in> set xs"
    then have "j \<in> fst ` set xs" by (rule image_eqI [rotated]) simp
    then have ne: "(src_cluster s, j) \<noteq> (src_cluster s, i)" using Cons.prems(3) x by auto
    have "(j, e') \<in> set (x # xs)" using j by simp
    from bspec [OF Cons.prems(4) this] show "slot_good ({e'} \<union> others j) q (src_cluster s, j)"
      unfolding only_slot_good [OF q(2) ne] by simp
  qed
  have "progress_ok q" "has_cluster (rg_registry q) (src_cluster s)"
    using q(2) Cons.prems(2) by (auto simp: only_slot_def)
  from Cons.IH [OF this _ pre] Cons.prems(3) obtain r where
    r: "retire_endpoints s d xs q = (Ok (), r)" "only_slots (Pair (src_cluster s) ` fst ` set xs) q r"
      "\<forall>(i, e)\<in>set xs. slot_good (others i) r (src_cluster s, i)" by auto
  have "(src_cluster s, i) \<notin> Pair (src_cluster s) ` fst ` set xs" using Cons.prems(3) x by auto
  then have "slot_good (others i) r (src_cluster s, i)"
    using q(3) only_slots_good [OF r(2)] by simp
  with r q only_slots_step [OF q(2) r(2)] x show ?case by auto
qed

section \<open>The invariant\<close>

definition discovery_inv ::
  "cluster_name set \<Rightarrow> discovery_reconciler \<Rightarrow> upstream_health_registry \<Rightarrow> bool" where
  "discovery_inv C d r \<longleftrightarrow> uh_wf r \<and> bt_ok (dr_active_endpoints_by_source d) \<and>
     bt_ok (dr_draining_deadlines d) \<and> bt_ok (dr_applied_generations d) \<and>
     (\<forall>s es. map_of (dr_active_endpoints_by_source d) s = Some es \<longrightarrow>
        src_cluster s \<in> C \<and> bt_ok es \<and>
        (\<forall>i e. map_of es i = Some e \<longrightarrow> de_endpoint_id e = i \<and> valid_endpoint e)) \<and>
     (\<forall>c i. bt_has (c, i) (dr_draining_deadlines d) \<longrightarrow> c \<in> C) \<and>
     (\<forall>c\<in>C. has_cluster r c \<and>
        (\<forall>i. slot_ok (advertised d (c, i)) (bt_has (c, i) (dr_draining_deadlines d)) (entry_of r (c, i))))"

lemma discovery_inv_valid:
  "discovery_inv C d r \<Longrightarrow> e \<in> advertisers d P (c, i) \<Longrightarrow> valid_endpoint e \<and> de_endpoint_id e = i"
  by (auto simp: discovery_inv_def advertisers_def)

lemma advertised_split:
  "advertised d (src_cluster s, i) =
     set_option (map_of (bt_get_or s [] (dr_active_endpoints_by_source d)) i)
       \<union> advertisers d (\<lambda>t. t \<noteq> s) (src_cluster s, i)"
proof (rule set_eqI)
  fix e
  have "e \<in> set_option (map_of (bt_get_or s [] (dr_active_endpoints_by_source d)) i) \<longleftrightarrow>
      (\<exists>es. map_of (dr_active_endpoints_by_source d) s = Some es \<and> map_of es i = Some e)"
    by (simp add: bt_get_or_def split: option.split)
  then show "e \<in> advertised d (src_cluster s, i) \<longleftrightarrow>
      e \<in> set_option (map_of (bt_get_or s [] (dr_active_endpoints_by_source d)) i)
        \<union> advertisers d (\<lambda>t. t \<noteq> s) (src_cluster s, i)"
    by (simp only: Un_iff advertisers_def mem_Collect_eq fst_conv snd_conv) metis
qed

lemma advertisers_insert:
  assumes "bt_ok (dr_active_endpoints_by_source d)"
    and "dr_active_endpoints_by_source d' = bt_insert s es (dr_active_endpoints_by_source d)"
  shows "advertised d' (src_cluster s, i) = set_option (map_of es i) \<union> advertisers d (\<lambda>t. t \<noteq> s) (src_cluster s, i)"
    and "c \<noteq> src_cluster s \<Longrightarrow> advertised d' (c, i) = advertised d (c, i)"
  using assms by (auto simp: advertisers_def map_of_bt_insert split: if_splits)

lemma validate_endpoints_Ok:
  assumes "validate_endpoints es acc = Ok n" and "bt_ok acc" and "\<forall>e\<in>set es. de_weight e < 2 ^ 16"
    and "\<forall>i e u. map_of acc i = Some (e, u) \<longrightarrow> de_endpoint_id e = i \<and> valid_endpoint e \<and> u = ready_endpoint e"
  shows "bt_ok n \<and>
    (\<forall>i e u. map_of n i = Some (e, u) \<longrightarrow> de_endpoint_id e = i \<and> valid_endpoint e \<and> u = ready_endpoint e)"
  using assms
proof (induction es acc rule: validate_endpoints.induct)
  case (2 e es acc)
  from "2.prems"(1) obtain u where u: "into_upstream_endpoint e StateReady = Ok u"
    "validate_endpoints es (bt_insert (de_endpoint_id e) (e, u) acc) = Ok n"
    by (auto split: sum.splits)
  then have "u = ready_endpoint e" "valid_endpoint e"
    using "2.prems"(3) by (auto simp: into_upstream_iff valid_endpoint_def)
  then have "\<forall>i e' u'. map_of (bt_insert (de_endpoint_id e) (e, u) acc) i = Some (e', u') \<longrightarrow>
      de_endpoint_id e' = i \<and> valid_endpoint e' \<and> u' = ready_endpoint e'"
    unfolding map_of_bt_insert [OF "2.prems"(2)] using "2.prems"(4) by (simp split: if_splits)
  from "2.IH" [OF u bt_insert_ok [OF "2.prems"(2)] _ this] "2.prems"(3) show ?case by simp
qed simp

lemma validate_endpoints_lookup:
  "validate_endpoints es acc = Ok n \<Longrightarrow> bt_ok acc \<Longrightarrow>
     map_of n i = (case map_of (rev (map (\<lambda>e. (de_endpoint_id e, e)) es)) i of
       Some e \<Rightarrow> Some (e, ready_endpoint e) | None \<Rightarrow> map_of acc i)"
proof (induction es acc rule: validate_endpoints.induct)
  case (2 e es acc)
  from "2.prems"(1) obtain u where u: "into_upstream_endpoint e StateReady = Ok u"
    "validate_endpoints es (bt_insert (de_endpoint_id e) (e, u) acc) = Ok n"
    by (auto split: sum.splits)
  then have "u = ready_endpoint e" by (simp add: into_upstream_iff)
  with "2.IH" [OF u bt_insert_ok [OF "2.prems"(2)]] show ?case
    by (simp add: map_of_bt_insert [OF "2.prems"(2)] map_add_def split: option.split)
qed simp

lemma validate_endpoints_iff:
  "is_ok (validate_endpoints es acc) \<longleftrightarrow> (\<forall>e\<in>set es. endpoint_validate (ready_endpoint e) = Ok ())"
proof (induction es acc rule: validate_endpoints.induct)
  case (2 e es acc)
  show ?case
  proof (cases "into_upstream_endpoint e StateReady")
    case (Inl err)
    then have "\<not> (\<exists>u. into_upstream_endpoint e StateReady = Ok u)" by simp
    then have "endpoint_validate (ready_endpoint e) \<noteq> Ok ()" by (simp add: into_upstream_iff)
    with Inl show ?thesis by simp
  next
    case (Inr u)
    then have "endpoint_validate (ready_endpoint e) = Ok ()" by (auto simp: into_upstream_iff)
    with Inr "2.IH" [OF Inr] show ?thesis by simp
  qed
qed simp

section \<open>Reconciling a snapshot\<close>

lemma emit_event_simps [simp]:
  "dr_active_endpoints_by_source (emit_discovery_event x c t d) = dr_active_endpoints_by_source d"
  "dr_draining_deadlines (emit_discovery_event x c t d) = dr_draining_deadlines d"
  "dr_applied_generations (emit_discovery_event x c t d) = dr_applied_generations d"
  "dr_endpoint_lifecycle (emit_discovery_event x c t d) = dr_endpoint_lifecycle d"
  "dr_now (emit_discovery_event x c t d) = dr_now d"
  by (simp_all add: emit_discovery_event_def)

lemma discovery_inv_cong:
  assumes "dr_active_endpoints_by_source d' = dr_active_endpoints_by_source d"
    and "dr_draining_deadlines d' = dr_draining_deadlines d"
    and "dr_applied_generations d' = dr_applied_generations d"
  shows "discovery_inv C d' r = discovery_inv C d r"
  using assms by (simp add: discovery_inv_def advertisers_def)

lemma map_of_defs: "map_of (map (\<lambda>(i, e, _). (i, e)) n) i = map_option fst (map_of n i)"
  by (induction n) auto

lemma bt_ok_defs: "bt_ok n \<Longrightarrow> bt_ok (map (\<lambda>(i, e, _). (i, e)) n)"
  by (induction n) (auto simp: bt_ok_Cons)

lemma finish_fields:
  assumes "finish_reconcile s n p d = (outcome, d')"
  shows "dr_active_endpoints_by_source d' =
      bt_insert (sn_source s) (map (\<lambda>(i, e, _). (i, e)) n) (dr_active_endpoints_by_source d)"
    "dr_draining_deadlines d' = rg_deadlines p"
    "dr_applied_generations d' = bt_insert (sn_source s) (sn_generation s) (dr_applied_generations d)"
  using assms by (auto simp: finish_reconcile_def Let_def)

lemma reconcile_loops:
  assumes inv: "discovery_inv C d r" and c: "src_cluster s \<in> C"
    and n: "bt_ok n" "\<forall>i e u. map_of n i = Some (e, u) \<longrightarrow> de_endpoint_id e = i \<and> valid_endpoint e \<and> u = ready_endpoint e"
    and prev: "previous = bt_get_or s [] (dr_active_endpoints_by_source d)"
    and p: "rg_registry p = r" "rg_deadlines p = dr_draining_deadlines d"
  shows "\<exists>p1 p2. apply_endpoints s previous d n p = (Ok (), p1) \<and>
    retire_endpoints s d (filter (\<lambda>(i, _). \<not> bt_has i n) previous) p1 = (Ok (), p2) \<and>
    only_slots {k. fst k = src_cluster s} p p2 \<and>
    (\<forall>i. slot_good (set_option (map_option fst (map_of n i))
       \<union> advertisers d (\<lambda>t. t \<noteq> s) (src_cluster s, i)) p2 (src_cluster s, i))"
proof -
  define others where "others = (\<lambda>i. advertisers d (\<lambda>t. t \<noteq> s) (src_cluster s, i))"
  have act: "bt_ok (dr_active_endpoints_by_source d)" and pok: "progress_ok p"
    and hc: "has_cluster (rg_registry p) (src_cluster s)"
    using inv c p by (auto simp: discovery_inv_def progress_ok_def)
  have bprev: "bt_ok previous"
    using inv unfolding prev by (auto simp: discovery_inv_def bt_get_or_def split: option.split)
  have start: "slot_good (set_option (map_of previous i) \<union> others i) p (src_cluster s, i)" for i
    using inv c unfolding prev others_def advertised_split [symmetric]
    by (simp add: discovery_inv_def slot_def p)
  have "\<forall>(i, e, u)\<in>set n. de_endpoint_id e = i \<and> valid_endpoint e \<and> u = ready_endpoint e \<and>
      slot_good (set_option (map_of previous i) \<union> others i) p (src_cluster s, i)"
    using n start by (auto simp: bt_get_mem [OF n(1), symmetric])
  from apply_endpoints_ok [OF act others_def pok hc bt_ok_distinct [OF n(1)] this] obtain p1 where
    p1: "apply_endpoints s previous d n p = (Ok (), p1)"
      "only_slots (Pair (src_cluster s) ` fst ` set n) p p1"
      "\<forall>(i, e, u)\<in>set n. slot_good ({e} \<union> others i) p1 (src_cluster s, i)" by blast
  let ?gone = "filter (\<lambda>(i, _). \<not> bt_has i n) previous"
  have gone: "(i, e) \<in> set ?gone \<longleftrightarrow> map_of previous i = Some e \<and> i \<notin> fst ` set n" for i e
    by (auto simp: bt_get_mem [OF bprev] bt_has_iff)
  have not_in: "(src_cluster s, i) \<notin> Pair (src_cluster s) ` fst ` set n" if "i \<notin> fst ` set n" for i
    using that by auto
  have "\<forall>(i, e)\<in>set ?gone. slot_good ({e} \<union> others i) p1 (src_cluster s, i)"
  proof (rule ballI, clarify)
    fix i e assume "(i, e) \<in> set ?gone"
    then have "map_of previous i = Some e" "i \<notin> fst ` set n" unfolding gone by blast+
    then show "slot_good ({e} \<union> others i) p1 (src_cluster s, i)"
      unfolding only_slots_good [OF p1(2) not_in [OF \<open>i \<notin> fst ` set n\<close>]] using start [of i] by simp
  qed
  moreover have "progress_ok p1" "has_cluster (rg_registry p1) (src_cluster s)"
    using p1(2) hc by (auto simp: only_slots_def)
  moreover have "distinct (map fst ?gone)"
    using bt_ok_distinct [OF bprev] by (rule distinct_map_filter)
  moreover have "\<forall>i. \<forall>e\<in>others i. valid_endpoint e \<and> de_endpoint_id e = i"
    using discovery_inv_valid [OF inv] unfolding others_def by blast
  ultimately obtain p2 where p2: "retire_endpoints s d ?gone p1 = (Ok (), p2)"
    "only_slots (Pair (src_cluster s) ` fst ` set ?gone) p1 p2"
    "\<forall>(i, e)\<in>set ?gone. slot_good (others i) p2 (src_cluster s, i)"
    using retire_endpoints_ok [OF act others_def] by blast
  have "slot_good (set_option (map_option fst (map_of n i)) \<union> others i) p2 (src_cluster s, i)" for i
  proof (cases "map_of n i")
    case (Some eu)
    then obtain e u where eu: "eu = (e, u)" "(i, e, u) \<in> set n" by (cases eu) (auto simp: bt_get_mem [OF n(1)])
    then have "i \<in> fst ` set n" by force
    then have "(src_cluster s, i) \<notin> Pair (src_cluster s) ` fst ` set ?gone"
      using \<open>i \<in> fst ` set n\<close> by (force simp: bt_has_iff)
    from only_slots_good [OF p2(2) this] p1(3) eu Some show ?thesis by auto
  next
    case None
    then have i: "i \<notin> fst ` set n" by (simp add: map_of_eq_None_iff)
    show ?thesis
    proof (cases "map_of previous i")
      case (Some e)
      then have "(i, e) \<in> set ?gone" using gone i by blast
      with p2(3) None show ?thesis by auto
    next
      case no_prev: None
      then have "(src_cluster s, i) \<notin> Pair (src_cluster s) ` fst ` set ?gone"
        using gone by (auto simp del: set_filter)
      from only_slots_good [OF p2(2) this] only_slots_good [OF p1(2) not_in [OF i]] start [of i] None no_prev
      show ?thesis by simp
    qed
  qed
  moreover have "only_slots {k. fst k = src_cluster s} p p2"
    using only_slots_trans [OF p1(2) p2(2)] unfolding only_slots_def by auto
  ultimately show ?thesis using p1(1) p2(1) unfolding others_def by blast
qed

lemma reconcile_ok:
  assumes inv: "discovery_inv C d r" and c: "src_cluster (sn_source s) \<in> C"
    and fresh: "stale_generation s d = None" and typed: "\<forall>e\<in>set (sn_endpoints s). de_weight e < 2 ^ 16"
    and ok: "validate_endpoints (sn_endpoints s) [] = Ok n"
  shows "\<exists>outcome d' r'. reconcile_snapshot s d r = (Ok outcome, d', r') \<and> discovery_inv C d' r' \<and>
    dr_active_endpoints_by_source d' =
      bt_insert (sn_source s) (map (\<lambda>(i, e, _). (i, e)) n) (dr_active_endpoints_by_source d) \<and>
    dr_applied_generations d' = bt_insert (sn_source s) (sn_generation s) (dr_applied_generations d)"
proof -
  let ?s = "sn_source s"
  let ?prev = "bt_get_or ?s [] (dr_active_endpoints_by_source d)"
  let ?p = "\<lparr>rg_registry = r, rg_deadlines = dr_draining_deadlines d, rg_activated = [], rg_draining = [],
      rg_outcome = outcome_default\<rparr>"
  have n: "bt_ok n" "\<forall>i e u. map_of n i = Some (e, u) \<longrightarrow> de_endpoint_id e = i \<and> valid_endpoint e \<and> u = ready_endpoint e"
    using validate_endpoints_Ok [OF ok _ typed] by simp_all
  from reconcile_loops [OF inv c n refl, of ?p] obtain p1 p2 where
    p1: "apply_endpoints ?s ?prev d n ?p = (Ok (), p1)" and
    p2: "retire_endpoints ?s d (filter (\<lambda>(i, _). \<not> bt_has i n) ?prev) p1 = (Ok (), p2)" and
    os: "only_slots {k. fst k = src_cluster ?s} ?p p2" and
    good: "\<forall>i. slot_good (set_option (map_option fst (map_of n i))
      \<union> advertisers d (\<lambda>t. t \<noteq> ?s) (src_cluster ?s, i)) p2 (src_cluster ?s, i)"
    by auto
  obtain outcome d' where f: "finish_reconcile s n p2 d = (outcome, d')" by fastforce
  have res: "reconcile_snapshot s d r = (Ok outcome, d', rg_registry p2)"
    unfolding reconcile_snapshot_def Let_def fresh ok option.case sum.case p1 p2 f prod.case by (rule refl)
  note d' = finish_fields [OF f]
  have act: "bt_ok (dr_active_endpoints_by_source d)" using inv by (simp add: discovery_inv_def)
  have gens: "bt_ok (dr_applied_generations d)" using inv by (simp add: discovery_inv_def)
  note adv = advertisers_insert [OF act d'(1)]
  have wf: "uh_wf (rg_registry p2)" "bt_ok (rg_deadlines p2)"
    using os by (auto simp: only_slots_def progress_ok_def)
  have other: "slot p2 k = (bt_has k (dr_draining_deadlines d), entry_of r k)" if "fst k \<noteq> src_cluster ?s" for k
  proof -
    have "slot p2 k = slot ?p k" using os that unfolding only_slots_def by blast
    then show ?thesis by (simp add: slot_def)
  qed
  have "slot_ok (advertised d' (c, i)) (bt_has (c, i) (rg_deadlines p2)) (entry_of (rg_registry p2) (c, i))"
    if "c \<in> C" for c i
  proof (cases "c = src_cluster ?s")
    case True
    with good show ?thesis by (simp add: adv(1) map_of_defs slot_def)
  next
    case False
    with other [of "(c, i)"] inv that show ?thesis by (simp add: adv(2) slot_def discovery_inv_def)
  qed
  moreover have "has_cluster (rg_registry p2) c" if "c \<in> C" for c
    using os inv that by (auto simp: only_slots_def discovery_inv_def)
  moreover have "c' \<in> C" if "bt_has (c', i) (rg_deadlines p2)" for c' i
    using that other [of "(c', i)"] c inv by (cases "c' = src_cluster ?s") (auto simp: slot_def discovery_inv_def)
  moreover have "src_cluster t \<in> C \<and> bt_ok es \<and>
      (\<forall>i e. map_of es i = Some e \<longrightarrow> de_endpoint_id e = i \<and> valid_endpoint e)"
    if "map_of (dr_active_endpoints_by_source d') t = Some es" for t es
  proof (cases "t = ?s")
    case True
    with that have "es = map (\<lambda>(i, e, _). (i, e)) n" by (simp add: d'(1) map_of_bt_insert [OF act])
    with True c n show ?thesis by (auto simp: map_of_defs bt_ok_defs)
  next
    case False
    with that have "map_of (dr_active_endpoints_by_source d) t = Some es"
      by (simp add: d'(1) map_of_bt_insert [OF act])
    with inv show ?thesis unfolding discovery_inv_def by blast
  qed
  ultimately have "discovery_inv C d' (rg_registry p2)"
    unfolding discovery_inv_def d'(2) using wf bt_insert_ok [OF act] bt_insert_ok [OF gens] d'(1,3) by auto
  then show ?thesis using res d'(1,3) by blast
qed

section \<open>The end of a drain window\<close>

lemma discovery_inv_slot:
  "discovery_inv C d r \<Longrightarrow> c \<in> C \<Longrightarrow>
     slot_ok (advertised d (c, i)) (bt_has (c, i) (dr_draining_deadlines d)) (entry_of r (c, i))"
  by (simp add: discovery_inv_def)

lemma discovery_inv_deadline:
  assumes "discovery_inv C d r" and "bt_has k (dr_draining_deadlines d)"
  shows "\<exists>ep. entry_of r k = Some ep \<and> fst k \<in> C \<and> advertised d k = {}"
proof -
  obtain c i where k: "k = (c, i)" by (cases k)
  have "c \<in> C" using assms unfolding k discovery_inv_def by blast
  moreover have "slot_ok (advertised d (c, i)) True (entry_of r (c, i))"
    using discovery_inv_slot [OF assms(1) \<open>c \<in> C\<close>, of i] assms(2) k by simp
  ultimately show ?thesis unfolding k by (auto simp: slot_ok_def split: option.splits if_splits)
qed

lemma expire_endpoint_ok:
  assumes inv: "discovery_inv C d r" and k: "bt_has k (dr_draining_deadlines d)"
  shows "\<exists>d' r' o'. expire_endpoint k (d, r, oc) = (Ok (), d', r', o') \<and> discovery_inv C d' r' \<and>
    dr_active_endpoints_by_source d' = dr_active_endpoints_by_source d \<and>
    dr_applied_generations d' = dr_applied_generations d \<and>
    dr_draining_deadlines d' = bt_remove k (dr_draining_deadlines d) \<and>
    only_entry k r r' \<and> entry_of r' k = None \<and> do_removed_after_drain o' = do_removed_after_drain oc + 1"
proof -
  obtain c i where ci: "k = (c, i)" by (cases k)
  obtain ep where ep: "entry_of r k = Some ep" "c \<in> C" "advertised d k = {}"
    using discovery_inv_deadline [OF inv k] ci by auto
  have wf: "uh_wf r" and bt: "bt_ok (dr_draining_deadlines d)" using inv by (auto simp: discovery_inv_def)
  obtain r' where r': "uh_remove_endpoint c i r = (Ok ep, r')" "only_entry k r r'" "entry_of r' k = None"
    using uh_remove_ok [OF wf, of c i ep] ep(1) ci by auto
  obtain l o1 where l: "record_endpoint_drained k (dr_endpoint_lifecycle d, oc) = (l, o1)" by fastforce
  obtain l2 o2 where l2: "record_endpoint_removed k (l, o1) = (l2, o2)" by fastforce
  have o2: "do_removed_after_drain o2 = do_removed_after_drain oc"
    using l l2 by (auto simp: record_endpoint_drained_def record_endpoint_removed_def split: option.splits sum.splits prod.splits)
  define d' where "d' = emit_discovery_event ''drained'' (fst k)
      (''endpoint '' @ snd k @ '' fully removed after drain window'')
      (d\<lparr>dr_draining_deadlines := bt_remove k (dr_draining_deadlines d), dr_endpoint_lifecycle := l2\<rparr>)"
  have res: "expire_endpoint k (d, r, oc) =
      (Ok (), d', r', o2\<lparr>do_removed_after_drain := do_removed_after_drain o2 + 1\<rparr>)"
    using l l2 r'(1) ci by (simp add: expire_endpoint_def ignore_missing_endpoint_def d'_def Let_def)
  have d': "dr_active_endpoints_by_source d' = dr_active_endpoints_by_source d"
    "dr_applied_generations d' = dr_applied_generations d"
    "dr_draining_deadlines d' = bt_remove k (dr_draining_deadlines d)"
    by (simp_all add: d'_def)
  have adv: "advertised d' = advertised d" by (rule ext) (simp add: advertisers_def d')
  have has: "bt_has k' (dr_draining_deadlines d') \<longleftrightarrow> k' \<noteq> k \<and> bt_has k' (dr_draining_deadlines d)" for k'
    by (simp add: d' bt_has_def map_of_bt_remove)
  have "discovery_inv C d' r'"
    unfolding discovery_inv_def d'(1,2) adv
  proof (intro conjI ballI allI)
    fix c' i' assume "c' \<in> C"
    then have "slot_ok (advertised d (c', i')) (bt_has (c', i') (dr_draining_deadlines d)) (entry_of r (c', i'))"
      using inv unfolding discovery_inv_def by blast
    then show "slot_ok (advertised d (c', i')) (bt_has (c', i') (dr_draining_deadlines d')) (entry_of r' (c', i'))"
      using r'(2,3) ep(3) unfolding has by (cases "(c', i') = k") (auto simp: only_entry_def slot_ok_def)
  next
    show "uh_wf r'" using r'(2) by (simp add: only_entry_def)
    show "bt_ok (dr_draining_deadlines d')" using bt by (simp add: d' bt_remove_ok)
    fix c' i' show "bt_has (c', i') (dr_draining_deadlines d') \<longrightarrow> c' \<in> C"
      using inv unfolding has discovery_inv_def by blast
  qed (use inv r'(2) in \<open>auto simp: discovery_inv_def only_entry_def\<close>)
  with res d' r'(2,3) o2 show ?thesis by auto
qed

lemma expire_endpoints_ok:
  assumes "discovery_inv C d r" and "distinct ks" and "\<forall>k\<in>set ks. bt_has k (dr_draining_deadlines d)"
  shows "\<exists>d' r' o'. expire_endpoints ks (d, r, oc) = (Ok (), d', r', o') \<and> discovery_inv C d' r' \<and>
    dr_active_endpoints_by_source d' = dr_active_endpoints_by_source d \<and>
    dr_applied_generations d' = dr_applied_generations d \<and>
    (\<forall>k. map_of (dr_draining_deadlines d') k =
       (if k \<in> set ks then None else map_of (dr_draining_deadlines d) k) \<and>
       entry_of r' k = (if k \<in> set ks then None else entry_of r k)) \<and>
    do_removed_after_drain o' = do_removed_after_drain oc + length ks"
  using assms
proof (induction ks arbitrary: d r oc)
  case (Cons k ks)
  have bt: "bt_ok (dr_draining_deadlines d)" using Cons.prems(1) by (simp add: discovery_inv_def)
  from expire_endpoint_ok [OF Cons.prems(1), of k oc] Cons.prems(3) obtain d1 r1 o1 where
    e: "expire_endpoint k (d, r, oc) = (Ok (), d1, r1, o1)" and inv: "discovery_inv C d1 r1" and
    f: "dr_active_endpoints_by_source d1 = dr_active_endpoints_by_source d"
      "dr_applied_generations d1 = dr_applied_generations d"
      "dr_draining_deadlines d1 = bt_remove k (dr_draining_deadlines d)"
      "only_entry k r r1" "entry_of r1 k = None" "do_removed_after_drain o1 = do_removed_after_drain oc + 1"
    by auto
  have "\<forall>k'\<in>set ks. bt_has k' (dr_draining_deadlines d1)"
    using Cons.prems(2,3) by (auto simp: f(3) bt_has_def map_of_bt_remove)
  from Cons.IH [OF inv _ this, of o1] Cons.prems(2) obtain d2 r2 o2 where
    g: "expire_endpoints ks (d1, r1, o1) = (Ok (), d2, r2, o2)" "discovery_inv C d2 r2"
      "dr_active_endpoints_by_source d2 = dr_active_endpoints_by_source d1"
      "dr_applied_generations d2 = dr_applied_generations d1"
      "\<forall>k. map_of (dr_draining_deadlines d2) k =
         (if k \<in> set ks then None else map_of (dr_draining_deadlines d1) k) \<and>
         entry_of r2 k = (if k \<in> set ks then None else entry_of r1 k)"
      "do_removed_after_drain o2 = do_removed_after_drain o1 + length ks"
    by auto
  have "map_of (dr_draining_deadlines d2) k' =
       (if k' \<in> set (k # ks) then None else map_of (dr_draining_deadlines d) k') \<and>
      entry_of r2 k' = (if k' \<in> set (k # ks) then None else entry_of r k')" for k'
    using spec [OF g(5), of k'] f(3,4,5) by (auto simp: map_of_bt_remove only_entry_def)
  then show ?case using e g(1-4,6) f(1,2,6) by simp
qed simp

lemma discovery_advance_ok:
  assumes inv: "discovery_inv C d r"
  shows "\<exists>oc d' r'. discovery_advance_time t d r = (Ok oc, d', r') \<and> discovery_inv C d' r' \<and>
    dr_active_endpoints_by_source d' = dr_active_endpoints_by_source d \<and>
    dr_applied_generations d' = dr_applied_generations d \<and>
    (\<forall>k. case map_of (dr_draining_deadlines d) k of
       None \<Rightarrow> map_of (dr_draining_deadlines d') k = None \<and> entry_of r' k = entry_of r k
     | Some deadline \<Rightarrow>
         if deadline \<le> dur_saturating_add (dr_now d) t
         then map_of (dr_draining_deadlines d') k = None \<and> entry_of r' k = None
         else map_of (dr_draining_deadlines d') k = Some deadline \<and> entry_of r' k = entry_of r k)"
proof -
  let ?now = "dur_saturating_add (dr_now d) t"
  let ?d = "d\<lparr>dr_now := ?now\<rparr>"
  let ?ks = "map fst (filter (\<lambda>(_, deadline). deadline \<le> ?now) (dr_draining_deadlines d))"
  have bt: "bt_ok (dr_draining_deadlines d)" using inv by (simp add: discovery_inv_def)
  have i: "discovery_inv C ?d r" using inv discovery_inv_cong [of ?d d C r] by simp
  have ks: "k \<in> set ?ks \<longleftrightarrow> (\<exists>t. map_of (dr_draining_deadlines d) k = Some t \<and> t \<le> ?now)" for k
    unfolding bt_get_mem [OF bt] by force
  have "\<forall>k\<in>set ?ks. bt_has k (dr_draining_deadlines ?d)"
  proof
    fix k assume "k \<in> set ?ks"
    then show "bt_has k (dr_draining_deadlines ?d)" unfolding ks by (auto simp: bt_has_def)
  qed
  from expire_endpoints_ok [OF i distinct_map_filter [OF bt_ok_distinct [OF bt]] this, of outcome_default]
  obtain d' r' o' where r: "expire_endpoints ?ks (?d, r, outcome_default) = (Ok (), d', r', o')"
    "discovery_inv C d' r'" "dr_active_endpoints_by_source d' = dr_active_endpoints_by_source d"
    "dr_applied_generations d' = dr_applied_generations d" and
    pt: "\<forall>k. map_of (dr_draining_deadlines d') k =
       (if k \<in> set ?ks then None else map_of (dr_draining_deadlines ?d) k) \<and>
       entry_of r' k = (if k \<in> set ?ks then None else entry_of r k)"
    by auto
  have "discovery_advance_time t d r = (Ok o', d', r')"
    unfolding discovery_advance_time_def Let_def using r(1) by simp
  moreover have "case map_of (dr_draining_deadlines d) k of
       None \<Rightarrow> map_of (dr_draining_deadlines d') k = None \<and> entry_of r' k = entry_of r k
     | Some deadline \<Rightarrow>
         if deadline \<le> ?now
         then map_of (dr_draining_deadlines d') k = None \<and> entry_of r' k = None
         else map_of (dr_draining_deadlines d') k = Some deadline \<and> entry_of r' k = entry_of r k" for k
    using spec [OF pt, of k] unfolding ks by (auto split: option.split)
  ultimately show ?thesis using r(2-4) by blast
qed

section \<open>Runs of the reconciler\<close>

datatype discovery_event = SnapshotReceived discovery_snapshot | TimeAdvanced duration

fun discovery_step ::
  "discovery_reconciler \<times> upstream_health_registry \<Rightarrow> discovery_event \<Rightarrow>
     discovery_reconciler \<times> upstream_health_registry" where
  "discovery_step (d, r) (SnapshotReceived s) = snd (reconcile_snapshot s d r)"
| "discovery_step (d, r) (TimeAdvanced t) = snd (discovery_advance_time t d r)"

fun discovery_event_typed :: "cluster_name set \<Rightarrow> discovery_event \<Rightarrow> bool" where
  "discovery_event_typed C (SnapshotReceived s) \<longleftrightarrow>
     src_cluster (sn_source s) \<in> C \<and> (\<forall>e\<in>set (sn_endpoints s). de_weight e < 2 ^ 16)"
| "discovery_event_typed C (TimeAdvanced t) \<longleftrightarrow> True"

text \<open>
  What the sources said: the generation and the endpoints of the last snapshot of each
  source that was accepted. A snapshot is accepted when all its endpoints are valid and its
  generation is not older than the one applied before; where an id occurs twice, the last
  definition counts.
\<close>

type_synonym discovery_view =
  "(discovery_source_id \<rightharpoonup> nat) \<times> (discovery_source_id \<Rightarrow> endpoint_id \<rightharpoonup> discovery_endpoint)"

definition endpoints_valid :: "discovery_snapshot \<Rightarrow> bool" where
  "endpoints_valid s \<longleftrightarrow> (\<forall>e\<in>set (sn_endpoints s). endpoint_validate (ready_endpoint e) = Ok ())"

definition generation_stale :: "discovery_snapshot \<Rightarrow> (discovery_source_id \<rightharpoonup> nat) \<Rightarrow> bool" where
  "generation_stale s g \<longleftrightarrow> has_monotonic_generations (src_provider (sn_source s)) \<and>
     (case g (sn_source s) of None \<Rightarrow> False | Some applied \<Rightarrow> sn_generation s < applied)"

fun view_step :: "discovery_view \<Rightarrow> discovery_event \<Rightarrow> discovery_view" where
  "view_step (g, v) (SnapshotReceived s) =
     (if endpoints_valid s \<and> \<not> generation_stale s g
      then (g(sn_source s \<mapsto> sn_generation s),
            v(sn_source s := map_of (rev (map (\<lambda>e. (de_endpoint_id e, e)) (sn_endpoints s)))))
      else (g, v))"
| "view_step (g, v) (TimeAdvanced t) = (g, v)"

definition view_of :: "discovery_reconciler \<Rightarrow> discovery_view" where
  "view_of d = (map_of (dr_applied_generations d),
     \<lambda>s. map_of (bt_get_or s [] (dr_active_endpoints_by_source d)))"

lemma view_of_cong:
  "dr_active_endpoints_by_source d' = dr_active_endpoints_by_source d \<Longrightarrow>
   dr_applied_generations d' = dr_applied_generations d \<Longrightarrow> view_of d' = view_of d"
  by (simp add: view_of_def)

lemma stale_generation_iff: "stale_generation s d \<noteq> None \<longleftrightarrow> generation_stale s (fst (view_of d))"
  by (simp add: stale_generation_def generation_stale_def view_of_def split: option.split)

lemma validate_endpoints_valid: "is_ok (validate_endpoints (sn_endpoints s) []) \<longleftrightarrow> endpoints_valid s"
  by (simp add: validate_endpoints_iff endpoints_valid_def)

text \<open>The three ways a snapshot can go.\<close>

lemma reconcile_cases:
  assumes inv: "discovery_inv C d r" and typed: "discovery_event_typed C (SnapshotReceived s)"
  shows "\<exists>res d' r'. reconcile_snapshot s d r = (res, d', r') \<and> discovery_inv C d' r' \<and>
    view_of d' = view_step (view_of d) (SnapshotReceived s) \<and>
    (if generation_stale s (fst (view_of d))
     then res = Ok (outcome_default\<lparr>do_stale_generation_rejected := True\<rparr>) \<and> r' = r
     else if endpoints_valid s then is_ok res
     else \<not> is_ok res \<and> d' = d \<and> r' = r)"
proof (cases "stale_generation s d")
  case (Some applied)
  then have st: "generation_stale s (fst (view_of d))" using stale_generation_iff [of s d] by simp
  obtain t where t: "reconcile_snapshot s d r =
      (Ok (outcome_default\<lparr>do_stale_generation_rejected := True\<rparr>),
       emit_discovery_event ''rejected'' (src_cluster (sn_source s)) t d, r)"
    using Some by (simp add: reconcile_snapshot_def Let_def)
  let ?d = "emit_discovery_event ''rejected'' (src_cluster (sn_source s)) t d"
  have "discovery_inv C ?d r" using inv discovery_inv_cong [of ?d d C r] by simp
  moreover have "view_of ?d = view_of d" by (rule view_of_cong) simp_all
  ultimately show ?thesis using t st by (cases "view_of d") auto
next
  case fresh: None
  then have st: "\<not> generation_stale s (fst (view_of d))" using stale_generation_iff [of s d] by simp
  show ?thesis
  proof (cases "validate_endpoints (sn_endpoints s) []")
    case (Inl err)
    then have "\<not> endpoints_valid s" using validate_endpoints_valid [of s] by simp
    with Inl fresh inv st show ?thesis by (cases "view_of d") (simp add: reconcile_snapshot_def Let_def)
  next
    case (Inr n)
    then have v: "endpoints_valid s" using validate_endpoints_valid [of s] by simp
    have "\<forall>e\<in>set (sn_endpoints s). de_weight e < 2 ^ 16" "src_cluster (sn_source s) \<in> C" using typed by simp_all
    from reconcile_ok [OF inv this(2) fresh this(1) Inr] obtain oc d' r' where
      r: "reconcile_snapshot s d r = (Ok oc, d', r')" "discovery_inv C d' r'" and
      f: "dr_active_endpoints_by_source d' =
        bt_insert (sn_source s) (map (\<lambda>(i, e, _). (i, e)) n) (dr_active_endpoints_by_source d)"
        "dr_applied_generations d' = bt_insert (sn_source s) (sn_generation s) (dr_applied_generations d)"
      by blast
    have bt: "bt_ok (dr_active_endpoints_by_source d)" "bt_ok (dr_applied_generations d)"
      using inv by (simp_all add: discovery_inv_def)
    have "map_of (map (\<lambda>(i, e, _). (i, e)) n) = map_of (rev (map (\<lambda>e. (de_endpoint_id e, e)) (sn_endpoints s)))"
      using validate_endpoints_lookup [OF Inr] by (intro ext) (simp add: map_of_defs split: option.split)
    then have "view_of d' = view_step (view_of d) (SnapshotReceived s)"
      using st v by (auto simp: view_of_def f bt_get_or_def map_of_bt_insert bt)
    then show ?thesis using r st v by auto
  qed
qed

lemma discovery_step_ok:
  assumes "discovery_event_typed C e" and "discovery_inv C (fst dr) (snd dr)"
  shows "discovery_inv C (fst (discovery_step dr e)) (snd (discovery_step dr e)) \<and>
    view_of (fst (discovery_step dr e)) = view_step (view_of (fst dr)) e"
proof (cases e)
  case (SnapshotReceived s)
  with reconcile_cases [of C "fst dr" "snd dr" s] assms show ?thesis by (cases dr) auto
next
  case (TimeAdvanced t)
  from discovery_advance_ok [OF assms(2), of t] obtain oc d' r' where
    "discovery_advance_time t (fst dr) (snd dr) = (Ok oc, d', r')" "discovery_inv C d' r'"
    "dr_active_endpoints_by_source d' = dr_active_endpoints_by_source (fst dr)"
    "dr_applied_generations d' = dr_applied_generations (fst dr)" by blast
  with TimeAdvanced show ?thesis
    by (cases dr; cases "view_of (fst dr)") (simp add: view_of_cong [of d' "fst dr"])
qed

text \<open>The clusters \<open>C\<close> exist and are empty: their endpoints are left to discovery.\<close>

definition discovery_ready :: "cluster_name set \<Rightarrow> upstream_health_registry \<Rightarrow> bool" where
  "discovery_ready C r \<longleftrightarrow> uh_wf r \<and> (\<forall>c\<in>C. reg_view (uh_registry r) c = Some Map.empty)"

lemma discovery_start: "discovery_ready C r \<Longrightarrow> discovery_inv C (reconciler_new grace) r"
  by (auto simp: discovery_ready_def discovery_inv_def reconciler_new_def has_cluster_def
      reg_endpoint_def slot_ok_def advertisers_def bt_has_def)

interpretation reconciler: invariant_machine discovery_step "discovery_event_typed C"
  "\<lambda>dr. discovery_inv C (fst dr) (snd dr)" for C
  by unfold_locales (simp add: discovery_step_ok)

definition discovery_run ::
  "duration \<Rightarrow> upstream_health_registry \<Rightarrow> discovery_event list \<Rightarrow> discovery_reconciler \<times> upstream_health_registry" where
  "discovery_run grace r es = foldl discovery_step (reconciler_new grace, r) es"

definition latest_view :: "discovery_event list \<Rightarrow> discovery_view" where
  "latest_view es = foldl view_step (Map.empty, \<lambda>_. Map.empty) es"

lemma discovery_run_inv:
  assumes "discovery_ready C r0" and "list_all (discovery_event_typed C) es"
    and "discovery_run grace r0 es = (d, r)"
  shows "discovery_inv C d r"
  using reconciler.run_inv [OF assms(2), of "(reconciler_new grace, r0)"] discovery_start [OF assms(1)] assms(3)
  by (simp add: discovery_run_def)

lemma view_of_run:
  "discovery_inv C (fst dr) (snd dr) \<Longrightarrow> list_all (discovery_event_typed C) es \<Longrightarrow>
   view_of (fst (foldl discovery_step dr es)) = foldl view_step (view_of (fst dr)) es"
proof (induction es arbitrary: dr)
  case (Cons e es)
  have "discovery_event_typed C e" using Cons.prems(2) by simp
  note step = discovery_step_ok [OF this Cons.prems(1)]
  from Cons.IH [OF conjunct1 [OF step]] Cons.prems(2) show ?case by (simp add: conjunct2 [OF step])
qed simp

lemma discovery_run_view:
  assumes "discovery_ready C r0" and "list_all (discovery_event_typed C) es"
    and "discovery_run grace r0 es = (d, r)"
  shows "view_of d = latest_view es"
proof -
  have "view_of (reconciler_new grace) = (Map.empty, \<lambda>_. Map.empty)"
    by (simp add: view_of_def reconciler_new_def bt_get_or_def)
  with view_of_run [of C "(reconciler_new grace, r0)" es] discovery_start [OF assms(1)] assms(2,3)
  show ?thesis by (simp add: discovery_run_def latest_view_def)
qed

lemma advertised_view: "e \<in> advertised d (c, i) \<longleftrightarrow> (\<exists>s. src_cluster s = c \<and> snd (view_of d) s i = Some e)"
  by (auto simp: advertisers_def view_of_def bt_get_or_def split: option.splits)

text \<open>
  C3. The registry follows the discovery sources. Start a reconciler on clusters that exist
  and are empty and let it receive any sequence of snapshots, stale and invalid ones
  included, and clock advances. Then an endpoint id that some source of the cluster lists in
  its last accepted snapshot is in the registry, ready, with the definition of one of these
  sources. An id that no source lists any more is either absent or draining with a recorded
  deadline. Nothing else is in the cluster.
\<close>

theorem discovery_registry_follows_sources:
  assumes "discovery_ready C r0" and "list_all (discovery_event_typed C) es"
    and "discovery_run grace r0 es = (d, r)" and "latest_view es = (g, v)" and "c \<in> C"
  shows "case reg_endpoint (uh_registry r) (c, i) of
      None \<Rightarrow> (\<nexists>s. src_cluster s = c \<and> v s i \<noteq> None) \<and> \<not> bt_has (c, i) (dr_draining_deadlines d)
    | Some ep \<Rightarrow>
        if \<exists>s. src_cluster s = c \<and> v s i \<noteq> None
        then \<exists>s e. src_cluster s = c \<and> v s i = Some e \<and> ep = ready_endpoint e
        else ep_state ep = StateDraining \<and> bt_has (c, i) (dr_draining_deadlines d)"
proof -
  note inv = discovery_run_inv [OF assms(1-3)]
  have v: "v = snd (view_of d)" using discovery_run_view [OF assms(1-3)] assms(4) by simp
  have ne: "(\<exists>s. src_cluster s = c \<and> v s i \<noteq> None) \<longleftrightarrow> advertised d (c, i) \<noteq> {}"
    using advertised_view [of _ d c i] unfolding v by auto
  have "ep \<in> ready_endpoint ` advertised d (c, i) \<longleftrightarrow>
      (\<exists>s e. src_cluster s = c \<and> v s i = Some e \<and> ep = ready_endpoint e)" for ep
    unfolding v image_iff Bex_def advertised_view by blast
  then show ?thesis
    using discovery_inv_slot [OF inv assms(5), of i] unfolding ne
    by (auto simp: slot_ok_def split: option.splits if_splits)
qed


definition sample_discovery_endpoint :: "string \<Rightarrow> nat \<Rightarrow> discovery_endpoint" where
  "sample_discovery_endpoint i w =
     \<lparr>de_endpoint_id = i, de_address = \<lparr>sa_ip = V4 0x0a000001, sa_port = 80\<rparr>, de_zone = None,
      de_locality = None, de_weight = w\<rparr>"

definition sample_snapshot :: "string \<Rightarrow> nat \<Rightarrow> discovery_endpoint list \<Rightarrow> discovery_snapshot" where
  "sample_snapshot n g es =
     \<lparr>sn_source = (DnsSrv, n, ''c''), sn_generation = g, sn_valid_for = secs 30, sn_endpoints = es\<rparr>"

definition empty_cluster_registry :: upstream_health_registry where
  "empty_cluster_registry = health_run health_policy_default [HInsertCluster ''c'' []]"

definition sample_discovery_events :: "discovery_event list" where
  "sample_discovery_events =
     [SnapshotReceived (sample_snapshot ''x'' 1 [sample_discovery_endpoint ''a'' 1, sample_discovery_endpoint ''b'' 1]),
      SnapshotReceived (sample_snapshot ''y'' 1 [sample_discovery_endpoint ''a'' 1]),
      SnapshotReceived (sample_snapshot ''x'' 2 []),
      SnapshotReceived (sample_snapshot ''x'' 1 [sample_discovery_endpoint ''z'' 1])]"

lemma empty_cluster_ready: "discovery_ready {''c''} empty_cluster_registry"
proof -
  have "uh_wf empty_cluster_registry"
    unfolding empty_cluster_registry_def
    by (intro health_run_wf) (simp_all add: health_policy_ok_def health_policy_default_def)
  moreover have "map_option cl_endpoints (map_of (er_clusters (uh_registry empty_cluster_registry)) ''c'') = Some []"
    by code_simp
  then have "reg_view (uh_registry empty_cluster_registry) ''c'' = Some Map.empty"
    by (auto simp: reg_view_def cluster_endpoint_def fun_eq_iff)
  ultimately show ?thesis by (simp add: discovery_ready_def)
qed

lemma sample_events_typed: "list_all (discovery_event_typed {''c''}) sample_discovery_events"
  by (simp add: sample_discovery_events_def sample_snapshot_def sample_discovery_endpoint_def)

lemma sample_events_result:
  "map_option ep_state (reg_endpoint (uh_registry (snd (discovery_run (secs 10) empty_cluster_registry
     sample_discovery_events))) (''c'', ''a'')) = Some StateReady"
  "map_option ep_state (reg_endpoint (uh_registry (snd (discovery_run (secs 10) empty_cluster_registry
     sample_discovery_events))) (''c'', ''b'')) = Some StateDraining"
  by code_simp+

theorem discovery_registry_follows_sources_witness:
  "\<exists>s e. src_cluster s = ''c'' \<and> snd (latest_view sample_discovery_events) s ''a'' = Some e \<and>
     reg_endpoint (uh_registry (snd (discovery_run (secs 10) empty_cluster_registry
       sample_discovery_events))) (''c'', ''a'') = Some (ready_endpoint e)"
proof -
  obtain d r where dr: "discovery_run (secs 10) empty_cluster_registry sample_discovery_events = (d, r)" by fastforce
  obtain g v where gv: "latest_view sample_discovery_events = (g, v)" by fastforce
  from sample_events_result(1) obtain ep where
    ep: "reg_endpoint (uh_registry r) (''c'', ''a'') = Some ep" "ep_state ep = StateReady"
    unfolding dr by auto
  from discovery_registry_follows_sources [OF empty_cluster_ready sample_events_typed dr gv, of "''c''" "''a''"] ep
  show ?thesis unfolding dr gv by (auto split: if_splits)
qed

text \<open>
  C12. A snapshot is applied whole or not at all. At every point of a run as above a snapshot
  of an older generation leaves the registry as it is and is reported as stale, a snapshot
  with an invalid endpoint is refused and changes neither the registry nor the reconciler,
  and every other snapshot succeeds: no registry operation on the way fails.
\<close>

theorem discovery_snapshot_all_or_nothing:
  assumes "discovery_ready C r0" and "list_all (discovery_event_typed C) es"
    and "discovery_run grace r0 es = (d, r)" and "discovery_event_typed C (SnapshotReceived s)"
  shows "case reconcile_snapshot s d r of
      (Inl _, d', r') \<Rightarrow> \<not> endpoints_valid s \<and> d' = d \<and> r' = r
    | (Inr outcome, d', r') \<Rightarrow>
        if generation_stale s (fst (latest_view es))
        then do_stale_generation_rejected outcome \<and> r' = r
        else endpoints_valid s"
  using reconcile_cases [OF discovery_run_inv [OF assms(1-3)] assms(4)]
  unfolding discovery_run_view [OF assms(1-3)] by (auto split: if_splits sum.splits)

lemma sample_snapshot_facts:
  "discovery_event_typed {''c''} (SnapshotReceived (sample_snapshot ''x'' 9 [sample_discovery_endpoint ''a'' 0]))"
  "\<not> is_ok (fst (reconcile_snapshot (sample_snapshot ''x'' 9 [sample_discovery_endpoint ''a'' 0])
     (fst (discovery_run (secs 10) empty_cluster_registry sample_discovery_events))
     (snd (discovery_run (secs 10) empty_cluster_registry sample_discovery_events))))"
  by (simp add: sample_snapshot_def sample_discovery_endpoint_def) code_simp

theorem discovery_snapshot_all_or_nothing_witness:
  "snd (reconcile_snapshot (sample_snapshot ''x'' 9 [sample_discovery_endpoint ''a'' 0])
      (fst (discovery_run (secs 10) empty_cluster_registry sample_discovery_events))
      (snd (discovery_run (secs 10) empty_cluster_registry sample_discovery_events)))
   = discovery_run (secs 10) empty_cluster_registry sample_discovery_events"
proof -
  obtain d r where dr: "discovery_run (secs 10) empty_cluster_registry sample_discovery_events = (d, r)" by fastforce
  from discovery_snapshot_all_or_nothing [OF empty_cluster_ready sample_events_typed dr sample_snapshot_facts(1)]
    sample_snapshot_facts(2) show ?thesis
    unfolding dr by (auto split: prod.splits sum.splits)
qed

text \<open>
  C34. A drain window ends exactly at its deadline. When the clock of a reconciler moves on,
  a draining endpoint whose deadline is reached is removed from the registry and its
  deadline is forgotten; before the deadline the endpoint stays, and no other endpoint of
  the registry is touched. The call succeeds.
\<close>

theorem discovery_drain_window_exact:
  assumes "discovery_ready C r0" and "list_all (discovery_event_typed C) es"
    and "discovery_run grace r0 es = (d, r)" and "discovery_advance_time t d r = (res, d', r')"
  shows "is_ok res \<and>
    (case map_of (dr_draining_deadlines d) k of
       None \<Rightarrow> map_of (dr_draining_deadlines d') k = None \<and>
         reg_endpoint (uh_registry r') k = reg_endpoint (uh_registry r) k
     | Some deadline \<Rightarrow>
         if deadline \<le> dur_saturating_add (dr_now d) t
         then map_of (dr_draining_deadlines d') k = None \<and> reg_endpoint (uh_registry r') k = None
         else map_of (dr_draining_deadlines d') k = Some deadline \<and>
           reg_endpoint (uh_registry r') k = reg_endpoint (uh_registry r) k)"
  using discovery_advance_ok [OF discovery_run_inv [OF assms(1-3)], of t] assms(4) by auto

lemma sample_deadline:
  "map_of (dr_draining_deadlines (fst (discovery_run (secs 10) empty_cluster_registry
     sample_discovery_events))) (''c'', ''b'') = Some (secs 10)"
  "dr_now (fst (discovery_run (secs 10) empty_cluster_registry sample_discovery_events)) = 0"
  "dur_saturating_add 0 (secs 10) = secs 10"
  by code_simp+

theorem discovery_drain_window_exact_witness:
  "reg_endpoint (uh_registry (snd (discovery_run (secs 10) empty_cluster_registry
     sample_discovery_events))) (''c'', ''b'') \<noteq> None \<and>
   reg_endpoint (uh_registry (snd (snd (discovery_advance_time (secs 10)
     (fst (discovery_run (secs 10) empty_cluster_registry sample_discovery_events))
     (snd (discovery_run (secs 10) empty_cluster_registry sample_discovery_events)))))) (''c'', ''b'') = None"
proof -
  obtain d r where dr: "discovery_run (secs 10) empty_cluster_registry sample_discovery_events = (d, r)" by fastforce
  obtain res d' r' where adv: "discovery_advance_time (secs 10) d r = (res, d', r')"
    by (cases "discovery_advance_time (secs 10) d r")
  from discovery_drain_window_exact [OF empty_cluster_ready sample_events_typed dr adv, of "(''c'', ''b'')"]
    sample_deadline sample_events_result(2) show ?thesis
    unfolding dr by (auto simp: adv)
qed

section \<open>An endpoint id that is configured statically\<close>

definition static_registry :: upstream_health_registry where
  "static_registry = health_run health_policy_default [HInsertCluster ''c'' [sample_endpoint ''b'' 1]]"

definition first_attempt ::
  "(discovery_outcome, discovery_reconcile_error) result \<times> discovery_reconciler \<times> upstream_health_registry" where
  "first_attempt = reconcile_snapshot
     (sample_snapshot ''x'' 1 [sample_discovery_endpoint ''a'' 1, sample_discovery_endpoint ''b'' 1])
     (reconciler_new (secs 10)) static_registry"

definition second_attempt ::
  "(discovery_outcome, discovery_reconcile_error) result \<times> discovery_reconciler \<times> upstream_health_registry" where
  "second_attempt = reconcile_snapshot (sample_snapshot ''x'' 2 [sample_discovery_endpoint ''a'' 1])
     (fst (snd first_attempt)) (snd (snd first_attempt))"

text \<open>
  On a cluster that discovery does not own the promise of the previous claims fails. The
  cluster has a statically configured endpoint \<open>b\<close>. A snapshot with \<open>a\<close> and \<open>b\<close> is refused,
  but \<open>a\<close> is left in the registry, and the reconciler does not know it. The next snapshot,
  which lists only \<open>a\<close>, is then refused as a duplicate.
\<close>

lemma discovery_half_applied_snapshot:
  "fst first_attempt = Err (ReconcileHealthRegistry (HealthRegistry (DuplicateEndpoint ''c'' ''b''))) \<and>
   reg_endpoint (uh_registry (snd (snd first_attempt))) (''c'', ''a'') \<noteq> None \<and>
   dr_active_endpoints_by_source (fst (snd first_attempt)) = [] \<and>
   fst second_attempt = Err (ReconcileHealthRegistry (HealthRegistry (DuplicateEndpoint ''c'' ''a'')))"
  by code_simp

section \<open>Refresh delays\<close>

text \<open>
  The jitter takes off less than a fifth of the validity, or a millisecond, and never
  divides by zero below \<open>2 ^ 64\<close> milliseconds of validity.
\<close>

lemma jittered_refresh_delay_window:
  assumes "valid_for < 2 ^ 64 * 1000000"
  shows "\<exists>delay. jittered_refresh_delay hash valid_for attempt seed = Some delay \<and>
    delay \<le> max valid_for (secs 1) \<and> (secs 1 \<le> valid_for \<longrightarrow> valid_for - valid_for div 5 < delay)"
proof -
  define base where "base = (if valid_for = 0 then secs 1 else valid_for)"
  define w where "w = max (as_millis base div 5) 1"
  have "as_millis base < 2 ^ 64"
    using assms unfolding as_millis_def base_def by (auto simp: secs_def less_mult_imp_div_less)
  then have "w < 2 ^ 64" unfolding w_def by (simp add: max_def) linarith
  then have w: "cast_to 64 w = w" "0 < w" by (simp_all add: cast_to_def w_def)
  let ?j = "hash seed attempt mod w"
  have "?j < w" using w(2) by simp
  then have j: "?j * 1000000 + 1000000 \<le> w * 1000000" by linarith
  have "valid_for - valid_for div 5 < base - ?j * 1000000" if "secs 1 \<le> valid_for"
  proof -
    have base: "base = valid_for" using that by (auto simp: base_def secs_def)
    have "w = as_millis base div 5" using that unfolding base w_def as_millis_def secs_def by linarith
    then have "w * 1000000 \<le> valid_for div 5" unfolding base as_millis_def by linarith
    with j show ?thesis unfolding base using that by (simp add: secs_def)
  qed
  moreover have "base - ?j * 1000000 \<le> max valid_for (secs 1)" by (auto simp: base_def)
  moreover have "jittered_refresh_delay hash valid_for attempt seed = Some (base - ?j * 1000000)"
    using w unfolding jittered_refresh_delay_def base_def [symmetric] Let_def w_def [symmetric] by simp
  ultimately show ?thesis by blast
qed

lemma failure_backoff_delay_bounds:
  "n \<le> m \<Longrightarrow> failure_backoff_delay n \<le> failure_backoff_delay m" "failure_backoff_delay n \<le> secs 64"
proof -
  show "failure_backoff_delay n \<le> failure_backoff_delay m" if "n \<le> m"
    using that by (auto simp: failure_backoff_delay_def secs_def intro!: power_increasing)
  have "(2::nat) ^ min n 6 \<le> 2 ^ 6" by (intro power_increasing) simp_all
  then show "failure_backoff_delay n \<le> secs 64" by (simp add: failure_backoff_delay_def secs_def)
qed

end
