(* ===== verification/Text_Ops.thy ===== *)
theory Text_Ops
  imports Ip_Text
begin

text \<open>
  Operations of the Rust standard library on strings that the protocol code uses. A string is
  the list of its UTF-8 bytes. Searching for an ASCII character or string, splitting at one,
  and changing the case of ASCII letters work on the bytes, since the bytes of a character
  outside ASCII are all above 127.
\<close>

section \<open>Characters\<close>

definition byte :: "char \<Rightarrow> nat" where
  "byte c = of_char c"

definition is_ascii_digit :: "char \<Rightarrow> bool" where
  "is_ascii_digit c \<longleftrightarrow> 48 \<le> byte c \<and> byte c \<le> 57"

definition is_ascii_hexdigit :: "char \<Rightarrow> bool" where
  "is_ascii_hexdigit c \<longleftrightarrow>
     48 \<le> byte c \<and> byte c \<le> 57 \<or> 65 \<le> byte c \<and> byte c \<le> 70 \<or> 97 \<le> byte c \<and> byte c \<le> 102"

definition is_ascii_alphabetic :: "char \<Rightarrow> bool" where
  "is_ascii_alphabetic c \<longleftrightarrow> 65 \<le> byte c \<and> byte c \<le> 90 \<or> 97 \<le> byte c \<and> byte c \<le> 122"

text \<open>Space, tab, line feed, form feed and carriage return, but not the vertical tab.\<close>

definition is_ascii_whitespace :: "char \<Rightarrow> bool" where
  "is_ascii_whitespace c \<longleftrightarrow> byte c \<in> {9, 10, 12, 13, 32}"

definition ascii_upper :: "char \<Rightarrow> char" where
  "ascii_upper c = (if 97 \<le> byte c \<and> byte c \<le> 122 then char_of (byte c - 32) else c)"

definition ascii_lower :: "char \<Rightarrow> char" where
  "ascii_lower c = (if 65 \<le> byte c \<and> byte c \<le> 90 then char_of (byte c + 32) else c)"

definition to_ascii_uppercase :: "string \<Rightarrow> string" where
  "to_ascii_uppercase s = map ascii_upper s"

definition eq_ignore_ascii_case :: "string \<Rightarrow> string \<Rightarrow> bool" where
  "eq_ignore_ascii_case s t \<longleftrightarrow> to_ascii_lowercase s = to_ascii_lowercase t"

definition is_ascii :: "string \<Rightarrow> bool" where
  "is_ascii s \<longleftrightarrow> list_all (\<lambda>c. byte c < 128) s"

lemma to_ascii_lowercase_map: "to_ascii_lowercase s = map ascii_lower s"
  by (auto simp: to_ascii_lowercase_def ascii_lower_def byte_def)

lemma byte_less: "byte c < 256"
  unfolding byte_def by (metis nat_of_char_less_256)

lemma byte_inj: "byte c = byte d \<longleftrightarrow> c = d"
  by (simp add: byte_def)

lemma byte_char_of: "n < 256 \<Longrightarrow> byte (char_of n) = n"
  by (simp add: byte_def)

lemma byte_ascii_lower:
  "byte (ascii_lower c) = (if 65 \<le> byte c \<and> byte c \<le> 90 then byte c + 32 else byte c)"
  by (simp add: ascii_lower_def byte_char_of)

lemma byte_ascii_upper:
  "byte (ascii_upper c) = (if 97 \<le> byte c \<and> byte c \<le> 122 then byte c - 32 else byte c)"
  using byte_less [of c] by (auto simp: ascii_upper_def byte_char_of)

lemma ascii_lower_idem [simp]: "ascii_lower (ascii_lower c) = ascii_lower c"
  by (subst byte_inj [symmetric]) (simp add: byte_ascii_lower)

lemma ascii_upper_idem [simp]: "ascii_upper (ascii_upper c) = ascii_upper c"
  by (subst byte_inj [symmetric]) (auto simp: byte_ascii_upper)

lemma to_ascii_lowercase_idem [simp]: "to_ascii_lowercase (to_ascii_lowercase s) = to_ascii_lowercase s"
  by (simp add: to_ascii_lowercase_map)

lemma eq_ignore_case_refl [simp]: "eq_ignore_ascii_case s s"
  by (simp add: eq_ignore_ascii_case_def)

lemma eq_ignore_case_sym: "eq_ignore_ascii_case s t \<longleftrightarrow> eq_ignore_ascii_case t s"
  by (auto simp: eq_ignore_ascii_case_def)

lemma eq_ignore_case_trans:
  "eq_ignore_ascii_case s t \<Longrightarrow> eq_ignore_ascii_case t u \<Longrightarrow> eq_ignore_ascii_case s u"
  by (simp add: eq_ignore_ascii_case_def)

section \<open>Searching and splitting\<close>

fun find_str :: "string \<Rightarrow> string \<Rightarrow> nat option" where
  "find_str pat s =
     (if prefix pat s then Some 0
      else case s of [] \<Rightarrow> None | _ # rest \<Rightarrow> map_option Suc (find_str pat rest))"

declare find_str.simps [simp del]

definition find_char :: "(char \<Rightarrow> bool) \<Rightarrow> string \<Rightarrow> nat option" where
  "find_char P s = (if list_ex P s then Some (length (takeWhile (\<lambda>c. \<not> P c) s)) else None)"

fun split_on :: "char \<Rightarrow> string \<Rightarrow> string list" where
  "split_on c [] = [[]]"
| "split_on c (x # xs) =
     (if x = c then [] # split_on c xs
      else case split_on c xs of [] \<Rightarrow> [[x]] | w # ws \<Rightarrow> (x # w) # ws)"

definition split_once :: "char \<Rightarrow> string \<Rightarrow> (string \<times> string) option" where
  "split_once c s =
     (case dropWhile (\<lambda>x. x \<noteq> c) s of [] \<Rightarrow> None | _ # rest \<Rightarrow> Some (takeWhile (\<lambda>x. x \<noteq> c) s, rest))"

definition strip_prefix_char :: "char \<Rightarrow> string \<Rightarrow> string option" where
  "strip_prefix_char c s = (case s of [] \<Rightarrow> None | x # rest \<Rightarrow> if x = c then Some rest else None)"

definition strip_suffix_char :: "char \<Rightarrow> string \<Rightarrow> string option" where
  "strip_suffix_char c s = (if s \<noteq> [] \<and> last s = c then Some (butlast s) else None)"

fun join_str :: "string \<Rightarrow> string list \<Rightarrow> string" where
  "join_str sep [] = []"
| "join_str sep [x] = x"
| "join_str sep (x # y # ys) = x @ sep @ join_str sep (y # ys)"

lemma find_str_Some:
  "find_str pat s = Some n \<Longrightarrow> n + length pat \<le> length s \<and> prefix pat (drop n s) \<and> (\<forall>m<n. \<not> prefix pat (drop m s))"
proof (induction s arbitrary: n)
  case Nil
  then show ?case by (auto simp: find_str.simps [of pat "[]"] split: if_splits)
next
  case (Cons c s)
  show ?case
  proof (cases "prefix pat (c # s)")
    case True
    with Cons.prems show ?thesis
      by (auto simp: find_str.simps [of pat "c # s"] dest: prefix_length_le)
  next
    case False
    with Cons.prems obtain k where k: "n = Suc k" "find_str pat s = Some k"
      by (auto simp: find_str.simps [of pat "c # s"])
    from Cons.IH [OF k(2)] False k(1) show ?thesis by (auto simp: less_Suc_eq_0_disj)
  qed
qed

lemma find_str_None: "find_str pat s = None \<longleftrightarrow> (\<forall>m\<le>length s. \<not> prefix pat (drop m s))"
proof (induction s)
  case Nil
  then show ?case by (simp add: find_str.simps [of pat "[]"])
next
  case (Cons c s)
  have split: "(\<forall>m\<le>Suc n. P m) \<longleftrightarrow> P 0 \<and> (\<forall>m\<le>n. P (Suc m))" for n and P :: "nat \<Rightarrow> bool"
    by (metis Suc_le_mono le0 not0_implies_Suc)
  have "(\<forall>m\<le>length (c # s). \<not> prefix pat (drop m (c # s))) \<longleftrightarrow>
      \<not> prefix pat (c # s) \<and> (\<forall>m\<le>length s. \<not> prefix pat (drop m s))"
    using split [of "length s" "\<lambda>m. \<not> prefix pat (drop m (c # s))"] by simp
  with Cons.IH show ?case by (simp add: find_str.simps [of pat "c # s"])
qed

lemma split_on_nonempty [simp]: "split_on c s \<noteq> []"
  by (induction s) (auto split: list.split)

lemma join_split_on: "join_str [c] (split_on c s) = s"
proof (induction s)
  case (Cons x xs)
  obtain w ws where "split_on c xs = w # ws" by (cases "split_on c xs") auto
  with Cons.IH show ?case by (cases ws) auto
qed simp

lemma split_on_free: "w \<in> set (split_on c s) \<Longrightarrow> c \<notin> set w"
proof (induction s arbitrary: w)
  case (Cons x xs)
  obtain v vs where "split_on c xs = v # vs" by (cases "split_on c xs") auto
  with Cons show ?case by (auto split: if_splits)
qed simp

lemma split_on_single: "c \<notin> set s \<Longrightarrow> split_on c s = [s]"
  by (induction s) auto

lemma split_on_append: "c \<notin> set w \<Longrightarrow> split_on c (w @ c # s) = w # split_on c s"
  by (induction w) auto

lemma split_join: "\<forall>w\<in>set ws. c \<notin> set w \<Longrightarrow> ws \<noteq> [] \<Longrightarrow> split_on c (join_str [c] ws) = ws"
  by (induction "[c]" ws rule: join_str.induct) (auto simp: split_on_single split_on_append)

lemma split_once_None: "split_once c s = None \<longleftrightarrow> c \<notin> set s"
proof (cases "dropWhile (\<lambda>x. x \<noteq> c) s")
  case Nil
  have "split_once c s = None" unfolding split_once_def Nil by simp
  with Nil show ?thesis by (auto simp: dropWhile_eq_Nil_conv)
next
  case (Cons x rest)
  have "split_once c s \<noteq> None" unfolding split_once_def Cons by simp
  moreover have "c \<in> set s"
  proof (rule ccontr)
    assume "c \<notin> set s"
    then have "dropWhile (\<lambda>x. x \<noteq> c) s = []" by (auto simp: dropWhile_eq_Nil_conv)
    with Cons show False by simp
  qed
  ultimately show ?thesis by simp
qed

lemma split_once_Some: "split_once c s = Some (a, b) \<longleftrightarrow> s = a @ c # b \<and> c \<notin> set a"
proof
  assume l: "split_once c s = Some (a, b)"
  then obtain x where x: "dropWhile (\<lambda>x. x \<noteq> c) s = x # b" "a = takeWhile (\<lambda>x. x \<noteq> c) s"
    by (auto simp: split_once_def split: list.splits)
  then have "x = c" by (metis (mono_tags, lifting) dropWhile_eq_Cons_conv)
  then show "s = a @ c # b \<and> c \<notin> set a"
    using x takeWhile_dropWhile_id [of "\<lambda>x. x \<noteq> c" s] by (auto dest: set_takeWhileD)
next
  assume "s = a @ c # b \<and> c \<notin> set a"
  then show "split_once c s = Some (a, b)"
    by (auto simp: split_once_def dropWhile_append takeWhile_append)
qed

section \<open>Numbers\<close>

text \<open>
  \<open>u64::from_str\<close> on a string of digits: the only failure left is a value that does not fit.
\<close>

definition digits_value :: "string \<Rightarrow> nat" where
  "digits_value s = foldl (\<lambda>n c. 10 * n + (byte c - 48)) 0 s"

definition parse_u64 :: "string \<Rightarrow> nat option" where
  "parse_u64 s =
     (if s = [] \<or> \<not> list_all is_ascii_digit s then None
      else if digits_value s < 2 ^ 64 then Some (digits_value s) else None)"

lemma digits_value_append: "digits_value (s @ [c]) = 10 * digits_value s + (byte c - 48)"
  by (simp add: digits_value_def)

lemma show_nat_digits: "list_all is_ascii_digit (show_nat n) \<and> show_nat n \<noteq> [] \<and> digits_value (show_nat n) = n"
proof (induction n rule: show_nat.induct)
  case (1 n)
  show ?case
  proof (cases "n < 10")
    case True
    then show ?thesis
      by (subst (1 2 3) show_nat.simps) (simp add: is_ascii_digit_def byte_char_of digits_value_def)
  next
    case False
    have "is_ascii_digit (char_of (48 + n mod 10))" "byte (char_of (48 + n mod 10)) = 48 + n mod 10"
      by (simp_all add: is_ascii_digit_def byte_char_of)
    with 1 False show ?thesis
      by (subst (1 2 3) show_nat.simps) (simp add: digits_value_append)
  qed
qed

lemma parse_show_nat: "n < 2 ^ 64 \<Longrightarrow> parse_u64 (show_nat n) = Some n"
  using show_nat_digits [of n] by (simp add: parse_u64_def)

section \<open>White space and validity\<close>

lemma strip_front_suffix: "\<exists>w. s = w @ strip_front n ws s"
proof (induction n arbitrary: s)
  case (Suc n)
  show ?case
  proof (cases "find (\<lambda>w. prefix w s) ws")
    case (Some v)
    obtain w where "drop (length v) s = w @ strip_front n ws (drop (length v) s)" using Suc by blast
    then have "s = (take (length v) s @ w) @ strip_front (Suc n) ws s"
      using Some append_take_drop_id [of "length v" s] by simp
    then show ?thesis by blast
  qed simp
qed simp

lemma trim_start_suffix: "\<exists>w. s = w @ trim_start s"
  unfolding trim_start_def by (rule strip_front_suffix)

lemma trim_end_prefix: "\<exists>w. s = trim_end s @ w"
proof -
  obtain w where "rev s = w @ rev (trim_end s)"
    using strip_front_suffix [of "rev s" "length s" "map rev white_space"] by (auto simp: trim_end_def)
  then have "s = trim_end s @ rev w" by (metis rev_append rev_rev_ident)
  then show ?thesis by blast
qed

lemma trim_infix: "\<exists>a b. s = a @ trim s @ b"
  unfolding trim_def using trim_start_suffix [of s] trim_end_prefix [of "trim_start s"]
  by (metis append.assoc)

lemma set_trim: "set (trim s) \<subseteq> set s"
  using trim_infix [of s] by (metis Un_upper1 Un_upper2 order.trans set_append)

text \<open>
  A byte at which no white space begins or ends: an ASCII character that is none of the
  six ASCII white space characters.
\<close>

definition solid :: "char \<Rightarrow> bool" where
  "solid c \<longleftrightarrow> byte c < 128 \<and> byte c \<notin> {9, 10, 11, 12, 13, 32}"

lemma strip_front_keep: "find (\<lambda>w. prefix w s) ws = None \<Longrightarrow> strip_front n ws s = s"
  by (cases n) simp_all

lemma white_space_first: "w \<in> set white_space \<Longrightarrow> prefix w (c # s) \<Longrightarrow> \<not> solid c"
  by (auto simp: white_space_def solid_def byte_def)

lemma white_space_last: "w \<in> set white_space \<Longrightarrow> prefix (rev w) (c # s) \<Longrightarrow> \<not> solid c"
  by (auto simp: white_space_def solid_def byte_def)

lemma trim_solid:
  assumes "s = [] \<or> solid (hd s) \<and> solid (last s)"
  shows "trim s = s"
proof (cases s rule: rev_cases)
  case Nil
  then show ?thesis by (simp add: trim_def trim_start_def trim_end_def)
next
  case (snoc t d)
  then have "s \<noteq> []" by simp
  then obtain c u where c: "s = c # u" by (auto simp: neq_Nil_conv)
  have "solid c" using assms c by simp
  then have "find (\<lambda>w. prefix w s) white_space = None"
    unfolding find_None_iff c using white_space_first by blast
  then have st: "trim_start s = s" by (simp add: trim_start_def strip_front_keep)
  have "solid d" using assms snoc by simp
  then have "find (\<lambda>w. prefix w (rev s)) (map rev white_space) = None"
    unfolding find_None_iff snoc using white_space_last by auto
  then have "trim_end s = s" by (simp add: trim_end_def strip_front_keep)
  with st show ?thesis by (simp add: trim_def)
qed

text \<open>The well-formed byte sequences of UTF-8, which \<open>str::from_utf8\<close> accepts.\<close>

definition utf8_tail :: "char \<Rightarrow> bool" where
  "utf8_tail c \<longleftrightarrow> 0x80 \<le> byte c \<and> byte c \<le> 0xBF"

fun utf8_valid :: "string \<Rightarrow> bool" where
  "utf8_valid [] = True"
| "utf8_valid (a # s) =
     (if byte a < 0x80 then utf8_valid s
      else case s of
        [] \<Rightarrow> False
      | b # s1 \<Rightarrow>
          if 0xC2 \<le> byte a \<and> byte a \<le> 0xDF then utf8_tail b \<and> utf8_valid s1
          else case s1 of
            [] \<Rightarrow> False
          | c # s2 \<Rightarrow>
              if 0xE0 \<le> byte a \<and> byte a \<le> 0xEF
              then utf8_tail b \<and> (byte a = 0xE0 \<longrightarrow> 0xA0 \<le> byte b) \<and> (byte a = 0xED \<longrightarrow> byte b \<le> 0x9F) \<and>
                utf8_tail c \<and> utf8_valid s2
              else case s2 of
                [] \<Rightarrow> False
              | d # s3 \<Rightarrow>
                  0xF0 \<le> byte a \<and> byte a \<le> 0xF4 \<and> utf8_tail b \<and> (byte a = 0xF0 \<longrightarrow> 0x90 \<le> byte b) \<and>
                  (byte a = 0xF4 \<longrightarrow> byte b \<le> 0x8F) \<and> utf8_tail c \<and> utf8_tail d \<and> utf8_valid s3)"

lemma utf8_valid_ascii: "is_ascii s \<Longrightarrow> utf8_valid s"
  by (induction s) (auto simp: is_ascii_def)

text \<open>\<open>str::chars\<close>: a character is a byte with the continuation bytes that follow it.\<close>

function utf8_chars :: "string \<Rightarrow> string list" where
  "utf8_chars [] = []"
| "utf8_chars (c # s) = (c # takeWhile utf8_tail s) # utf8_chars (dropWhile utf8_tail s)"
  by pat_completeness auto
termination
  by (relation "measure length") (auto simp: less_Suc_eq_le length_dropWhile_le)

lemma concat_utf8_chars: "concat (utf8_chars s) = s"
  by (induction s rule: utf8_chars.induct) simp_all

lemma utf8_chars_ne: "c \<in> set (utf8_chars s) \<Longrightarrow> c \<noteq> []"
  by (induction s rule: utf8_chars.induct) auto

text \<open>\<open>str::trim_matches\<close> with a character.\<close>

definition trim_matches :: "char \<Rightarrow> string \<Rightarrow> string" where
  "trim_matches c s = rev (dropWhile (\<lambda>x. x = c) (rev (dropWhile (\<lambda>x. x = c) s)))"

lemma trim_matches_none: "c \<notin> set s \<Longrightarrow> trim_matches c s = s"
proof -
  assume c: "c \<notin> set s"
  have "dropWhile (\<lambda>x. x = c) t = t" if "c \<notin> set t" for t using that by (cases t) auto
  with c show ?thesis by (simp add: trim_matches_def)
qed

lemma trim_matches_infix: "\<exists>a b. s = a @ trim_matches c s @ b"
proof -
  let ?t = "dropWhile (\<lambda>x. x = c) s"
  have "?t = trim_matches c s @ rev (takeWhile (\<lambda>x. x = c) (rev ?t))"
    unfolding trim_matches_def by (metis rev_append rev_rev_ident takeWhile_dropWhile_id)
  then have "s = takeWhile (\<lambda>x. x = c) s @ trim_matches c s @ rev (takeWhile (\<lambda>x. x = c) (rev ?t))"
    by (metis takeWhile_dropWhile_id)
  then show ?thesis by blast
qed

end
