(* ===== verification/Http_Routing.thy ===== *)
theory Http_Routing
  imports Text_Ops
begin

text \<open>
  \<open>crates/proto-http/src/lib.rs\<close>, first part: canonical hosts, request targets and query
  pairs, the normalisation of the match criteria of a route, and the choice of a route.

  The address blocks of the package \<open>ipnet\<close> are a type parameter; the test whether a block
  contains an address is a parameter of the definitions that use it.
\<close>

section \<open>Types\<close>

datatype supported_http_version = Http1 | Http2

record http1_limits =
  hl_max_head_bytes :: nat
  hl_max_header_count :: nat
  hl_max_body_bytes :: nat

definition http1_limits_default :: http1_limits where
  "http1_limits_default =
     \<lparr>hl_max_head_bytes = 16 * 1024, hl_max_header_count = 64, hl_max_body_bytes = 8 * 1024 * 1024\<rparr>"

record http2_limits =
  h2_max_concurrent_streams :: nat
  h2_max_body_bytes :: nat

definition http2_limits_default :: http2_limits where
  "http2_limits_default = \<lparr>h2_max_concurrent_streams = 128, h2_max_body_bytes = 8 * 1024 * 1024\<rparr>"

record http_header =
  hh_name :: string
  hh_value :: string

datatype route_header_match =
    HeaderExact string string
  | HeaderPresent string
  | HeaderAbsent string

datatype route_query_match =
    QueryExact string string
  | QueryPresent string
  | QueryAbsent string

record 'n route_prefix_rule =
  rr_label :: string
  rr_prefix :: string
  rr_hostnames :: "string list"
  rr_methods :: "string list"
  rr_header_matches :: "route_header_match list"
  rr_query_matches :: "route_query_match list"
  rr_content_types :: "string list"
  rr_grpc_services :: "string list"
  rr_grpc_methods :: "string list"
  rr_source_cidrs :: "'n list"

definition route_rule_new :: "string \<Rightarrow> string \<Rightarrow> 'n route_prefix_rule" where
  "route_rule_new label pre =
     \<lparr>rr_label = label, rr_prefix = pre, rr_hostnames = [], rr_methods = [], rr_header_matches = [],
      rr_query_matches = [], rr_content_types = [], rr_grpc_services = [], rr_grpc_methods = [],
      rr_source_cidrs = []\<rparr>"

definition with_hostnames :: "string list \<Rightarrow> 'n route_prefix_rule \<Rightarrow> 'n route_prefix_rule" where
  "with_hostnames hs r = r\<lparr>rr_hostnames := hs\<rparr>"

definition with_methods :: "string list \<Rightarrow> 'n route_prefix_rule \<Rightarrow> 'n route_prefix_rule" where
  "with_methods ms r = r\<lparr>rr_methods := map (\<lambda>m. to_ascii_uppercase (trim m)) ms\<rparr>"

definition with_header_matches ::
  "route_header_match list \<Rightarrow> 'n route_prefix_rule \<Rightarrow> 'n route_prefix_rule" where
  "with_header_matches ms r = r\<lparr>rr_header_matches := ms\<rparr>"

definition with_query_matches ::
  "route_query_match list \<Rightarrow> 'n route_prefix_rule \<Rightarrow> 'n route_prefix_rule" where
  "with_query_matches ms r = r\<lparr>rr_query_matches := ms\<rparr>"

definition with_content_types :: "string list \<Rightarrow> 'n route_prefix_rule \<Rightarrow> 'n route_prefix_rule" where
  "with_content_types ts r = r\<lparr>rr_content_types := ts\<rparr>"

definition with_grpc_services :: "string list \<Rightarrow> 'n route_prefix_rule \<Rightarrow> 'n route_prefix_rule" where
  "with_grpc_services ss r = r\<lparr>rr_grpc_services := ss\<rparr>"

definition with_grpc_methods :: "string list \<Rightarrow> 'n route_prefix_rule \<Rightarrow> 'n route_prefix_rule" where
  "with_grpc_methods ms r = r\<lparr>rr_grpc_methods := ms\<rparr>"

definition with_source_cidrs :: "'n list \<Rightarrow> 'n route_prefix_rule \<Rightarrow> 'n route_prefix_rule" where
  "with_source_cidrs cs r = r\<lparr>rr_source_cidrs := cs\<rparr>"

text \<open>The tuple of the code, compared lexicographically.\<close>

type_synonym specificity = "nat \<times> bool \<times> bool \<times> nat \<times> nat \<times> bool \<times> nat \<times> nat \<times> bool"

definition specificity_key :: "'n route_prefix_rule \<Rightarrow> specificity" where
  "specificity_key r =
     (length (rr_prefix r), rr_hostnames r \<noteq> [], rr_methods r \<noteq> [], length (rr_header_matches r),
      length (rr_query_matches r), rr_content_types r \<noteq> [], length (rr_grpc_services r),
      length (rr_grpc_methods r), rr_source_cidrs r \<noteq> [])"

record canonical_request_target =
  rt_authority :: "string option"
  rt_path :: string
  rt_query_pairs :: "(string \<times> string) list"

datatype request_target_error =
    UnsupportedForm
  | EmptyAuthority
  | FragmentNotAllowed
  | InvalidPercentEncoding
  | InvalidQuery
  | InvalidAuthority

fun request_target_error_display :: "request_target_error \<Rightarrow> string" where
  "request_target_error_display UnsupportedForm = ''unsupported HTTP request-target form''"
| "request_target_error_display EmptyAuthority = ''absolute-form request-target must include authority''"
| "request_target_error_display FragmentNotAllowed = ''request-target fragments are not allowed''"
| "request_target_error_display InvalidPercentEncoding = ''request-target contains invalid percent-encoding''"
| "request_target_error_display InvalidQuery = ''request-target contains an invalid query shape''"
| "request_target_error_display InvalidAuthority = ''request-target authority is invalid''"

record route_match_input =
  ri_target :: string
  ri_host :: "string option"
  ri_method :: "string option"
  ri_headers :: "http_header list"
  ri_source_ip :: "ip_addr option"

record canonical_route_match_input =
  ci_path :: string
  ci_authority :: "string option"
  ci_method :: "string option"
  ci_headers :: "http_header list"
  ci_query_pairs :: "(string \<times> string) list"
  ci_content_type :: "string option"
  ci_grpc_service :: "string option"
  ci_grpc_method :: "string option"
  ci_source_ip :: "ip_addr option"

record route_match =
  rm_label :: string
  rm_prefix :: string

section \<open>Normalisation of match criteria\<close>

definition is_http_token_char :: "char \<Rightarrow> bool" where
  "is_http_token_char c \<longleftrightarrow> c \<in> set ''!#$%&*+-.^_`|~'' \<or> c = CHR 0x27 \<or> is_ascii_alphanumeric c"

definition normalize_http_method :: "string \<Rightarrow> string option" where
  "normalize_http_method value =
     (let normalized = trim value
      in if normalized = [] \<or> \<not> list_all is_http_token_char normalized then None
         else Some (to_ascii_uppercase normalized))"

definition is_valid_grpc_identifier :: "string \<Rightarrow> bool" where
  "is_valid_grpc_identifier value =
     (case value of
        [] \<Rightarrow> False
      | first # characters \<Rightarrow>
          (is_ascii_alphabetic first \<or> first = CHR ''_'') \<and>
          list_all (\<lambda>c. is_ascii_alphanumeric c \<or> c = CHR ''_'') characters)"

definition normalize_grpc_service_match :: "string \<Rightarrow> string option" where
  "normalize_grpc_service_match value =
     (let normalized = trim value
      in if normalized = [] \<or> CHR ''/'' \<in> set normalized \<or> list_ex is_ascii_whitespace normalized then None
         else if list_all is_valid_grpc_identifier (split_on CHR ''.'' normalized) then Some normalized
         else None)"

definition normalize_grpc_method_match :: "string \<Rightarrow> string option" where
  "normalize_grpc_method_match value =
     (let normalized = trim value
      in if is_valid_grpc_identifier normalized then Some normalized else None)"

definition normalize_http_header_name :: "string \<Rightarrow> string option" where
  "normalize_http_header_name value =
     (let normalized = trim value
      in if normalized = [] \<or> \<not> list_all is_http_token_char normalized then None
         else Some (to_ascii_lowercase normalized))"

text \<open>
  The loop over the bytes. A byte that is not part of an escape is pushed as the character
  with that code point, which for a byte above 127 is encoded in two bytes.
\<close>

definition push_byte_as_char :: "char \<Rightarrow> string" where
  "push_byte_as_char c =
     (if byte c < 128 then [c] else [char_of (192 + byte c div 64), char_of (128 + byte c mod 64)])"

fun canonicalize_percent_encoded :: "string \<Rightarrow> (string, request_target_error) result" where
  "canonicalize_percent_encoded [] = Ok []"
| "canonicalize_percent_encoded (x # xs) =
     (if x = CHR ''%''
      then (case xs of
              a # b # rest \<Rightarrow>
                if is_ascii_hexdigit a \<and> is_ascii_hexdigit b
                then and_then (canonicalize_percent_encoded rest)
                       (\<lambda>r. Ok (CHR ''%'' # ascii_upper a # ascii_upper b # r))
                else Err InvalidPercentEncoding
            | _ \<Rightarrow> Err InvalidPercentEncoding)
      else and_then (canonicalize_percent_encoded xs) (\<lambda>r. Ok (push_byte_as_char x @ r)))"

definition canonicalize_query_match_name :: "string \<Rightarrow> (string, request_target_error) result" where
  "canonicalize_query_match_name value =
     and_then (canonicalize_percent_encoded value) (\<lambda>normalized.
       if normalized = [] \<or> CHR ''&'' \<in> set normalized \<or> CHR ''='' \<in> set normalized then Err InvalidQuery
       else Ok normalized)"

definition canonicalize_query_match_value :: "string \<Rightarrow> (string, request_target_error) result" where
  "canonicalize_query_match_value value =
     (if CHR ''&'' \<in> set value then Err InvalidQuery else canonicalize_percent_encoded value)"

definition normalize_content_type_match :: "string \<Rightarrow> string option" where
  "normalize_content_type_match value =
     (let media_type = to_ascii_lowercase (trim (hd (split_on CHR '';'' value)))
      in case split_once CHR ''/'' media_type of
           None \<Rightarrow> None
         | Some (type_name, subtype_name) \<Rightarrow>
             if type_name = [] \<or> subtype_name = [] \<or> \<not> list_all is_http_token_char type_name \<or>
                \<not> list_all is_http_token_char subtype_name
             then None else Some media_type)"

section \<open>Hosts and request targets\<close>

definition canonicalize_host :: "string \<Rightarrow> (string, request_target_error) result" where
  "canonicalize_host value =
     (let normalized = to_ascii_lowercase (trim value)
      in if normalized = [] \<or> CHR ''/'' \<in> set normalized \<or> CHR ''@'' \<in> set normalized \<or>
            CHR '','' \<in> set normalized \<or> list_ex is_ascii_whitespace normalized
         then Err InvalidAuthority
         else let normalized = (case strip_suffix_char CHR ''.'' normalized of None \<Rightarrow> normalized | Some s \<Rightarrow> s)
              in if normalized = [] then Err InvalidAuthority else Ok normalized)"

definition split_path_and_query :: "string \<Rightarrow> string \<times> string" where
  "split_path_and_query s =
     (if s = [] then (''/'', [])
      else case split_once CHR ''?'' s of
             Some (path, query) \<Rightarrow> (if path = [] then ''/'' else path, query)
           | None \<Rightarrow> (s, []))"

fun canonicalize_raw_pairs :: "string list \<Rightarrow> ((string \<times> string) list, request_target_error) result" where
  "canonicalize_raw_pairs [] = Ok []"
| "canonicalize_raw_pairs (raw_pair # rest) =
     (if raw_pair = [] then Err InvalidQuery
      else let (name, value) = (case split_once CHR ''='' raw_pair of Some nv \<Rightarrow> nv | None \<Rightarrow> (raw_pair, []))
           in and_then (canonicalize_percent_encoded name) (\<lambda>n.
              and_then (canonicalize_percent_encoded value) (\<lambda>v.
              and_then (canonicalize_raw_pairs rest) (\<lambda>pairs. Ok ((n, v) # pairs)))))"

definition canonicalize_query_pairs :: "string \<Rightarrow> ((string \<times> string) list, request_target_error) result" where
  "canonicalize_query_pairs query =
     (if query = [] then Ok []
      else and_then (canonicalize_raw_pairs (split_on CHR ''&'' query)) (\<lambda>pairs. Ok (sort pairs)))"

definition http_scheme :: "string \<Rightarrow> bool" where
  "http_scheme scheme \<longleftrightarrow> eq_ignore_ascii_case scheme ''http'' \<or> eq_ignore_ascii_case scheme ''https''"

definition path_or_query_start :: "string \<Rightarrow> nat" where
  "path_or_query_start s =
     (case find_char (\<lambda>c. c = CHR ''/'' \<or> c = CHR ''?'') s of None \<Rightarrow> length s | Some i \<Rightarrow> i)"

text \<open>The authority and the rest of a trimmed target without fragment.\<close>

definition split_target :: "string \<Rightarrow> (string option \<times> string, request_target_error) result" where
  "split_target target =
     (if prefix ''/'' target then Ok (None, target)
      else case find_str ''://'' target of
        None \<Rightarrow> Err UnsupportedForm
      | Some scheme_end \<Rightarrow>
          if \<not> http_scheme (take scheme_end target) then Err UnsupportedForm
          else let remainder = drop (scheme_end + 3) target;
                   split_index = path_or_query_start remainder;
                   authority = take split_index remainder;
                   tail = drop split_index remainder
               in if trim authority = [] then Err EmptyAuthority
                  else and_then (canonicalize_host authority) (\<lambda>a.
                    Ok (Some a, if tail = [] then ''/'' else if prefix ''?'' tail then [] else tail)))"

definition canonicalize_request_target :: "string \<Rightarrow> (canonical_request_target, request_target_error) result" where
  "canonicalize_request_target t =
     (let target = trim t
      in if target = [] \<or> target = ''*'' then Err UnsupportedForm
         else if CHR ''#'' \<in> set target then Err FragmentNotAllowed
         else and_then (split_target target) (\<lambda>(authority, path_and_query).
           let (path, query) = split_path_and_query path_and_query
           in and_then (canonicalize_percent_encoded path) (\<lambda>p.
              and_then (canonicalize_query_pairs query) (\<lambda>q.
                Ok \<lparr>rt_authority = authority, rt_path = p, rt_query_pairs = q\<rparr>))))"

definition canonical_query :: "canonical_request_target \<Rightarrow> string" where
  "canonical_query t =
     join_str ''&'' (map (\<lambda>(name, value). if value = [] then name else name @ ''='' @ value) (rt_query_pairs t))"

section \<open>Routes\<close>

definition is_grpc_content_type :: "string \<Rightarrow> bool" where
  "is_grpc_content_type value \<longleftrightarrow>
     (let normalized = to_ascii_lowercase (trim value)
      in normalized = ''application/grpc'' \<or> prefix ''application/grpc+'' normalized \<or>
         prefix ''application/grpc;'' normalized)"

definition has_name :: "string \<Rightarrow> http_header \<Rightarrow> bool" where
  "has_name name h \<longleftrightarrow> eq_ignore_ascii_case (hh_name h) name"

definition is_grpc_request :: "string \<Rightarrow> supported_http_version \<Rightarrow> http_header list \<Rightarrow> bool" where
  "is_grpc_request meth version headers \<longleftrightarrow>
     version = Http2 \<and> eq_ignore_ascii_case meth ''POST'' \<and>
     list_ex (\<lambda>h. has_name ''content-type'' h \<and> is_grpc_content_type (hh_value h)) headers"

definition extract_grpc_path_components :: "string \<Rightarrow> (string \<times> string) option" where
  "extract_grpc_path_components path =
     (case strip_prefix_char CHR ''/'' path of
        None \<Rightarrow> None
      | Some trimmed \<Rightarrow>
          (case split_once CHR ''/'' trimmed of
             None \<Rightarrow> None
           | Some (service, meth) \<Rightarrow>
               if CHR ''/'' \<in> set meth then None
               else (case normalize_grpc_service_match service of
                       None \<Rightarrow> None
                     | Some s \<Rightarrow> map_option (\<lambda>m. (s, m)) (normalize_grpc_method_match meth))))"

definition extract_content_type_match :: "http_header list \<Rightarrow> string option" where
  "extract_content_type_match headers =
     Option.bind (find (has_name ''content-type'') headers) (\<lambda>h. normalize_content_type_match (hh_value h))"

definition result_ok :: "('a, 'e) result \<Rightarrow> 'a option" where
  "result_ok r = (case r of Inr x \<Rightarrow> Some x | Inl _ \<Rightarrow> None)"

definition map_err :: "('e \<Rightarrow> 'f) \<Rightarrow> ('a, 'e) result \<Rightarrow> ('a, 'f) result" where
  "map_err f r = (case r of Inl e \<Rightarrow> Err (f e) | Inr x \<Rightarrow> Ok x)"

definition canonicalize_route_match_input ::
  "route_match_input \<Rightarrow> (canonical_route_match_input, request_target_error) result" where
  "canonicalize_route_match_input i =
     and_then (canonicalize_request_target (ri_target i)) (\<lambda>t.
       let grpc_path = extract_grpc_path_components (rt_path t)
       in Ok \<lparr>ci_path = rt_path t,
              ci_authority = (case Option.bind (ri_host i) (\<lambda>h. result_ok (canonicalize_host h)) of
                                Some a \<Rightarrow> Some a | None \<Rightarrow> rt_authority t),
              ci_method = Option.bind (ri_method i) normalize_http_method,
              ci_headers = ri_headers i, ci_query_pairs = rt_query_pairs t,
              ci_content_type = extract_content_type_match (ri_headers i),
              ci_grpc_service = map_option fst grpc_path, ci_grpc_method = map_option snd grpc_path,
              ci_source_ip = ri_source_ip i\<rparr>)"

fun header_match_satisfied :: "http_header list \<Rightarrow> route_header_match \<Rightarrow> bool" where
  "header_match_satisfied headers (HeaderExact name value) =
     list_ex (\<lambda>h. has_name name h \<and> trim (hh_value h) = value) headers"
| "header_match_satisfied headers (HeaderPresent name) = list_ex (has_name name) headers"
| "header_match_satisfied headers (HeaderAbsent name) = (\<not> list_ex (has_name name) headers)"

fun query_match_satisfied :: "(string \<times> string) list \<Rightarrow> route_query_match \<Rightarrow> bool" where
  "query_match_satisfied pairs (QueryExact name value) = list_ex (\<lambda>(n, v). n = name \<and> v = value) pairs"
| "query_match_satisfied pairs (QueryPresent name) = list_ex (\<lambda>(n, _). n = name) pairs"
| "query_match_satisfied pairs (QueryAbsent name) = (\<not> list_ex (\<lambda>(n, _). n = name) pairs)"

definition is_some_and :: "('a \<Rightarrow> bool) \<Rightarrow> 'a option \<Rightarrow> bool" where
  "is_some_and P x = (case x of None \<Rightarrow> False | Some y \<Rightarrow> P y)"

definition route_rule_matches ::
  "('n \<Rightarrow> ip_addr \<Rightarrow> bool) \<Rightarrow> 'n route_prefix_rule \<Rightarrow> canonical_route_match_input \<Rightarrow> bool" where
  "route_rule_matches contains r i \<longleftrightarrow>
     prefix (rr_prefix r) (ci_path i) \<and>
     (rr_hostnames r = [] \<or> is_some_and (\<lambda>v. v \<in> set (rr_hostnames r)) (ci_authority i)) \<and>
     (rr_methods r = [] \<or> is_some_and (\<lambda>v. v \<in> set (rr_methods r)) (ci_method i)) \<and>
     list_all (header_match_satisfied (ci_headers i)) (rr_header_matches r) \<and>
     list_all (query_match_satisfied (ci_query_pairs i)) (rr_query_matches r) \<and>
     (rr_content_types r = [] \<or>
        is_some_and (\<lambda>v. list_ex (\<lambda>t. t = v \<or> t = ''application/grpc'' \<and> is_grpc_content_type v)
          (rr_content_types r)) (ci_content_type i)) \<and>
     (rr_grpc_services r = [] \<or> is_some_and (\<lambda>v. v \<in> set (rr_grpc_services r)) (ci_grpc_service i)) \<and>
     (rr_grpc_methods r = [] \<or> is_some_and (\<lambda>v. v \<in> set (rr_grpc_methods r)) (ci_grpc_method i)) \<and>
     (rr_source_cidrs r = [] \<or>
        is_some_and (\<lambda>ip. list_ex (\<lambda>n. contains n ip) (rr_source_cidrs r))
          (map_option canonicalize_ip (ci_source_ip i)))"

definition more_specific :: "'n route_prefix_rule \<Rightarrow> 'n route_prefix_rule option \<Rightarrow> 'n route_prefix_rule option" where
  "more_specific r best =
     (case best of
        None \<Rightarrow> Some r
      | Some m \<Rightarrow> if specificity_key r > specificity_key m then Some r else best)"

definition best_route ::
  "('n \<Rightarrow> ip_addr \<Rightarrow> bool) \<Rightarrow> canonical_route_match_input \<Rightarrow> 'n route_prefix_rule list \<Rightarrow> 'n route_prefix_rule option" where
  "best_route contains i rules =
     fold more_specific (filter (\<lambda>r. route_rule_matches contains r i) rules) None"

definition match_canonical_route ::
  "('n \<Rightarrow> ip_addr \<Rightarrow> bool) \<Rightarrow> canonical_route_match_input \<Rightarrow> 'n route_prefix_rule list \<Rightarrow> route_match option" where
  "match_canonical_route contains i rules =
     map_option (\<lambda>r. \<lparr>rm_label = rr_label r, rm_prefix = rr_prefix r\<rparr>) (best_route contains i rules)"

definition match_route_request_with_context ::
  "('n \<Rightarrow> ip_addr \<Rightarrow> bool) \<Rightarrow> route_match_input \<Rightarrow> 'n route_prefix_rule list \<Rightarrow> route_match option" where
  "match_route_request_with_context contains i rules =
     (case canonicalize_route_match_input i of
        Inl _ \<Rightarrow> None
      | Inr ci \<Rightarrow> match_canonical_route contains ci rules)"

definition match_route ::
  "('n \<Rightarrow> ip_addr \<Rightarrow> bool) \<Rightarrow> string \<Rightarrow> string option \<Rightarrow> string option \<Rightarrow> 'n route_prefix_rule list \<Rightarrow> route_match option" where
  "match_route contains target host meth rules =
     match_route_request_with_context contains
       \<lparr>ri_target = target, ri_host = host, ri_method = meth, ri_headers = [], ri_source_ip = None\<rparr> rules"

definition match_route_prefix ::
  "('n \<Rightarrow> ip_addr \<Rightarrow> bool) \<Rightarrow> string \<Rightarrow> 'n route_prefix_rule list \<Rightarrow> route_match option" where
  "match_route_prefix contains target rules = match_route contains target None None rules"

definition match_route_request ::
  "('n \<Rightarrow> ip_addr \<Rightarrow> bool) \<Rightarrow> string \<Rightarrow> string option \<Rightarrow> 'n route_prefix_rule list \<Rightarrow> route_match option" where
  "match_route_request contains target host rules = match_route contains target host None rules"

definition match_route_request_with_method ::
  "('n \<Rightarrow> ip_addr \<Rightarrow> bool) \<Rightarrow> string \<Rightarrow> string option \<Rightarrow> string option \<Rightarrow> 'n route_prefix_rule list \<Rightarrow> route_match option" where
  "match_route_request_with_method contains target host meth rules = match_route contains target host meth rules"

section \<open>The chosen route\<close>

definition first_max :: "'n route_prefix_rule list \<Rightarrow> 'n route_prefix_rule \<Rightarrow> 'n route_prefix_rule list \<Rightarrow> bool" where
  "first_max us r vs \<longleftrightarrow> (\<forall>u\<in>set us. specificity_key u < specificity_key r) \<and>
     (\<forall>v\<in>set vs. specificity_key v \<le> specificity_key r)"

lemma more_specific_simps:
  "more_specific r None = Some r"
  "more_specific r (Some m) = (if specificity_key m < specificity_key r then Some r else Some m)"
  by (simp_all add: more_specific_def)

lemma fold_more_specific:
  "(fold more_specific xs None = None \<longleftrightarrow> xs = []) \<and>
   (\<forall>r. fold more_specific xs None = Some r \<longrightarrow> (\<exists>us vs. xs = us @ r # vs \<and> first_max us r vs))"
proof (induction xs rule: rev_induct)
  case (snoc x xs)
  show ?case
  proof (cases "fold more_specific xs None")
    case None
    with snoc have "xs = []" by simp
    moreover have "[x] = [] @ x # [] \<and> first_max [] x []" by (simp add: first_max_def)
    ultimately show ?thesis by (auto simp: more_specific_simps)
  next
    case (Some r)
    with snoc obtain us vs where xs: "xs = us @ r # vs" "first_max us r vs" by blast
    show ?thesis
    proof (cases "specificity_key r < specificity_key x")
      case True
      have "first_max xs x []"
        using xs True unfolding first_max_def by (auto intro: less_trans le_less_trans)
      with True Some show ?thesis by (auto simp: more_specific_simps)
    next
      case False
      then have "first_max us r (vs @ [x])" using xs(2) by (auto simp: first_max_def)
      with False Some xs(1) show ?thesis by (auto simp: more_specific_simps)
    qed
  qed
qed simp

lemma filter_eq_split:
  "filter P xs = us @ r # vs \<Longrightarrow> \<exists>us' vs'. xs = us' @ r # vs' \<and> filter P us' = us \<and> P r \<and> filter P vs' = vs"
proof (induction xs arbitrary: us)
  case (Cons x xs)
  show ?case
  proof (cases "P x \<and> us = []")
    case True
    with Cons.prems have "x # xs = [] @ r # xs" "filter P [] = us" "P r" "filter P xs = vs" by auto
    then show ?thesis by blast
  next
    case False
    then obtain ws where ws: "filter P xs = ws @ r # vs" "us = (if P x then x # ws else ws)"
      using Cons.prems by (cases us) (auto split: if_splits)
    from Cons.IH [OF ws(1)] obtain us' vs' where
      "xs = us' @ r # vs'" "filter P us' = ws" "P r" "filter P vs' = vs" by blast
    then have "x # xs = (x # us') @ r # vs'" "filter P (x # us') = us" "P r" "filter P vs' = vs"
      using ws(2) by simp_all
    then show ?thesis by blast
  qed
qed simp

lemma best_route_None: "best_route contains i rules = None \<longleftrightarrow> (\<forall>r\<in>set rules. \<not> route_rule_matches contains r i)"
  using fold_more_specific [of "filter (\<lambda>r. route_rule_matches contains r i) rules"]
  by (auto simp: best_route_def filter_empty_conv)

lemma best_route_Some:
  assumes "best_route contains i rules = Some r"
  shows "\<exists>us vs. rules = us @ r # vs \<and> route_rule_matches contains r i \<and>
    (\<forall>u\<in>set us. route_rule_matches contains u i \<longrightarrow> specificity_key u < specificity_key r) \<and>
    (\<forall>v\<in>set vs. route_rule_matches contains v i \<longrightarrow> specificity_key v \<le> specificity_key r)"
proof -
  obtain us vs where f: "filter (\<lambda>r. route_rule_matches contains r i) rules = us @ r # vs" "first_max us r vs"
    using fold_more_specific assms unfolding best_route_def by blast
  from filter_eq_split [OF f(1)] obtain us' vs' where
    "rules = us' @ r # vs'" "us = filter (\<lambda>r. route_rule_matches contains r i) us'"
    "route_rule_matches contains r i" "vs = filter (\<lambda>r. route_rule_matches contains r i) vs'" by blast
  with f(2) show ?thesis by (auto simp: first_max_def)
qed

text \<open>
  C8. The most specific route wins: a request whose target is valid is matched by no route
  only when no rule matches it, and otherwise by a rule that matches and that is at least
  as specific as every other matching rule and more specific than those listed before it.
\<close>

theorem route_choice_most_specific:
  assumes "canonicalize_route_match_input i = Ok ci"
  shows "case match_route_request_with_context contains i rules of
      None \<Rightarrow> (\<forall>r\<in>set rules. \<not> route_rule_matches contains r ci)
    | Some m \<Rightarrow> (\<exists>us r vs. rules = us @ r # vs \<and> m = \<lparr>rm_label = rr_label r, rm_prefix = rr_prefix r\<rparr> \<and>
        route_rule_matches contains r ci \<and>
        (\<forall>u\<in>set us. route_rule_matches contains u ci \<longrightarrow> specificity_key u < specificity_key r) \<and>
        (\<forall>v\<in>set vs. route_rule_matches contains v ci \<longrightarrow> specificity_key v \<le> specificity_key r))"
  using assms best_route_None [of contains ci rules] best_route_Some [of contains ci rules]
  by (cases "best_route contains ci rules")
    (auto simp: match_route_request_with_context_def match_canonical_route_def)

definition sample_rules :: "unit route_prefix_rule list" where
  "sample_rules =
     [route_rule_new ''all'' ''/'', route_rule_new ''api'' ''/api'',
      with_hostnames [''a.test''] (route_rule_new ''api-host'' ''/api'')]"

definition sample_route_input :: route_match_input where
  "sample_route_input =
     \<lparr>ri_target = ''/api/v1?x=1'', ri_host = Some ''A.test'', ri_method = Some ''GET'', ri_headers = [],
      ri_source_ip = None\<rparr>"

lemma sample_route_facts:
  "is_ok (canonicalize_route_match_input sample_route_input)"
  "map_option rm_label (match_route_request_with_context (\<lambda>_ _. False) sample_route_input sample_rules) =
     Some ''api-host''"
  by code_simp+

theorem route_choice_most_specific_witness:
  "\<exists>us r vs ci. canonicalize_route_match_input sample_route_input = Ok ci \<and> sample_rules = us @ r # vs \<and>
     rr_label r = ''api-host'' \<and> route_rule_matches (\<lambda>_ _. False) r ci \<and>
     (\<forall>u\<in>set us. route_rule_matches (\<lambda>_ _. False) u ci \<longrightarrow> specificity_key u < specificity_key r)"
proof -
  obtain ci where ci: "canonicalize_route_match_input sample_route_input = Ok ci"
    using sample_route_facts(1) by (auto simp: is_ok_def split: sum.splits)
  from sample_route_facts(2) obtain m where
    m: "match_route_request_with_context (\<lambda>_ _. False) sample_route_input sample_rules = Some m"
      "rm_label m = ''api-host''" by auto
  from route_choice_most_specific [OF ci, where contains = "\<lambda>_ _. False" and rules = sample_rules] m ci show ?thesis
    by (simp del: split_paired_Ex) (metis route_match.select_convs(1))
qed

section \<open>Canonical targets\<close>

lemma canonical_percent_chars:
  "canonicalize_percent_encoded s = Ok r \<Longrightarrow> is_ascii s \<Longrightarrow>
     (\<forall>c\<in>set r. c \<in> set s \<or> is_ascii_hexdigit c) \<and> (r = [] \<longleftrightarrow> s = []) \<and> (s \<noteq> [] \<longrightarrow> hd r = hd s)"
proof (induction s arbitrary: r rule: canonicalize_percent_encoded.induct)
  case (2 x xs)
  show ?case
  proof (cases "x = CHR ''%''")
    case True
    then obtain a b rest where xs: "xs = a # b # rest" "is_ascii_hexdigit a" "is_ascii_hexdigit b"
      using "2.prems"(1) by (auto split: list.splits if_splits)
    with "2.prems" True obtain q where q: "canonicalize_percent_encoded rest = Ok q"
      "r = CHR ''%'' # ascii_upper a # ascii_upper b # q" by (auto simp: and_then_eq_Ok)
    have "is_ascii rest" using "2.prems"(2) xs by (simp add: is_ascii_def)
    from "2.IH"(1) [OF True xs(1) refl _ q(1) this] xs
    have "\<forall>c\<in>set q. c \<in> set rest \<or> is_ascii_hexdigit c" by blast
    moreover have "is_ascii_hexdigit (ascii_upper a)" "is_ascii_hexdigit (ascii_upper b)"
      using xs(2,3) by (auto simp: is_ascii_hexdigit_def byte_ascii_upper)
    ultimately show ?thesis using q(2) xs(1) True by auto
  next
    case False
    with "2.prems" obtain q where q: "canonicalize_percent_encoded xs = Ok q" "r = push_byte_as_char x @ q"
      by (auto simp: and_then_eq_Ok)
    have "is_ascii xs" "push_byte_as_char x = [x]"
      using "2.prems"(2) by (simp_all add: is_ascii_def push_byte_as_char_def)
    with "2.IH"(2) [OF False q(1)] q(2) show ?thesis by auto
  qed
qed simp

lemma canonical_percent_idem:
  "canonicalize_percent_encoded s = Ok r \<Longrightarrow> is_ascii s \<Longrightarrow> canonicalize_percent_encoded r = Ok r"
proof (induction s arbitrary: r rule: canonicalize_percent_encoded.induct)
  case (2 x xs)
  show ?case
  proof (cases "x = CHR ''%''")
    case True
    then obtain a b rest where xs: "xs = a # b # rest" "is_ascii_hexdigit a" "is_ascii_hexdigit b"
      using "2.prems"(1) by (auto split: list.splits if_splits)
    with "2.prems" True obtain q where q: "canonicalize_percent_encoded rest = Ok q"
      "r = CHR ''%'' # ascii_upper a # ascii_upper b # q" by (auto simp: and_then_eq_Ok)
    have "is_ascii rest" using "2.prems"(2) xs by (simp add: is_ascii_def)
    with "2.IH"(1) [OF True xs(1) refl _ q(1)] xs have "canonicalize_percent_encoded q = Ok q" by blast
    moreover have "is_ascii_hexdigit (ascii_upper a)" "is_ascii_hexdigit (ascii_upper b)"
      using xs(2,3) by (auto simp: is_ascii_hexdigit_def byte_ascii_upper)
    ultimately show ?thesis using q(2) by (simp add: and_then_def)
  next
    case False
    with "2.prems" obtain q where q: "canonicalize_percent_encoded xs = Ok q" "r = push_byte_as_char x @ q"
      by (auto simp: and_then_eq_Ok)
    have "is_ascii xs" "push_byte_as_char x = [x]"
      using "2.prems"(2) by (simp_all add: is_ascii_def push_byte_as_char_def)
    with "2.IH"(2) [OF False q(1)] q(2) False show ?thesis by (simp add: and_then_def)
  qed
qed simp

definition render_pair :: "string \<times> string \<Rightarrow> string" where
  "render_pair p = (case p of (name, value) \<Rightarrow> if value = [] then name else name @ ''='' @ value)"

definition plain_char :: "char \<Rightarrow> bool" where
  "plain_char c \<longleftrightarrow> solid c \<and> c \<noteq> CHR ''#''"

text \<open>What holds of every pair of a canonical query.\<close>

definition pair_ok :: "string \<times> string \<Rightarrow> bool" where
  "pair_ok p \<longleftrightarrow> canonicalize_percent_encoded (fst p) = Ok (fst p) \<and>
     canonicalize_percent_encoded (snd p) = Ok (snd p) \<and> CHR ''='' \<notin> set (fst p) \<and>
     CHR ''&'' \<notin> set (fst p) \<and> CHR ''&'' \<notin> set (snd p) \<and>
     list_all plain_char (fst p @ snd p)"

lemma hexdigit_plain: "is_ascii_hexdigit c \<Longrightarrow> plain_char c \<and> c \<notin> {CHR ''='', CHR ''&'', CHR ''#'', CHR ''?'', CHR ''/''}"
  by (auto simp: is_ascii_hexdigit_def plain_char_def solid_def byte_def)

lemma raw_pairs_ok:
  assumes "canonicalize_raw_pairs raws = Ok pairs" "\<forall>w\<in>set raws. CHR ''&'' \<notin> set w \<and> list_all plain_char w"
  shows "list_all pair_ok pairs"
  using assms
proof (induction raws arbitrary: pairs)
  case (Cons raw rest)
  define nv where "nv = (case split_once CHR ''='' raw of Some nv \<Rightarrow> nv | None \<Rightarrow> (raw, []))"
  have w: "CHR ''&'' \<notin> set raw" "list_all plain_char raw" using Cons.prems(2) by auto
  have nv: "set (fst nv) \<subseteq> set raw" "set (snd nv) \<subseteq> set raw" "CHR ''='' \<notin> set (fst nv)"
    by (auto simp: nv_def split_once_Some split_once_None split: option.splits)
  from Cons.prems(1) obtain n v ps where p: "canonicalize_percent_encoded (fst nv) = Ok n"
    "canonicalize_percent_encoded (snd nv) = Ok v" "canonicalize_raw_pairs rest = Ok ps" "pairs = (n, v) # ps"
    by (auto simp: nv_def [symmetric] and_then_eq_Ok case_prod_beta Let_def split: if_splits)
  have ascii: "is_ascii (fst nv)" "is_ascii (snd nv)"
    using nv w(2) by (auto simp: is_ascii_def list_all_iff plain_char_def solid_def)
  note n = canonical_percent_chars [OF p(1) ascii(1)] and v = canonical_percent_chars [OF p(2) ascii(2)]
  have "pair_ok (n, v)"
    unfolding pair_ok_def fst_conv snd_conv
  proof (intro conjI canonical_percent_idem [OF p(1) ascii(1)] canonical_percent_idem [OF p(2) ascii(2)])
    show "CHR ''='' \<notin> set n" using n nv(3) hexdigit_plain by blast
    show "CHR ''&'' \<notin> set n" "CHR ''&'' \<notin> set v" using n v nv w(1) hexdigit_plain by blast+
    show "list_all plain_char (n @ v)"
      using n v nv w(2) hexdigit_plain unfolding list_all_iff set_append by blast
  qed
  with Cons p(3,4) show ?case by simp
qed simp

lemma render_pairs_canonical:
  "list_all pair_ok pairs \<Longrightarrow> ([], []) \<notin> set pairs \<Longrightarrow> canonicalize_raw_pairs (map render_pair pairs) = Ok pairs"
proof (induction pairs)
  case (Cons p pairs)
  obtain n v where p: "p = (n, v)" by (cases p)
  have ok: "pair_ok (n, v)" "(n, v) \<noteq> ([], [])" "list_all pair_ok pairs" "([], []) \<notin> set pairs"
    using Cons.prems p by auto
  have "(case split_once CHR ''='' (render_pair (n, v)) of None \<Rightarrow> (render_pair (n, v), []) | Some nv \<Rightarrow> nv) = (n, v)"
  proof (cases "v = []")
    case True
    with ok have "split_once CHR ''='' (render_pair (n, v)) = None"
      by (simp add: render_pair_def pair_ok_def split_once_None)
    then show ?thesis using True by (simp add: render_pair_def)
  next
    case False
    with ok have "split_once CHR ''='' (render_pair (n, v)) = Some (n, v)"
      by (simp add: render_pair_def pair_ok_def split_once_Some)
    then show ?thesis by simp
  qed
  moreover have "render_pair (n, v) \<noteq> []" using ok by (auto simp: render_pair_def)
  moreover have "canonicalize_percent_encoded n = Ok n" "canonicalize_percent_encoded v = Ok v"
    using ok(1) by (simp_all add: pair_ok_def)
  ultimately show ?case using Cons.IH [OF ok(3,4)] p by (simp add: and_then_def)
qed simp


lemma canonical_query_render: "canonical_query t = join_str ''&'' (map render_pair (rt_query_pairs t))"
  unfolding canonical_query_def render_pair_def by (rule arg_cong [of _ _ "join_str ''&''"]) simp

lemma split_on_sub: "w \<in> set (split_on c s) \<Longrightarrow> set w \<subseteq> set s"
proof (induction s arbitrary: w)
  case (Cons x xs)
  obtain v vs where "split_on c xs = v # vs" by (cases "split_on c xs") auto
  with Cons show ?case by (fastforce split: if_splits)
qed simp

lemma query_pairs_canonical:
  assumes "canonicalize_query_pairs q = Ok pairs" and "list_all plain_char q"
  shows "list_all pair_ok pairs \<and> sorted pairs"
proof (cases "q = []")
  case False
  then obtain ps where ps: "canonicalize_raw_pairs (split_on CHR ''&'' q) = Ok ps" "pairs = sort ps"
    using assms(1) by (auto simp: canonicalize_query_pairs_def and_then_eq_Ok)
  have "\<forall>w\<in>set (split_on CHR ''&'' q). CHR ''&'' \<notin> set w \<and> list_all plain_char w"
    using split_on_free [of _ "CHR ''&''" q] split_on_sub [of _ "CHR ''&''" q] assms(2)
    unfolding list_all_iff by blast
  from raw_pairs_ok [OF ps(1) this] ps(2) show ?thesis by (simp add: list_all_iff)
qed (use assms in \<open>simp add: canonicalize_query_pairs_def\<close>)

lemma render_query_canonical:
  assumes "list_all pair_ok pairs" "sorted pairs" "([], []) \<notin> set pairs" "pairs \<noteq> []"
  shows "canonicalize_query_pairs (join_str ''&'' (map render_pair pairs)) = Ok pairs"
proof -
  have free: "\<forall>w\<in>set (map render_pair pairs). CHR ''&'' \<notin> set w"
  proof
    fix w assume "w \<in> set (map render_pair pairs)"
    then obtain n v where nv: "(n, v) \<in> set pairs" "w = render_pair (n, v)" by auto
    have "pair_ok (n, v)" using assms(1) nv(1) unfolding list_all_iff by blast
    then show "CHR ''&'' \<notin> set w" unfolding nv(2) by (simp add: pair_ok_def render_pair_def)
  qed
  then have "split_on CHR ''&'' (join_str ''&'' (map render_pair pairs)) = map render_pair pairs"
    using split_join [OF free] assms(4) by simp
  moreover have "join_str ''&'' (map render_pair pairs) \<noteq> []"
  proof
    assume "join_str ''&'' (map render_pair pairs) = []"
    then have "map render_pair pairs = [[]]" using calculation by simp
    then obtain p where "pairs = [p]" "render_pair p = []" by auto
    with assms(3) show False by (cases p) (auto simp: render_pair_def split: if_splits)
  qed
  ultimately show ?thesis
    using render_pairs_canonical [OF assms(1,3)] assms(2)
    by (simp add: canonicalize_query_pairs_def and_then_def sorted_sort_id)
qed

lemma plain_slash: "plain_char CHR ''/''"
  by (simp add: plain_char_def solid_def byte_def)

lemma plain_char_ascii: "list_all plain_char s \<Longrightarrow> is_ascii s"
  by (auto simp: plain_char_def solid_def is_ascii_def list_all_iff)

lemma list_all_sub: "list_all P s \<Longrightarrow> set t \<subseteq> set s \<Longrightarrow> list_all P t"
  by (auto simp: list_all_iff)

lemma split_target_path:
  assumes "split_target target = Ok (a, pq)" and "list_all plain_char target"
  shows "list_all plain_char pq \<and> (pq = [] \<or> hd pq = CHR ''/'')"
proof (cases "prefix ''/'' target")
  case True
  with assms show ?thesis by (cases target) (auto simp: split_target_def)
next
  case False
  then obtain k where k: "find_str ''://'' target = Some k"
    using assms(1) by (auto simp: split_target_def split: option.splits)
  define rest where "rest = drop (k + 3) target"
  define tail where "tail = drop (path_or_query_start rest) rest"
  have "pq = (if tail = [] then ''/'' else if prefix ''?'' tail then [] else tail)"
    using False k assms(1)
    by (auto simp: split_target_def Let_def rest_def tail_def and_then_eq_Ok split: if_splits)
  moreover have "set tail \<subseteq> set target"
    unfolding tail_def rest_def by (meson order.trans set_drop_subset)
  then have "list_all plain_char tail" using assms(2) by (rule list_all_sub [rotated])
  moreover have "hd tail = CHR ''/'' \<or> hd tail = CHR ''?''" if "tail \<noteq> []"
  proof -
    let ?P = "\<lambda>c. c = CHR ''/'' \<or> c = CHR ''?''"
    have ex: "list_ex ?P rest" using that unfolding tail_def path_or_query_start_def find_char_def
      by (cases "list_ex ?P rest") (auto split: if_splits)
    then have "tail = dropWhile (\<lambda>c. \<not> ?P c) rest"
      unfolding tail_def path_or_query_start_def find_char_def
      by (simp add: dropWhile_eq_drop)
    with that hd_dropWhile [of "\<lambda>c. \<not> ?P c" rest] show ?thesis by auto
  qed
  ultimately show ?thesis using plain_slash by (cases tail) auto
qed

lemma split_path_query:
  assumes "split_path_and_query pq = (path, query)" "list_all plain_char pq" "pq = [] \<or> hd pq = CHR ''/''"
  shows "path \<noteq> [] \<and> hd path = CHR ''/'' \<and> CHR ''?'' \<notin> set path \<and> list_all plain_char path \<and> list_all plain_char query"
proof (cases "pq = []")
  case True
  with assms(1) plain_slash show ?thesis by (auto simp: split_path_and_query_def)
next
  case False
  then obtain s where pq: "pq = CHR ''/'' # s" using assms(3) by (cases pq) auto
  show ?thesis
  proof (cases "split_once CHR ''?'' pq")
    case None
    then have "path = pq" "query = []" using assms(1) False by (simp_all add: split_path_and_query_def)
    moreover have "CHR ''?'' \<notin> set pq" using None by (simp add: split_once_None)
    ultimately show ?thesis using assms(2) pq by simp
  next
    case (Some ab)
    obtain x y where ab: "ab = (x, y)" by (cases ab)
    with Some have xy: "pq = x @ CHR ''?'' # y" "CHR ''?'' \<notin> set x" by (simp_all add: split_once_Some)
    then have "x \<noteq> []" using pq by (cases x) auto
    then have "path = x" "query = y" using assms(1) False Some ab by (simp_all add: split_path_and_query_def)
    with xy pq assms(2) \<open>x \<noteq> []\<close> show ?thesis by (cases x) auto
  qed
qed

lemma set_join_str: "set (join_str sep xs) \<subseteq> set sep \<union> (\<Union>x\<in>set xs. set x)"
  by (induction sep xs rule: join_str.induct) auto

lemma pair_ok_plain:
  assumes "list_all pair_ok pairs"
  shows "list_all plain_char (join_str ''&'' (map render_pair pairs))"
proof -
  have "plain_char c" if "p \<in> set pairs" "c \<in> set (render_pair p)" for p c
  proof -
    have "pair_ok p" using assms that(1) by (auto simp: list_all_iff)
    then have "list_all plain_char (fst p @ snd p)" by (simp add: pair_ok_def)
    moreover have "plain_char CHR ''=''" by (simp add: plain_char_def solid_def byte_def)
    ultimately show ?thesis using that(2) by (cases p) (auto simp: render_pair_def list_all_iff split: if_splits)
  qed
  moreover have "plain_char CHR ''&''" by (simp add: plain_char_def solid_def byte_def)
  ultimately show ?thesis
    using set_join_str [of "''&''" "map render_pair pairs"] unfolding list_all_iff by fastforce
qed

text \<open>The origin-form target with the path and the query of a canonical target.\<close>

definition canonical_text :: "canonical_request_target \<Rightarrow> string" where
  "canonical_text t = rt_path t @ (if rt_query_pairs t = [] then [] else ''?'' @ canonical_query t)"

lemma canonical_parts:
  assumes "canonicalize_request_target t = Ok c" and "list_all solid t"
  shows "canonicalize_percent_encoded (rt_path c) = Ok (rt_path c) \<and> rt_path c \<noteq> [] \<and> hd (rt_path c) = CHR ''/'' \<and>
    CHR ''?'' \<notin> set (rt_path c) \<and> list_all plain_char (rt_path c) \<and>
    list_all pair_ok (rt_query_pairs c) \<and> sorted (rt_query_pairs c)"
proof -
  define target where "target = trim t"
  have "set target \<subseteq> set t" unfolding target_def by (rule set_trim)
  moreover from assms(1) obtain a pq where
    no_frag: "CHR ''#'' \<notin> set target" and st: "split_target target = Ok (a, pq)"
    and p: "canonicalize_percent_encoded (fst (split_path_and_query pq)) = Ok (rt_path c)"
    and q: "canonicalize_query_pairs (snd (split_path_and_query pq)) = Ok (rt_query_pairs c)"
    by (auto simp: canonicalize_request_target_def target_def [symmetric] Let_def and_then_eq_Ok
        case_prod_beta split: if_splits)
  ultimately have "list_all plain_char target"
    using assms(2) by (auto simp: list_all_iff plain_char_def)
  note pq = split_target_path [OF st this]
  note path = split_path_query [OF prod.collapse [symmetric] conjunct1 [OF pq] conjunct2 [OF pq]]
  have ascii: "is_ascii (fst (split_path_and_query pq))" using path plain_char_ascii by blast
  note chars = canonical_percent_chars [OF p ascii]
  have "list_all plain_char (rt_path c)" "CHR ''?'' \<notin> set (rt_path c)"
    using chars path hexdigit_plain unfolding list_all_iff by blast+
  moreover have "rt_path c \<noteq> []" "hd (rt_path c) = CHR ''/''" using chars path by auto
  moreover have "list_all pair_ok (rt_query_pairs c) \<and> sorted (rt_query_pairs c)"
    using query_pairs_canonical [OF q] path by blast
  ultimately show ?thesis using canonical_percent_idem [OF p ascii] by blast
qed

text \<open>
  C27. Canonical targets are canonical: take a target of printable ASCII characters that is
  accepted and whose query has no pair with empty name and value, which would be written as
  nothing. When the path and the sorted query of its canonical form are written as a target in
  origin form, canonicalising this text gives the same path and the same query again. The
  authority of an absolute target is not part of that text, so that the result has none.
\<close>

theorem canonical_target_roundtrip:
  assumes "canonicalize_request_target t = Ok c" and "list_all solid t" and "([], []) \<notin> set (rt_query_pairs c)"
  shows "canonicalize_request_target (canonical_text c) = Ok (c\<lparr>rt_authority := None\<rparr>)"
proof -
  note parts = canonical_parts [OF assms(1,2)]
  let ?q = "if rt_query_pairs c = [] then [] else canonical_query c"
  obtain s where s: "rt_path c = CHR ''/'' # s" using parts by (cases "rt_path c") auto
  have "list_all plain_char (canonical_query c)"
    using pair_ok_plain parts unfolding canonical_query_render by blast
  moreover have "plain_char CHR ''?''" by (simp add: plain_char_def solid_def byte_def)
  ultimately have plain: "list_all plain_char (canonical_text c)"
    using parts by (simp add: canonical_text_def)
  have tr: "trim (canonical_text c) = canonical_text c"
  proof (rule trim_solid)
    have "canonical_text c \<noteq> []" using s by (simp add: canonical_text_def)
    with plain show "canonical_text c = [] \<or> solid (hd (canonical_text c)) \<and> solid (last (canonical_text c))"
      by (auto simp: list_all_iff plain_char_def)
  qed
  have hash: "CHR ''#'' \<notin> set (canonical_text c)" using plain by (auto simp: list_all_iff plain_char_def)
  have st: "split_target (canonical_text c) = Ok (None, canonical_text c)"
    using s by (simp add: split_target_def canonical_text_def)
  have sp: "split_path_and_query (canonical_text c) = (rt_path c, ?q)"
  proof (cases "rt_query_pairs c = []")
    case True
    then have "split_once CHR ''?'' (canonical_text c) = None"
      using parts by (simp add: canonical_text_def split_once_None)
    with True s show ?thesis by (simp add: split_path_and_query_def canonical_text_def)
  next
    case False
    then have "split_once CHR ''?'' (canonical_text c) = Some (rt_path c, canonical_query c)"
      using parts by (simp add: canonical_text_def split_once_Some)
    with False s show ?thesis by (simp add: split_path_and_query_def canonical_text_def)
  qed
  have q: "canonicalize_query_pairs ?q = Ok (rt_query_pairs c)"
    using render_query_canonical [of "rt_query_pairs c"] parts assms(3)
    by (simp add: canonical_query_render) (simp add: canonicalize_query_pairs_def)
  have "canonical_text c \<noteq> []" "canonical_text c \<noteq> ''*''" using s by (simp_all add: canonical_text_def)
  with tr hash st sp q parts show ?thesis
    by (simp add: canonicalize_request_target_def Let_def and_then_def)
qed

definition sample_target :: string where
  "sample_target = ''http://Example.test/a%2fb?z=1&a=%c3&flag''"

lemma sample_target_facts:
  "canonicalize_request_target sample_target =
     Ok \<lparr>rt_authority = Some ''example.test'', rt_path = ''/a%2Fb'',
         rt_query_pairs = [(''a'', ''%C3''), (''flag'', []), (''z'', ''1'')]\<rparr>"
  "list_all solid sample_target"
  by code_simp+

theorem canonical_target_roundtrip_witness:
  "canonicalize_request_target ''/a%2Fb?a=%C3&flag&z=1'' =
     Ok \<lparr>rt_authority = None, rt_path = ''/a%2Fb'',
         rt_query_pairs = [(''a'', ''%C3''), (''flag'', []), (''z'', ''1'')]\<rparr>"
  using canonical_target_roundtrip [OF sample_target_facts]
  by (simp add: canonical_text_def canonical_query_def)

text \<open>
  Two defects of the canonical form: the query of an absolute-form target without a path is
  lost, and a byte outside ASCII is encoded once more each time.
\<close>

lemma absolute_query_lost:
  "canonicalize_request_target ''http://example.test?admin=1'' =
     Ok \<lparr>rt_authority = Some ''example.test'', rt_path = ''/'', rt_query_pairs = []\<rparr>"
  by code_simp

lemma non_ascii_encoded_again:
  "canonicalize_percent_encoded [CHR 0xC3, CHR 0xA9] = Ok [CHR 0xC3, CHR 0x83, CHR 0xC2, CHR 0xA9]"
  by code_simp

end
