(* ===== verification/Http_Message.thy ===== *)
theory Http_Message
  imports Http_Routing
begin

text \<open>
  \<open>crates/proto-http/src/lib.rs\<close>, second part: reading and writing HTTP/1.1 message heads,
  the framing of the body, the hardening checks, and the normalisation of the headers that
  are forwarded.

  The byte stream and the package \<open>httparse\<close> are parameters: a read takes the space in the
  buffer and returns bytes or an error, and a parse takes the number of header slots and the
  bytes of the head.
\<close>

section \<open>Types\<close>

datatype body_kind = BodyNone | ContentLength nat | Chunked | CloseDelimited

record http1_request_head =
  rq_method :: string
  rq_target :: string
  rq_version :: supported_http_version
  rq_headers :: "http_header list"
  rq_body_kind :: body_kind
  rq_keep_alive :: bool
  rq_route :: "route_match option"
  rq_http10 :: bool

record http1_response_head =
  rp_version :: supported_http_version
  rp_status :: nat
  rp_reason :: string
  rp_headers :: "http_header list"
  rp_body_kind :: body_kind
  rp_keep_alive :: bool

datatype 'e http1_parse_error =
    ParseIo 'e
  | IncompleteHead
  | HeadTooLarge
  | TooManyHeaders
  | Invalid string

datatype protocol_hardening_error =
    AmbiguousMessageLength
  | UnsupportedTransferEncoding
  | MissingHost
  | MultipleHostHeaders

fun hardening_message :: "protocol_hardening_error \<Rightarrow> string" where
  "hardening_message AmbiguousMessageLength = ''ambiguous content-length and transfer-encoding''"
| "hardening_message UnsupportedTransferEncoding = ''unsupported transfer-encoding chain''"
| "hardening_message MissingHost = ''missing required host header''"
| "hardening_message MultipleHostHeaders = ''multiple host headers are not allowed''"

fun hardening_display :: "protocol_hardening_error \<Rightarrow> string" where
  "hardening_display AmbiguousMessageLength = ''ambiguous content-length and transfer-encoding''"
| "hardening_display UnsupportedTransferEncoding = ''unsupported transfer-encoding chain''"
| "hardening_display MissingHost = ''missing required host header''"
| "hardening_display MultipleHostHeaders = ''multiple host headers are not allowed''"

fun parse_error_display :: "('e \<Rightarrow> string) \<Rightarrow> 'e http1_parse_error \<Rightarrow> string" where
  "parse_error_display show_io (ParseIo source) = ''HTTP/1.1 I/O failure: '' @ show_io source"
| "parse_error_display show_io IncompleteHead = ''incomplete HTTP/1.1 head''"
| "parse_error_display show_io HeadTooLarge = ''HTTP/1.1 head exceeded configured limit''"
| "parse_error_display show_io TooManyHeaders = ''HTTP/1.1 message exceeded header count limit''"
| "parse_error_display show_io (Invalid message) = ''invalid HTTP/1.1 message: '' @ message"

text \<open>The results of the package \<open>httparse\<close> that the code distinguishes.\<close>

datatype httparse_error =
  ParseTooManyHeaders | ParseVersion | ParseStatus | ParseToken | ParseNewLine | ParseHeaderName | ParseHeaderValue

datatype 'a httparse_status = Complete nat 'a | Partial

record parsed_request =
  pq_method :: "string option"
  pq_path :: "string option"
  pq_version :: "nat option"
  pq_headers :: "(string \<times> string) list"

record parsed_response =
  ps_version :: "nat option"
  ps_code :: "nat option"
  ps_reason :: "string option"
  ps_headers :: "(string \<times> string) list"

type_synonym 'a httparse = "nat \<Rightarrow> string \<Rightarrow> ('a httparse_status, httparse_error) result"

type_synonym ('r, 'e) byte_reader = "nat \<Rightarrow> 'r \<Rightarrow> (string, 'e) result \<times> 'r"

fun map_httparse_error :: "httparse_error \<Rightarrow> 'e http1_parse_error" where
  "map_httparse_error ParseTooManyHeaders = TooManyHeaders"
| "map_httparse_error _ = Invalid ''malformed HTTP/1.1 head''"

section \<open>Header lists\<close>

text \<open>The comma-separated entries of all headers of a name, trimmed.\<close>

definition header_entries :: "string \<Rightarrow> http_header list \<Rightarrow> string list" where
  "header_entries name headers =
     map trim (concat (map (\<lambda>h. split_on CHR '','' (hh_value h)) (filter (has_name name) headers)))"

definition header_value_contains_token :: "http_header list \<Rightarrow> string \<Rightarrow> string \<Rightarrow> bool" where
  "header_value_contains_token headers name token \<longleftrightarrow>
     list_ex (\<lambda>candidate. eq_ignore_ascii_case candidate token) (header_entries name headers)"

definition transfer_coding_tokens :: "http_header list \<Rightarrow> string list" where
  "transfer_coding_tokens headers = filter (\<lambda>token. token \<noteq> []) (header_entries ''transfer-encoding'' headers)"

definition has_non_chunked_transfer_coding :: "http_header list \<Rightarrow> bool" where
  "has_non_chunked_transfer_coding headers \<longleftrightarrow>
     list_ex (\<lambda>token. \<not> eq_ignore_ascii_case token ''chunked'') (transfer_coding_tokens headers)"

definition connection_tokens :: "http_header list \<Rightarrow> string list" where
  "connection_tokens headers =
     map to_ascii_lowercase (filter (\<lambda>token. token \<noteq> []) (header_entries ''connection'' headers))"

definition extract_host_header :: "http_header list \<Rightarrow> string option" where
  "extract_host_header headers = map_option hh_value (find (has_name ''host'') headers)"

definition validate_http1_request_hardening :: "http_header list \<Rightarrow> (unit, protocol_hardening_error) result" where
  "validate_http1_request_hardening headers =
     (let host_count = length (filter (has_name ''host'') headers)
      in if host_count = 0 then Err MissingHost
         else if host_count > 1 then Err MultipleHostHeaders
         else if list_ex (has_name ''content-length'') headers \<and> list_ex (has_name ''transfer-encoding'') headers
         then Err AmbiguousMessageLength
         else if transfer_coding_tokens headers \<noteq> [] \<and>
              list_ex (\<lambda>token. \<not> eq_ignore_ascii_case token ''chunked'') (transfer_coding_tokens headers)
         then Err UnsupportedTransferEncoding
         else Ok ())"

section \<open>Framing\<close>

definition detect_body_kind :: "http_header list \<Rightarrow> (body_kind, 'e http1_parse_error) result" where
  "detect_body_kind headers =
     (if header_value_contains_token headers ''transfer-encoding'' ''chunked'' then Ok Chunked
      else case map hh_value (filter (has_name ''content-length'') headers) of
        [] \<Rightarrow> Ok BodyNone
      | v # rest \<Rightarrow>
          let first = trim v
          in if list_ex (\<lambda>candidate. trim candidate \<noteq> first) rest
             then Err (Invalid ''conflicting content-length headers'')
             else if first = [] \<or> \<not> list_all is_ascii_digit first
             then Err (Invalid ''invalid content-length header'')
             else (case parse_u64 first of
                     None \<Rightarrow> Err (Invalid ''invalid content-length header'')
                   | Some n \<Rightarrow> Ok (if n = 0 then BodyNone else ContentLength n)))"

definition detect_request_body_kind :: "http_header list \<Rightarrow> (body_kind, 'e http1_parse_error) result" where
  "detect_request_body_kind headers = detect_body_kind headers"

definition detect_response_body_kind ::
  "http_header list \<Rightarrow> nat \<Rightarrow> string \<Rightarrow> (body_kind, 'e http1_parse_error) result" where
  "detect_response_body_kind headers status request_method =
     (if eq_ignore_ascii_case request_method ''HEAD'' \<or> 100 \<le> status \<and> status \<le> 199 \<or> status = 204 \<or> status = 304
      then Ok BodyNone
      else let transfer_codings = transfer_coding_tokens headers
           in if transfer_codings \<noteq> []
              then Ok (if eq_ignore_ascii_case (last transfer_codings) ''chunked'' then Chunked else CloseDelimited)
              else and_then (detect_body_kind headers) (\<lambda>kind.
                Ok (if kind = BodyNone \<and> \<not> list_ex (has_name ''content-length'') headers
                    then CloseDelimited else kind)))"

definition response_has_conflicting_framing :: "http_header list \<Rightarrow> bool" where
  "response_has_conflicting_framing headers \<longleftrightarrow>
     list_ex (has_name ''transfer-encoding'') headers \<and> list_ex (has_name ''content-length'') headers"

fun detect_keep_alive :: "http_header list \<Rightarrow> supported_http_version \<Rightarrow> bool" where
  "detect_keep_alive headers Http1 = (\<not> header_value_contains_token headers ''connection'' ''close'')"
| "detect_keep_alive headers Http2 = True"

section \<open>Forwarded headers\<close>

definition hop_by_hop :: "string list" where
  "hop_by_hop =
     [''connection'', ''proxy-connection'', ''keep-alive'', ''upgrade'', ''proxy-authenticate'',
      ''proxy-authorization'', ''te'', ''trailer'', ''x-forwarded-for'', ''x-forwarded-proto'']"

definition is_content_length :: "body_kind \<Rightarrow> bool" where
  "is_content_length k = (case k of ContentLength _ \<Rightarrow> True | _ \<Rightarrow> False)"

definition keeps_header :: "string list \<Rightarrow> body_kind \<Rightarrow> bool \<Rightarrow> http_header \<Rightarrow> bool" where
  "keeps_header nominated kind is_response h =
     (if list_ex (\<lambda>name. has_name name h) hop_by_hop \<or>
         list_ex (\<lambda>token. eq_ignore_ascii_case token (hh_name h)) nominated then False
      else if has_name ''transfer-encoding'' h then kind = Chunked
      else if has_name ''content-length'' h then is_content_length kind
      else if is_response \<and> has_name ''server'' h then True
      else True)"

definition filter_headers :: "http_header list \<Rightarrow> body_kind \<Rightarrow> bool \<Rightarrow> http_header list" where
  "filter_headers headers kind is_response =
     filter (keeps_header (connection_tokens headers) kind is_response) headers"

definition header :: "string \<Rightarrow> string \<Rightarrow> http_header" where
  "header name value = \<lparr>hh_name = name, hh_value = value\<rparr>"

definition normalize_request_headers ::
  "http_header list \<Rightarrow> ip_addr \<Rightarrow> bool \<Rightarrow> body_kind \<Rightarrow> http_header list" where
  "normalize_request_headers headers client_ip keep_alive kind =
     filter_headers headers kind False @ [header ''x-forwarded-for'' (ip_show client_ip)] @
     (if keep_alive then [] else [header ''connection'' ''close''])"

definition normalize_response_headers :: "http_header list \<Rightarrow> bool \<Rightarrow> body_kind \<Rightarrow> http_header list" where
  "normalize_response_headers headers keep_alive kind =
     filter_headers headers kind True @
     (if kind = CloseDelimited
      then [header ''transfer-encoding''
              (join_str '', '' (filter (\<lambda>token. \<not> eq_ignore_ascii_case token ''chunked'')
                 (transfer_coding_tokens headers) @ [''chunked'']))]
      else []) @
     (if keep_alive then [] else [header ''connection'' ''close''])"

section \<open>Writing heads\<close>

definition crlf :: string where
  "crlf = [CHR 0x0D, CHR 0x0A]"

fun version_text :: "supported_http_version \<Rightarrow> string" where
  "version_text Http1 = ''HTTP/1.1''"
| "version_text Http2 = ''HTTP/2''"

definition default_reason :: "nat \<Rightarrow> string" where
  "default_reason status =
     (case map_of [(200, ''OK''), (201, ''Created''), (202, ''Accepted''), (204, ''No Content''),
          (400, ''Bad Request''), (403, ''Forbidden''), (404, ''Not Found''), (413, ''Payload Too Large''),
          (500, ''Internal Server Error''), (502, ''Bad Gateway''), (504, ''Gateway Timeout'')] status of
        None \<Rightarrow> [] | Some text \<Rightarrow> text)"

definition append_headers :: "string \<Rightarrow> http_header list \<Rightarrow> string" where
  "append_headers bytes headers =
     bytes @ concat (map (\<lambda>h. hh_name h @ '': '' @ hh_value h @ crlf) headers) @ crlf"

definition encode_request_head ::
  "string \<Rightarrow> string \<Rightarrow> supported_http_version \<Rightarrow> http_header list \<Rightarrow> string" where
  "encode_request_head meth target version headers =
     append_headers (meth @ '' '' @ target @ '' '' @ version_text version @ crlf) headers"

definition encode_response_head ::
  "supported_http_version \<Rightarrow> nat \<Rightarrow> string \<Rightarrow> http_header list \<Rightarrow> string" where
  "encode_response_head version status reason headers =
     (let reason = (if reason = [] then default_reason status else reason)
      in append_headers (version_text version @ '' '' @ show_nat status @ '' '' @ reason @ crlf) headers)"

section \<open>Reading heads\<close>

definition find_head_end :: "string \<Rightarrow> nat option" where
  "find_head_end buffer = map_option (\<lambda>i. i + 4) (find_str (crlf @ crlf) buffer)"

text \<open>
  The loop ends: a round that does not return adds at least one byte to the buffer, and the
  buffer never grows past its limit before the loop returns.
\<close>

function fill_until_head_end ::
  "('r, 'e) byte_reader \<Rightarrow> http1_limits \<Rightarrow> 'r \<Rightarrow> string \<Rightarrow>
     (nat option, 'e http1_parse_error) result \<times> 'r \<times> string" where
  "fill_until_head_end read limits r buffer =
     (case find_head_end buffer of
        Some p \<Rightarrow> (Ok (Some p), r, buffer)
      | None \<Rightarrow>
          if length buffer \<ge> hl_max_head_bytes limits then (Err HeadTooLarge, r, buffer)
          else case read (min (hl_max_head_bytes limits - length buffer) 1024) r of
            (Inl e, r') \<Rightarrow> (Err (ParseIo e), r', buffer)
          | (Inr bytes, r') \<Rightarrow>
              if bytes = [] then (if buffer = [] then Ok None else Err IncompleteHead, r', buffer)
              else fill_until_head_end read limits r' (buffer @ bytes))"
  by pat_completeness auto

termination
  by (relation "measure (\<lambda>(read, limits, r, buffer). hl_max_head_bytes limits - length buffer)")
    (auto simp: neq_Nil_conv)

declare fill_until_head_end.simps [simp del]

definition parse_version :: "nat option \<Rightarrow> (supported_http_version, 'e http1_parse_error) result" where
  "parse_version version =
     (case version of
        None \<Rightarrow> Err (Invalid ''missing HTTP version'')
      | Some v \<Rightarrow> if v = 1 then Ok Http1 else Err (Invalid ''unsupported HTTP version''))"

fun owned_headers :: "(string \<times> string) list \<Rightarrow> (http_header list, 'e http1_parse_error) result" where
  "owned_headers [] = Ok []"
| "owned_headers ((name, value) # rest) =
     (if \<not> utf8_valid value then Err (Invalid ''header value is not valid ASCII/UTF-8'')
      else and_then (owned_headers rest) (\<lambda>hs.
        Ok (\<lparr>hh_name = to_ascii_lowercase name, hh_value = trim value\<rparr> # hs)))"

definition absolute_form_authority :: "string \<Rightarrow> (string option, 'e http1_parse_error) result" where
  "absolute_form_authority target =
     (if prefix ''/'' target then Ok None
      else case find_str ''://'' target of
        None \<Rightarrow> Ok None
      | Some scheme_end \<Rightarrow>
          if \<not> http_scheme (take scheme_end target)
          then Err (Invalid ''unsupported absolute-form request target'')
          else let remainder = drop (scheme_end + 3) target;
                   authority = take (path_or_query_start remainder) remainder
               in if \<not> is_ok (canonicalize_host authority)
                  then Err (Invalid ''invalid absolute-form request authority'')
                  else Ok (Some authority))"

definition replace_host :: "string option \<Rightarrow> http_header list \<Rightarrow> http_header list" where
  "replace_host authority headers =
     (case authority of
        None \<Rightarrow> headers
      | Some a \<Rightarrow> map (\<lambda>h. if hh_name h = ''host'' then h\<lparr>hh_value := a\<rparr> else h) headers)"

text \<open>What is made of the request once \<open>httparse\<close> has split it.\<close>

definition request_of_parsed ::
  "('n \<Rightarrow> ip_addr \<Rightarrow> bool) \<Rightarrow> 'n route_prefix_rule list \<Rightarrow> parsed_request \<Rightarrow>
     (http1_request_head, 'e http1_parse_error) result" where
  "request_of_parsed contains routes request =
     and_then (ok_or (Invalid ''missing request method'') (pq_method request)) (\<lambda>meth.
     and_then (ok_or (Invalid ''missing request target'') (pq_path request)) (\<lambda>target.
     let http10 = (pq_version request = Some 0) in
     and_then (if http10 then Ok Http1 else parse_version (pq_version request)) (\<lambda>version.
     and_then (owned_headers (pq_headers request)) (\<lambda>headers.
     and_then (map_err (\<lambda>e. Invalid (hardening_message e)) (validate_http1_request_hardening headers)) (\<lambda>_.
     and_then (absolute_form_authority target) (\<lambda>authority.
     let headers = replace_host authority headers in
     and_then (detect_request_body_kind headers) (\<lambda>kind.
       Ok \<lparr>rq_method = meth, rq_target = target, rq_version = version, rq_headers = headers,
           rq_body_kind = kind, rq_keep_alive = (\<not> http10 \<and> detect_keep_alive headers version),
           rq_route = match_route contains target (extract_host_header headers) (Some meth) routes,
           rq_http10 = http10\<rparr>)))))))"

definition read_request_head ::
  "('r, 'e) byte_reader \<Rightarrow> parsed_request httparse \<Rightarrow> ('n \<Rightarrow> ip_addr \<Rightarrow> bool) \<Rightarrow> http1_limits \<Rightarrow>
     'n route_prefix_rule list \<Rightarrow> 'r \<Rightarrow> string \<Rightarrow>
     (http1_request_head option, 'e http1_parse_error) result \<times> 'r \<times> string" where
  "read_request_head read parse contains limits routes r buffer =
     (case fill_until_head_end read limits r buffer of
        (Inl e, r, buffer) \<Rightarrow> (Err e, r, buffer)
      | (Inr None, r, buffer) \<Rightarrow> (Ok None, r, buffer)
      | (Inr (Some head_end), r, buffer) \<Rightarrow>
          (case parse (hl_max_header_count limits) (take head_end buffer) of
             Inl e \<Rightarrow> (Err (map_httparse_error e), r, buffer)
           | Inr Partial \<Rightarrow> (Err IncompleteHead, r, buffer)
           | Inr (Complete consumed request) \<Rightarrow>
               (case request_of_parsed contains routes request of
                  Inl e \<Rightarrow> (Err e, r, buffer)
                | Inr head \<Rightarrow> (Ok (Some head), r, drop consumed buffer))))"

definition response_of_parsed :: "string \<Rightarrow> parsed_response \<Rightarrow> (http1_response_head, 'e http1_parse_error) result" where
  "response_of_parsed request_method response =
     (let is_http10 = (ps_version response = Some 0) in
      and_then (if is_http10 then Ok Http1 else parse_version (ps_version response)) (\<lambda>version.
      and_then (ok_or (Invalid ''missing status code'') (ps_code response)) (\<lambda>status.
      and_then (owned_headers (ps_headers response)) (\<lambda>headers.
      and_then (detect_response_body_kind headers status request_method) (\<lambda>kind.
        Ok \<lparr>rp_version = version, rp_status = status,
            rp_reason = (case ps_reason response of None \<Rightarrow> [] | Some text \<Rightarrow> text),
            rp_headers = headers, rp_body_kind = kind,
            rp_keep_alive =
              ((if is_http10
                then header_value_contains_token headers ''connection'' ''keep-alive'' \<and>
                  \<not> header_value_contains_token headers ''connection'' ''close''
                else detect_keep_alive headers version) \<and>
               kind \<noteq> CloseDelimited \<and> \<not> response_has_conflicting_framing headers)\<rparr>)))))"

definition read_response_head ::
  "('r, 'e) byte_reader \<Rightarrow> parsed_response httparse \<Rightarrow> http1_limits \<Rightarrow> string \<Rightarrow> 'r \<Rightarrow> string \<Rightarrow>
     (http1_response_head, 'e http1_parse_error) result \<times> 'r \<times> string" where
  "read_response_head read parse limits request_method r buffer =
     (case fill_until_head_end read limits r buffer of
        (Inl e, r, buffer) \<Rightarrow> (Err e, r, buffer)
      | (Inr None, r, buffer) \<Rightarrow> (Err IncompleteHead, r, buffer)
      | (Inr (Some head_end), r, buffer) \<Rightarrow>
          (case parse (hl_max_header_count limits) (take head_end buffer) of
             Inl e \<Rightarrow> (Err (map_httparse_error e), r, buffer)
           | Inr Partial \<Rightarrow> (Err IncompleteHead, r, buffer)
           | Inr (Complete consumed response) \<Rightarrow>
               (case response_of_parsed request_method response of
                  Inl e \<Rightarrow> (Err e, r, buffer)
                | Inr head \<Rightarrow> (Ok head, r, drop consumed buffer))))"

section \<open>Forwarded headers\<close>

lemma has_name_cong: "eq_ignore_ascii_case a b \<Longrightarrow> has_name a h = has_name b h"
  by (auto simp: has_name_def eq_ignore_ascii_case_def)

lemma has_name_unique: "has_name a h \<Longrightarrow> has_name b h \<Longrightarrow> eq_ignore_ascii_case a b"
  by (auto simp: has_name_def eq_ignore_ascii_case_def)

text \<open>
  The names of a list of header names: no name of a fixed header is a hop-by-hop name, and
  different fixed names are different up to case.
\<close>

lemma framing_names:
  "\<not> eq_ignore_ascii_case ''transfer-encoding'' ''content-length''"
  "\<not> list_ex (eq_ignore_ascii_case ''transfer-encoding'') hop_by_hop"
  "\<not> list_ex (eq_ignore_ascii_case ''content-length'') hop_by_hop"
  "\<not> eq_ignore_ascii_case ''transfer-encoding'' ''x-forwarded-for''"
  "\<not> eq_ignore_ascii_case ''content-length'' ''x-forwarded-for''"
  "\<not> eq_ignore_ascii_case ''transfer-encoding'' ''connection''"
  "\<not> eq_ignore_ascii_case ''content-length'' ''connection''"
  by code_simp+

definition nominated :: "http_header list \<Rightarrow> string \<Rightarrow> bool" where
  "nominated headers name \<longleftrightarrow> list_ex (\<lambda>token. eq_ignore_ascii_case token name) (connection_tokens headers)"

lemma nominated_cong: "eq_ignore_ascii_case a b \<Longrightarrow> nominated headers a = nominated headers b"
  by (simp add: nominated_def eq_ignore_ascii_case_def)

lemma keeps_header_iff:
  "keeps_header (connection_tokens headers) kind is_response h \<longleftrightarrow>
     \<not> list_ex (\<lambda>name. has_name name h) hop_by_hop \<and> \<not> nominated headers (hh_name h) \<and>
     (has_name ''transfer-encoding'' h \<longrightarrow> kind = Chunked) \<and>
     (has_name ''content-length'' h \<and> \<not> has_name ''transfer-encoding'' h \<longrightarrow> is_content_length kind)"
  by (auto simp: keeps_header_def nominated_def)

lemma filter_named:
  assumes "\<not> list_ex (eq_ignore_ascii_case name) hop_by_hop" and "\<not> nominated headers name"
    and "eq_ignore_ascii_case name ''transfer-encoding'' \<or> eq_ignore_ascii_case name ''content-length''"
  shows "filter (has_name name) (filter_headers headers kind is_response) =
    (if (if eq_ignore_ascii_case name ''transfer-encoding'' then kind = Chunked else is_content_length kind)
     then filter (has_name name) headers else [])"
proof -
  have "has_name name h \<and> keeps_header (connection_tokens headers) kind is_response h \<longleftrightarrow> has_name name h \<and>
      (if eq_ignore_ascii_case name ''transfer-encoding'' then kind = Chunked else is_content_length kind)" for h
  proof (cases "has_name name h")
    case True
    have "\<not> list_ex (\<lambda>n. has_name n h) hop_by_hop"
      using assms(1) True has_name_unique [OF True] by (auto simp: list_ex_iff)
    moreover have "\<not> nominated headers (hh_name h)"
      using assms(2) nominated_cong [of "hh_name h" name headers] True by (simp add: has_name_def)
    moreover have "has_name n h \<longleftrightarrow> eq_ignore_ascii_case name n" for n
      using True has_name_unique [OF True] has_name_cong [of name n h] by blast
    ultimately show ?thesis using assms(3) framing_names(1) True
      unfolding keeps_header_iff by (auto simp: eq_ignore_ascii_case_def)
  qed simp
  then have eq: "(\<lambda>h. keeps_header (connection_tokens headers) kind is_response h \<and> has_name name h) =
      (\<lambda>h. has_name name h \<and>
        (if eq_ignore_ascii_case name ''transfer-encoding'' then kind = Chunked else is_content_length kind))"
    by (simp only: conj_commute [of "keeps_header _ _ _ _"])
  show ?thesis unfolding filter_headers_def filter_filter eq by simp
qed

lemma header_entries_filter: "header_entries name headers = header_entries name (filter (has_name name) headers)"
  by (simp add: header_entries_def)

lemma detect_body_kind_cong:
  assumes "filter (has_name ''transfer-encoding'') hs = filter (has_name ''transfer-encoding'') hs'"
    and "filter (has_name ''content-length'') hs = filter (has_name ''content-length'') hs'"
  shows "detect_body_kind hs = detect_body_kind hs'"
proof -
  have "header_value_contains_token hs ''transfer-encoding'' ''chunked'' =
      header_value_contains_token hs' ''transfer-encoding'' ''chunked''"
    using assms(1) header_entries_filter [of "''transfer-encoding''" hs]
      header_entries_filter [of "''transfer-encoding''" hs'] by (simp add: header_value_contains_token_def)
  with assms(2) show ?thesis by (simp add: detect_body_kind_def)
qed

lemma request_extra_headers:
  "filter (has_name name) (normalize_request_headers headers ip ka kind) =
     filter (has_name name) (filter_headers headers kind False)"
  if "name \<in> {''transfer-encoding'', ''content-length''}"
  using that framing_names
  by (auto simp: normalize_request_headers_def header_def has_name_def eq_ignore_case_sym)

text \<open>No framing header is listed in the \<open>Connection\<close> header.\<close>

definition framing_not_nominated :: "http_header list \<Rightarrow> bool" where
  "framing_not_nominated headers \<longleftrightarrow>
     \<not> nominated headers ''transfer-encoding'' \<and> \<not> nominated headers ''content-length''"

lemma forwarded_framing:
  assumes "framing_not_nominated headers"
  shows "filter (has_name ''transfer-encoding'') (normalize_request_headers headers ip ka kind) =
      (if kind = Chunked then filter (has_name ''transfer-encoding'') headers else [])"
    "filter (has_name ''content-length'') (normalize_request_headers headers ip ka kind) =
      (if is_content_length kind then filter (has_name ''content-length'') headers else [])"
  using assms framing_names
  by (simp_all add: request_extra_headers filter_named framing_not_nominated_def eq_ignore_case_sym)

lemma no_transfer_encoding:
  "filter (has_name ''transfer-encoding'') hs = [] \<Longrightarrow> \<not> header_value_contains_token hs ''transfer-encoding'' token"
  by (simp add: header_value_contains_token_def header_entries_def)

lemma detect_body_kind_cases:
  assumes "detect_body_kind headers = Ok kind"
  shows "kind \<noteq> CloseDelimited \<and> (kind = Chunked \<longleftrightarrow> header_value_contains_token headers ''transfer-encoding'' ''chunked'') \<and>
    (is_content_length kind \<longrightarrow> filter (has_name ''content-length'') headers \<noteq> [])"
  using assms by (auto simp: detect_body_kind_def is_content_length_def Let_def split: if_splits list.splits option.splits)

text \<open>
  C7. Forwarding keeps the framing: when a request that passed the hardening checks is
  forwarded and its \<open>Connection\<close> header lists neither of the two framing headers, the
  forwarded headers describe the same body as the received ones, and they never contain
  both framing headers, so that the next server sees the message end where this one does.
\<close>

theorem forwarding_keeps_framing:
  assumes "validate_http1_request_hardening headers = Ok ()"
    and "detect_request_body_kind headers = (Ok kind :: (body_kind, 'e http1_parse_error) result)"
    and "framing_not_nominated headers"
  shows "detect_request_body_kind (normalize_request_headers headers ip ka kind) =
      (Ok kind :: (body_kind, 'e http1_parse_error) result) \<and>
    \<not> response_has_conflicting_framing (normalize_request_headers headers ip ka kind)"
proof -
  let ?hs = "normalize_request_headers headers ip ka kind"
  note f = forwarded_framing [OF assms(3), of ip ka kind]
  note k = detect_body_kind_cases [OF assms(2) [unfolded detect_request_body_kind_def]]
  have ex: "list_ex (has_name n) xs \<longleftrightarrow> filter (has_name n) xs \<noteq> []" for n xs
    by (auto simp: list_ex_iff filter_empty_conv)
  have excl: "filter (has_name ''content-length'') headers = [] \<or> filter (has_name ''transfer-encoding'') headers = []"
    using assms(1) by (auto simp: validate_http1_request_hardening_def Let_def ex split: if_splits)
  have "detect_body_kind ?hs = (Ok kind :: (body_kind, 'e http1_parse_error) result)"
  proof (cases kind)
    case BodyNone
    then have "filter (has_name ''transfer-encoding'') ?hs = []" "filter (has_name ''content-length'') ?hs = []"
      using f by (simp_all add: is_content_length_def)
    with BodyNone no_transfer_encoding show ?thesis by (simp add: detect_body_kind_def)
  next
    case (ContentLength n)
    with k have cl: "filter (has_name ''content-length'') headers \<noteq> []" by (simp add: is_content_length_def)
    with excl have "filter (has_name ''transfer-encoding'') headers = []" by simp
    with ContentLength f have same: "filter (has_name ''transfer-encoding'') ?hs = filter (has_name ''transfer-encoding'') headers"
      "filter (has_name ''content-length'') ?hs = filter (has_name ''content-length'') headers"
      by (simp_all add: is_content_length_def)
    show ?thesis using assms(2) unfolding detect_request_body_kind_def detect_body_kind_cong [OF same] .
  next
    case Chunked
    with k have "header_value_contains_token headers ''transfer-encoding'' ''chunked''" by simp
    with Chunked f have "header_value_contains_token ?hs ''transfer-encoding'' ''chunked''"
      using header_entries_filter [of "''transfer-encoding''" headers] header_entries_filter [of "''transfer-encoding''" ?hs]
      by (simp add: header_value_contains_token_def)
    with Chunked show ?thesis by (simp add: detect_body_kind_def)
  next
    case CloseDelimited
    with k show ?thesis by simp
  qed
  moreover have "\<not> response_has_conflicting_framing ?hs"
    using f excl by (cases kind) (simp_all add: response_has_conflicting_framing_def ex is_content_length_def)
  ultimately show ?thesis by (simp add: detect_request_body_kind_def)
qed

definition sample_headers :: "http_header list" where
  "sample_headers = [header ''host'' ''a.test'', header ''content-length'' ''5'', header ''connection'' ''keep-alive'']"

lemma sample_headers_facts:
  "validate_http1_request_hardening sample_headers = Ok ()"
  "(detect_request_body_kind sample_headers :: (body_kind, unit http1_parse_error) result) = Ok (ContentLength 5)"
  "framing_not_nominated sample_headers"
  by code_simp+

theorem forwarding_keeps_framing_witness:
  "(detect_request_body_kind (normalize_request_headers sample_headers (V4 0x7f000001) True (ContentLength 5))
     :: (body_kind, unit http1_parse_error) result) = Ok (ContentLength 5)"
  using forwarding_keeps_framing [OF sample_headers_facts(1,2,3)] by blast

definition smuggling_headers :: "http_header list" where
  "smuggling_headers =
     [header ''host'' ''a.test'', header ''content-length'' ''5'', header ''connection'' ''content-length'']"


definition named_by_connection :: "http_header list \<Rightarrow> string \<Rightarrow> bool" where
  "named_by_connection headers name \<longleftrightarrow>
     (\<exists>c\<in>set headers. to_ascii_lowercase (hh_name c) = ''connection'' \<and>
        (\<exists>option\<in>set (split_on CHR '','' (hh_value c)).
           trim option \<noteq> [] \<and> to_ascii_lowercase (trim option) = to_ascii_lowercase name))"




lemma lower_literals:
  "to_ascii_lowercase ''connection'' = ''connection''" "to_ascii_lowercase ''proxy-connection'' = ''proxy-connection''"
  "to_ascii_lowercase ''keep-alive'' = ''keep-alive''" "to_ascii_lowercase ''upgrade'' = ''upgrade''"
  "to_ascii_lowercase ''proxy-authenticate'' = ''proxy-authenticate''"
  "to_ascii_lowercase ''proxy-authorization'' = ''proxy-authorization''" "to_ascii_lowercase ''te'' = ''te''"
  "to_ascii_lowercase ''trailer'' = ''trailer''" "to_ascii_lowercase ''x-forwarded-for'' = ''x-forwarded-for''"
  "to_ascii_lowercase ''x-forwarded-proto'' = ''x-forwarded-proto''"
  "to_ascii_lowercase ''transfer-encoding'' = ''transfer-encoding''"
  "to_ascii_lowercase ''content-length'' = ''content-length''"
  by code_simp+


lemma nominated_iff: "nominated headers name \<longleftrightarrow> named_by_connection headers name"
proof -
  have "nominated headers name \<longleftrightarrow> (\<exists>t\<in>set (header_entries ''connection'' headers).
      t \<noteq> [] \<and> to_ascii_lowercase t = to_ascii_lowercase name)"
    by (auto simp: nominated_def connection_tokens_def list_ex_iff eq_ignore_ascii_case_def)
  then show ?thesis
    by (auto simp: header_entries_def named_by_connection_def has_name_def eq_ignore_ascii_case_def lower_literals)
qed



text \<open>
  C40. A client can remove the framing of its own request. For every request that is read with a
  body and whose \<open>Connection\<close> header names the header that frames the body, the forwarded headers
  describe a message without a body, so that the next server takes the body for the next
  request. The witness is such a request that passes the hardening checks.
\<close>

theorem nominated_framing_is_lost:
  assumes "detect_request_body_kind headers = (Ok kind :: (body_kind, 'e http1_parse_error) result)"
    and "kind \<noteq> BodyNone"
    and "named_by_connection headers (if kind = Chunked then ''transfer-encoding'' else ''content-length'')"
  shows "(detect_request_body_kind (normalize_request_headers headers ip ka kind)
    :: (body_kind, 'e http1_parse_error) result) = Ok BodyNone"
proof -
  let ?out = "normalize_request_headers headers ip ka kind"
  have "\<not> (has_name ''transfer-encoding'' h \<and> keeps_header (connection_tokens headers) kind False h)"
    "\<not> (has_name ''content-length'' h \<and> keeps_header (connection_tokens headers) kind False h)" for h
    using assms(3) nominated_cong [of "hh_name h" "''transfer-encoding''" headers]
      nominated_cong [of "hh_name h" "''content-length''" headers] framing_names(1)
    by (auto simp: keeps_header_iff nominated_iff has_name_def is_content_length_def eq_ignore_ascii_case_def
        lower_literals split: if_splits body_kind.splits)
  then have "filter (has_name ''transfer-encoding'') (filter_headers headers kind False) = []"
      "filter (has_name ''content-length'') (filter_headers headers kind False) = []"
    by (auto simp: filter_headers_def filter_empty_conv)
  then have "filter (has_name ''transfer-encoding'') ?out = []" "filter (has_name ''content-length'') ?out = []"
    by (simp_all add: request_extra_headers)
  then show ?thesis
    by (simp add: detect_request_body_kind_def detect_body_kind_def no_transfer_encoding)
qed

lemma smuggling_facts:
  "(detect_request_body_kind smuggling_headers :: (body_kind, unit http1_parse_error) result) = Ok (ContentLength 5)"
  "validate_http1_request_hardening smuggling_headers = Ok ()"
  "nominated smuggling_headers ''content-length''"
  by code_simp+

theorem nominated_framing_is_lost_witness:
  "validate_http1_request_hardening smuggling_headers = Ok () \<and>
   (detect_request_body_kind smuggling_headers :: (body_kind, unit http1_parse_error) result) = Ok (ContentLength 5) \<and>
   (detect_request_body_kind (normalize_request_headers smuggling_headers (V4 0x7f000001) True (ContentLength 5))
      :: (body_kind, unit http1_parse_error) result) = Ok BodyNone"
  using nominated_framing_is_lost [OF smuggling_facts(1)] smuggling_facts by (simp add: nominated_iff)

section \<open>Heads on the wire\<close>

definition no_cr :: "string \<Rightarrow> bool" where
  "no_cr s \<longleftrightarrow> CHR 0x0D \<notin> set s"

lemma find_str_skip:
  assumes "pat = CHR 0x0D # q" and "no_cr w"
  shows "find_str pat (w @ s) = map_option ((+) (length w)) (find_str pat s)"
  using assms(2)
proof (induction w)
  case Nil
  show ?case by (simp add: option.map_ident)
next
  case (Cons c w)
  then have "\<not> prefix pat ((c # w) @ s)" "no_cr w" using assms(1) by (auto simp: no_cr_def)
  with Cons.IH show ?case
    by (subst find_str.simps) (cases "find_str pat s"; simp)
qed

lemma find_str_shift: "\<not> prefix pat (c # s) \<Longrightarrow> find_str pat (c # s) = map_option Suc (find_str pat s)"
  by (subst find_str.simps) simp

lemma find_crlf_skip:
  "no_cr w \<Longrightarrow> find_str (crlf @ crlf) (w @ s) = map_option ((+) (length w)) (find_str (crlf @ crlf) s)"
  by (rule find_str_skip [of _ "CHR 0x0A # crlf"]) (simp_all add: crlf_def)

lemma length_crlf [simp]: "length crlf = 2"
  by (simp add: crlf_def)

lemma find_crlf_after_line:
  assumes "d \<noteq> CHR 0x0D"
  shows "find_str (crlf @ crlf) (crlf @ d # t) = map_option ((+) 2) (find_str (crlf @ crlf) (d # t))"
proof -
  have "\<not> prefix (crlf @ crlf) (CHR 0x0D # CHR 0x0A # d # t)" "\<not> prefix (crlf @ crlf) (CHR 0x0A # d # t)"
    using assms by (simp_all add: crlf_def)
  note find_str_shift [OF this(1)] find_str_shift [OF this(2)]
  then have "find_str (crlf @ crlf) (CHR 0x0D # CHR 0x0A # d # t) =
      map_option Suc (map_option Suc (find_str (crlf @ crlf) (d # t)))"
    by (simp only:)
  moreover have "crlf @ d # t = CHR 0x0D # CHR 0x0A # d # t" by (simp add: crlf_def)
  ultimately show ?thesis by (simp only:) (cases "find_str (crlf @ crlf) (d # t)"; simp)
qed

definition wire_lines :: "string list \<Rightarrow> string" where
  "wire_lines ls = concat (map (\<lambda>l. l @ crlf) ls)"

lemma wire_lines_simps:
  "wire_lines [] = []" "wire_lines (l # ls) = l @ crlf @ wire_lines ls"
  by (simp_all add: wire_lines_def)

lemma find_end_of_lines:
  assumes "ls \<noteq> []" and "\<forall>l\<in>set ls. l \<noteq> [] \<and> no_cr l"
  shows "find_str (crlf @ crlf) (wire_lines ls @ crlf @ rest) = Some (length (wire_lines ls) - 2)"
  using assms
proof (induction ls rule: list_nonempty_induct)
  case (single l)
  have "find_str (crlf @ crlf) ((crlf @ crlf) @ rest) = Some 0" by (subst find_str.simps) simp
  with single find_crlf_skip [of l "(crlf @ crlf) @ rest"] show ?case
    by (simp add: wire_lines_simps)
next
  case (cons l ls)
  define s where "s = wire_lines ls @ crlf @ rest"
  obtain l' ls' where l': "ls = l' # ls'" using cons.hyps by (cases ls) auto
  then obtain d u where d: "l' = d # u" "d \<noteq> CHR 0x0D" using cons.prems by (cases l') (auto simp: no_cr_def)
  then have s: "s = d # (u @ crlf @ wire_lines ls' @ crlf @ rest)" using l' by (simp add: s_def wire_lines_simps)
  have "find_str (crlf @ crlf) (l @ crlf @ s) =
      map_option ((+) (length l)) (map_option ((+) 2) (find_str (crlf @ crlf) s))"
    using find_crlf_skip [of l "crlf @ s"] find_crlf_after_line [OF d(2)] cons.prems unfolding s by simp
  moreover have "find_str (crlf @ crlf) s = Some (length (wire_lines ls) - 2)"
    using cons.IH cons.prems by (simp add: s_def)
  moreover have "2 \<le> length (wire_lines ls)" using l' by (simp add: wire_lines_simps)
  ultimately show ?case by (simp add: wire_lines_simps s_def)
qed

lemma append_headers_lines:
  "append_headers (line @ crlf) headers = wire_lines (line # map (\<lambda>h. hh_name h @ '': '' @ hh_value h) headers) @ crlf"
  by (simp add: append_headers_def wire_lines_def comp_def)

lemma encoded_head_end:
  assumes "line \<noteq> []" and "no_cr line" and "\<forall>h\<in>set headers. no_cr (hh_name h) \<and> no_cr (hh_value h)"
  shows "find_head_end (append_headers (line @ crlf) headers @ body) = Some (length (append_headers (line @ crlf) headers))"
proof -
  let ?ls = "line # map (\<lambda>h. hh_name h @ '': '' @ hh_value h) headers"
  have "\<forall>l\<in>set ?ls. l \<noteq> [] \<and> no_cr l" using assms by (auto simp: no_cr_def)
  from find_end_of_lines [OF _ this, of body] show ?thesis
    unfolding append_headers_lines find_head_end_def by (simp add: wire_lines_simps)
qed

text \<open>
  C26. A head that is written ends where it is meant to: when the method, the target, the
  reason and the headers contain no carriage return, the reader finds the end of an encoded
  request or response head exactly behind it, whatever bytes follow. No header can start
  the body early or add a second message.
\<close>

theorem encoded_heads_delimited:
  assumes "no_cr meth" and "no_cr target" and "no_cr reason"
    and "\<forall>h\<in>set headers. no_cr (hh_name h) \<and> no_cr (hh_value h)"
  shows "find_head_end (encode_request_head meth target version headers @ body) =
      Some (length (encode_request_head meth target version headers)) \<and>
    find_head_end (encode_response_head version status reason headers @ body) =
      Some (length (encode_response_head version status reason headers))"
proof -
  have version: "no_cr (version_text version)" "version_text version \<noteq> []"
    by (cases version; simp add: no_cr_def)+
  have "no_cr (show_nat status)"
    using show_nat_digits [of status] by (auto simp: no_cr_def list_all_iff is_ascii_digit_def byte_def)
  moreover have "no_cr (default_reason status)"
    by (auto simp: default_reason_def no_cr_def split: option.splits dest!: map_of_SomeD)
  ultimately show ?thesis
    using assms version
      encoded_head_end [of "meth @ '' '' @ target @ '' '' @ version_text version" headers body]
      encoded_head_end [of "version_text version @ '' '' @ show_nat status @ '' '' @
        (if reason = [] then default_reason status else reason)" headers body]
    by (simp add: encode_request_head_def encode_response_head_def no_cr_def)
qed

theorem encoded_heads_delimited_witness:
  "find_head_end (encode_request_head ''GET'' ''/'' Http1 [header ''host'' ''a.test''] @ ''tail'') = Some 32"
  using encoded_heads_delimited [of "''GET''" "''/''" "[]" "[header ''host'' ''a.test'']" Http1 "''tail''" 200]
  by (simp add: no_cr_def header_def) (simp add: encode_request_head_def append_headers_def crlf_def)

section \<open>Reading a head\<close>

text \<open>
  The documented behaviour of a reader: it delivers the bytes of a stream in order, at most
  as many as there is room for, and none only at the end of the stream; an error loses
  nothing.
\<close>

definition reader_laws :: "('r, 'e) byte_reader \<Rightarrow> ('r \<Rightarrow> string) \<Rightarrow> bool" where
  "reader_laws read pending \<longleftrightarrow>
     (\<forall>n r. case read n r of
        (Inl _, r') \<Rightarrow> pending r' = pending r
      | (Inr bytes, r') \<Rightarrow> pending r = bytes @ pending r' \<and> length bytes \<le> n \<and>
          (bytes = [] \<and> 0 < n \<longrightarrow> pending r = []))"

text \<open>What reading a head from a stream of bytes gives, without any buffering.\<close>

definition head_of_stream :: "http1_limits \<Rightarrow> string \<Rightarrow> (nat option, 'e http1_parse_error) result" where
  "head_of_stream limits s =
     (case find_head_end (take (hl_max_head_bytes limits) s) of
        Some p \<Rightarrow> Ok (Some p)
      | None \<Rightarrow>
          if hl_max_head_bytes limits \<le> length s then Err HeadTooLarge
          else if s = [] then Ok None else Err IncompleteHead)"

lemma find_str_append: "find_str pat a = Some n \<Longrightarrow> find_str pat (a @ b) = Some n"
proof (induction a arbitrary: n)
  case Nil
  then have "prefix pat []" "n = 0" by (auto simp: find_str.simps [of pat "[]"] split: if_splits)
  then show ?case by (subst find_str.simps) simp
next
  case (Cons c a)
  show ?case
  proof (cases "prefix pat (c # a)")
    case True
    then have "prefix pat ((c # a) @ b)" by (rule prefix_prefix)
    with True Cons.prems show ?thesis by (simp add: find_str.simps [of pat "c # a"] find_str.simps [of pat "c # a @ b"])
  next
    case False
    with Cons.prems obtain k where k: "n = Suc k" "find_str pat a = Some k"
      by (auto simp: find_str.simps [of pat "c # a"])
    then have "length pat \<le> length (c # a)" using find_str_Some [OF k(2)] by simp
    with False have "\<not> prefix pat ((c # a) @ b)" by (meson prefixI prefix_length_prefix)
    with Cons.IH [OF k(2)] k(1) show ?thesis by (simp add: find_str_shift)
  qed
qed

lemma find_head_end_append: "find_head_end a = Some n \<Longrightarrow> find_head_end (a @ b) = Some n"
  using find_str_append by (auto simp: find_head_end_def)

lemma fill_until_head_end_stream:
  assumes "reader_laws read pending" and "length buffer \<le> hl_max_head_bytes limits"
    and "fill_until_head_end read limits r buffer = (res, r', buffer')"
  shows "buffer' @ pending r' = buffer @ pending r \<and> length buffer' \<le> hl_max_head_bytes limits \<and>
    ((\<exists>e. res = Err (ParseIo e)) \<or> res = head_of_stream limits (buffer @ pending r))"
  using assms
proof (induction read limits r buffer rule: fill_until_head_end.induct)
  case (1 read limits r buffer)
  let ?max = "hl_max_head_bytes limits" and ?n = "min (hl_max_head_bytes limits - length buffer) 1024"
  note unfold = fill_until_head_end.simps [of read limits r buffer]
  show ?case
  proof (cases "find_head_end buffer")
    case (Some p)
    then have eq: "res = Ok (Some p)" "r' = r" "buffer' = buffer"
      using "1.prems"(3) by (simp_all add: unfold)
    have "take ?max (buffer @ pending r) = buffer @ take (?max - length buffer) (pending r)"
      using "1.prems"(2) by simp
    with find_head_end_append [OF Some] have "find_head_end (take ?max (buffer @ pending r)) = Some p" by simp
    with eq "1.prems"(2) show ?thesis by (simp add: head_of_stream_def)
  next
    case None
    show ?thesis
    proof (cases "?max \<le> length buffer")
      case True
      with None "1.prems" have "res = Err HeadTooLarge" "r' = r" "buffer' = buffer" "length buffer = ?max"
        by (auto simp: unfold)
      with None show ?thesis by (simp add: head_of_stream_def)
    next
      case room: False
      obtain got r1 where got: "read ?n r = (got, r1)" by fastforce
      have laws: "case got of Inl _ \<Rightarrow> pending r1 = pending r
        | Inr bytes \<Rightarrow> pending r = bytes @ pending r1 \<and> length bytes \<le> ?n \<and> (bytes = [] \<and> 0 < ?n \<longrightarrow> pending r = [])"
      proof -
        have "case read ?n r of (Inl _, r') \<Rightarrow> pending r' = pending r
          | (Inr bytes, r') \<Rightarrow> pending r = bytes @ pending r' \<and> length bytes \<le> ?n \<and>
              (bytes = [] \<and> 0 < ?n \<longrightarrow> pending r = [])"
          using "1.prems"(1) unfolding reader_laws_def by (elim allE)
        then show ?thesis unfolding got by simp
      qed
      show ?thesis
      proof (cases got)
        case (Inl e)
        with None room got "1.prems" laws show ?thesis by (auto simp: unfold)
      next
        case (Inr bytes)
        show ?thesis
        proof (cases "bytes = []")
          case True
          then have "pending r = []" "pending r1 = []" using laws Inr room by auto
          moreover have "res = (if buffer = [] then Ok None else Err IncompleteHead)" "r' = r1" "buffer' = buffer"
            using None room got Inr True "1.prems"(3) by (auto simp: unfold)
          ultimately show ?thesis using None room by (simp add: head_of_stream_def)
        next
          case False
          have "fill_until_head_end read limits r1 (buffer @ bytes) = (res, r', buffer')"
            using None room got Inr False "1.prems"(3) by (simp add: unfold)
          moreover have "length (buffer @ bytes) \<le> ?max" "pending r = bytes @ pending r1"
            using laws Inr room by auto
          ultimately show ?thesis
            using "1.IH" [OF None room got [symmetric] Inr False "1.prems"(1)] by simp
        qed
      qed
    qed
  qed
qed

text \<open>
  C9. Reading a head depends only on the bytes, not on how they arrive: with any reader that
  behaves as documented, and unless it fails, the search for the end of a head gives what
  the stream itself determines: the end of the first head within the limit, an error when
  there is none within the limit or the stream ends inside the head, and nothing for an
  empty stream. The loop always ends, no byte is lost or reordered, and never more bytes
  than the limit are buffered.
\<close>

theorem head_reading_is_stream_determined:
  assumes "reader_laws read pending" and "length buffer \<le> hl_max_head_bytes limits"
  shows "case fill_until_head_end read limits r buffer of (res, r', buffer') \<Rightarrow>
    buffer' @ pending r' = buffer @ pending r \<and> length buffer' \<le> hl_max_head_bytes limits \<and>
    ((\<exists>e. res = Err (ParseIo e)) \<or> res = head_of_stream limits (buffer @ pending r))"
  using fill_until_head_end_stream [OF assms] by (auto split: prod.split)

text \<open>A reader that delivers one byte at a time.\<close>

definition slow_reader :: "(string, unit) byte_reader" where
  "slow_reader n s = (Ok (take (min n 1) s), drop (min n 1) s)"

lemma slow_reader_laws: "reader_laws slow_reader (\<lambda>s. s)"
  by (auto simp: reader_laws_def slow_reader_def)

definition tiny_limits :: http1_limits where
  "tiny_limits = \<lparr>hl_max_head_bytes = 64, hl_max_header_count = 4, hl_max_body_bytes = 100\<rparr>"

lemma slow_read_head:
  "head_of_stream tiny_limits (''GET / HTTP/1.1'' @ crlf @ ''a: b'' @ crlf @ crlf @ ''xyz'') =
     (Ok (Some 24) :: (nat option, unit http1_parse_error) result)"
  "\<not> (\<exists>e. fst (fill_until_head_end slow_reader tiny_limits (''GET / HTTP/1.1'' @ crlf @ ''a: b'' @ crlf @ crlf @ ''xyz'') [])
     = Err (ParseIo e))"
proof -
  show "head_of_stream tiny_limits (''GET / HTTP/1.1'' @ crlf @ ''a: b'' @ crlf @ crlf @ ''xyz'') =
     (Ok (Some 24) :: (nat option, unit http1_parse_error) result)"
    by code_simp
  have "fst (fill_until_head_end slow_reader tiny_limits (''GET / HTTP/1.1'' @ crlf @ ''a: b'' @ crlf @ crlf @ ''xyz'') [])
      = Ok (Some 24)"
    by code_simp
  then show "\<not> (\<exists>e. fst (fill_until_head_end slow_reader tiny_limits
      (''GET / HTTP/1.1'' @ crlf @ ''a: b'' @ crlf @ crlf @ ''xyz'') []) = Err (ParseIo e))"
    by simp
qed

theorem head_reading_is_stream_determined_witness:
  "fst (fill_until_head_end slow_reader tiny_limits (''GET / HTTP/1.1'' @ crlf @ ''a: b'' @ crlf @ crlf @ ''xyz'') [])
     = Ok (Some 24)"
  using head_reading_is_stream_determined [OF slow_reader_laws, of "[]" tiny_limits
      "''GET / HTTP/1.1'' @ crlf @ ''a: b'' @ crlf @ crlf @ ''xyz''"] slow_read_head
  by (simp add: case_prod_beta)

end
