(* ===== verification/Http_Cache.thy ===== *)
theory Http_Cache
  imports Http_Message
begin

text \<open>
  \<open>crates/runtime/src/http_cache.rs\<close>: the bounded in-memory store for responses, its keys, and
  the invalidation of its entries.

  A store is a record of its locked state, its counters and the list of the invalidations that it
  has applied. Every method holds the locks that it needs from its first access on, so that it is one
  step. The memory size of the metadata structure is a constant of the compiler and a parameter
  here. Header names, header values and bodies of third-party packages are strings.
\<close>

section \<open>Policies\<close>

text \<open>From \<open>crates/config-model/src/policy.rs\<close>.\<close>

datatype http_cache_method_config = MethodGet | MethodHead

datatype authorization_cache_behavior = AuthBypass | AuthPartition

datatype cache_query_key_behavior = IncludeAll | IgnoreAll

record cache_key_policy_config =
  ck_include_host :: bool
  ck_include_method :: bool
  ck_query :: cache_query_key_behavior
  ck_headers :: "string list"

definition cache_key_policy_default :: cache_key_policy_config where
  "cache_key_policy_default =
     \<lparr>ck_include_host = True, ck_include_method = False, ck_query = IncludeAll, ck_headers = []\<rparr>"

datatype http_cache_storage_config = Memory (mem_max_entries: nat) (mem_max_bytes: nat)

record http_cache_policy_config =
  hp_methods :: "http_cache_method_config list"
  hp_default_ttl_secs :: nat
  hp_max_ttl_secs :: nat
  hp_stale_while_revalidate_secs :: nat
  hp_stale_if_error_secs :: nat
  hp_cacheable_status_codes :: "nat list"
  hp_vary_headers :: "string list"
  hp_max_object_bytes :: nat
  hp_honor_cache_control :: bool
  hp_allow_set_cookie_storage :: bool
  hp_authorization :: authorization_cache_behavior
  hp_revalidation_enabled :: bool
  hp_purge_enabled :: bool
  hp_cache_key :: cache_key_policy_config
  hp_storage :: http_cache_storage_config

definition http_cache_policy_default :: http_cache_policy_config where
  "http_cache_policy_default =
     \<lparr>hp_methods = [MethodGet, MethodHead], hp_default_ttl_secs = 60, hp_max_ttl_secs = 300,
      hp_stale_while_revalidate_secs = 30, hp_stale_if_error_secs = 60,
      hp_cacheable_status_codes = [200, 203, 204, 300, 301, 404, 410], hp_vary_headers = [],
      hp_max_object_bytes = 1024 * 1024, hp_honor_cache_control = True, hp_allow_set_cookie_storage = False,
      hp_authorization = AuthBypass, hp_revalidation_enabled = True, hp_purge_enabled = False,
      hp_cache_key = cache_key_policy_default, hp_storage = Memory 10000 (64 * 1024 * 1024)\<rparr>"

section \<open>Entries\<close>

datatype http_cache_store_error =
    ZeroMaxEntries
  | ZeroMaxBytes
  | ZeroMaxObjectBytes
  | MaxObjectBytesExceedsStoreBytes nat nat
  | EmptyKey
  | FreshnessBeforeStoredAt
  | StaleWhileRevalidateBeforeFreshness
  | StaleIfErrorBeforeFreshness
  | ObjectTooLarge nat nat
  | CacheMissingHost
  | InvalidRequestTarget request_target_error
  | InvalidHost request_target_error
  | HostAuthorityMismatch string string

fun cache_store_error_display :: "http_cache_store_error \<Rightarrow> string" where
  "cache_store_error_display ZeroMaxEntries = ''http cache max_entries must be greater than zero''"
| "cache_store_error_display ZeroMaxBytes = ''http cache max_bytes must be greater than zero''"
| "cache_store_error_display ZeroMaxObjectBytes = ''http cache max_object_bytes must be greater than zero''"
| "cache_store_error_display (MaxObjectBytesExceedsStoreBytes a b) =
     ''http cache max_object_bytes '' @ show_nat a @ '' exceeds max_bytes '' @ show_nat b"
| "cache_store_error_display EmptyKey = ''http cache key must not be empty''"
| "cache_store_error_display FreshnessBeforeStoredAt =
     ''http cache fresh_until must not be earlier than stored_at''"
| "cache_store_error_display StaleWhileRevalidateBeforeFreshness =
     ''http cache stale_while_revalidate_until must not be earlier than fresh_until''"
| "cache_store_error_display StaleIfErrorBeforeFreshness =
     ''http cache stale_if_error_until must not be earlier than fresh_until''"
| "cache_store_error_display (ObjectTooLarge a b) =
     ''http cache object size '' @ show_nat a @ '' exceeds max_object_bytes '' @ show_nat b"
| "cache_store_error_display CacheMissingHost = ''http cache key construction requires a host header''"
| "cache_store_error_display (InvalidRequestTarget e) =
     ''http cache key request-target is invalid: '' @ request_target_error_display e"
| "cache_store_error_display (InvalidHost e) =
     ''http cache key host is invalid: '' @ request_target_error_display e"
| "cache_store_error_display (HostAuthorityMismatch host authority) =
     ''http cache key host header '' @ host @ '' does not match request-target authority '' @ authority"

record http_cache_store_config =
  cc_max_entries :: nat
  cc_max_bytes :: nat
  cc_max_object_bytes :: nat

definition cache_config_validate :: "http_cache_store_config \<Rightarrow> (unit, http_cache_store_error) result" where
  "cache_config_validate c =
     (if cc_max_entries c = 0 then Err ZeroMaxEntries
      else if cc_max_bytes c = 0 then Err ZeroMaxBytes
      else if cc_max_object_bytes c = 0 then Err ZeroMaxObjectBytes
      else if cc_max_object_bytes c > cc_max_bytes c
      then Err (MaxObjectBytesExceedsStoreBytes (cc_max_object_bytes c) (cc_max_bytes c))
      else Ok ())"

type_synonym http_cache_key = string

definition http_cache_key_new :: "string \<Rightarrow> (http_cache_key, http_cache_store_error) result" where
  "http_cache_key_new key = (if key = [] then Err EmptyKey else Ok key)"

record http_cache_header =
  ch_name :: string
  ch_value :: string

definition cache_header_size :: "http_cache_header \<Rightarrow> nat" where
  "cache_header_size h = length (ch_name h) + length (ch_value h)"

record http_cache_metadata =
  cm_status :: nat
  cm_stored_at :: duration
  cm_fresh_until :: duration
  cm_stale_while_revalidate_until :: "duration option"
  cm_stale_if_error_until :: "duration option"
  cm_etag :: "string option"
  cm_last_modified :: "string option"

datatype http_cache_freshness = Fresh | StaleWhileRevalidate | StaleIfError

definition expires_at :: "http_cache_metadata \<Rightarrow> duration" where
  "expires_at m =
     (case (cm_stale_while_revalidate_until m, cm_stale_if_error_until m) of
        (Some a, Some b) \<Rightarrow> max a b
      | (Some a, None) \<Rightarrow> a
      | (None, Some b) \<Rightarrow> b
      | (None, None) \<Rightarrow> cm_fresh_until m)"

definition is_fresh :: "http_cache_metadata \<Rightarrow> duration \<Rightarrow> bool" where
  "is_fresh m now \<longleftrightarrow> now < cm_fresh_until m"

definition before_deadline :: "duration option \<Rightarrow> duration \<Rightarrow> bool" where
  "before_deadline d now \<longleftrightarrow> (case d of None \<Rightarrow> False | Some deadline \<Rightarrow> now < deadline)"

definition allows_stale_while_revalidate :: "http_cache_metadata \<Rightarrow> duration \<Rightarrow> bool" where
  "allows_stale_while_revalidate m now \<longleftrightarrow> before_deadline (cm_stale_while_revalidate_until m) now"

definition allows_stale_if_error :: "http_cache_metadata \<Rightarrow> duration \<Rightarrow> bool" where
  "allows_stale_if_error m now \<longleftrightarrow> before_deadline (cm_stale_if_error_until m) now"

definition freshness :: "http_cache_metadata \<Rightarrow> duration \<Rightarrow> http_cache_freshness option" where
  "freshness m now =
     (if now \<ge> expires_at m then None
      else if is_fresh m now then Some Fresh
      else if allows_stale_while_revalidate m now then Some StaleWhileRevalidate
      else if allows_stale_if_error m now then Some StaleIfError
      else None)"

definition metadata_validate :: "http_cache_metadata \<Rightarrow> (unit, http_cache_store_error) result" where
  "metadata_validate m =
     (if cm_fresh_until m < cm_stored_at m then Err FreshnessBeforeStoredAt
      else if (case cm_stale_while_revalidate_until m of None \<Rightarrow> False | Some d \<Rightarrow> d < cm_fresh_until m)
      then Err StaleWhileRevalidateBeforeFreshness
      else if (case cm_stale_if_error_until m of None \<Rightarrow> False | Some d \<Rightarrow> d < cm_fresh_until m)
      then Err StaleIfErrorBeforeFreshness
      else Ok ())"

definition metadata_size :: "nat \<Rightarrow> http_cache_metadata \<Rightarrow> nat" where
  "metadata_size struct_size m =
     struct_size + (case cm_etag m of None \<Rightarrow> 0 | Some v \<Rightarrow> length v) +
     (case cm_last_modified m of None \<Rightarrow> 0 | Some v \<Rightarrow> length v)"

record http_cache_entry =
  ce_metadata :: http_cache_metadata
  ce_headers :: "http_cache_header list"
  ce_body :: string

definition entry_size :: "nat \<Rightarrow> http_cache_entry \<Rightarrow> nat" where
  "entry_size struct_size e =
     metadata_size struct_size (ce_metadata e) + sum_list (map cache_header_size (ce_headers e)) + length (ce_body e)"

definition entry_validate :: "http_cache_entry \<Rightarrow> (unit, http_cache_store_error) result" where
  "entry_validate e = metadata_validate (ce_metadata e)"

record http_cache_lookup =
  lk_entry :: http_cache_entry
  lk_freshness :: http_cache_freshness

record http_cache_insert_result =
  ci_replaced :: bool
  ci_evicted_entries :: nat

section \<open>The store\<close>

record cache_record =
  cr_entry :: http_cache_entry
  cr_size :: nat
  cr_inserted_sequence :: nat
  cr_last_accessed_tick :: nat
  cr_last_accessed_at :: duration

record cache_store_state =
  cs_entries :: "(http_cache_key, cache_record) btree_map"
  cs_total_bytes :: nat
  cs_next_sequence :: nat

record http_cache_store =
  hs_config :: http_cache_store_config
  hs_state :: cache_store_state
  hs_hit_count :: nat
  hs_miss_count :: nat
  hs_insert_count :: nat
  hs_replace_count :: nat
  hs_eviction_count :: nat
  hs_expiration_count :: nat
  hs_rejected_insert_count :: nat
  hs_applied_invalidations :: "(string \<times> string) list"

definition http_cache_store_new :: "http_cache_store_config \<Rightarrow> (http_cache_store, http_cache_store_error) result" where
  "http_cache_store_new config =
     and_then (cache_config_validate config) (\<lambda>_.
       Ok \<lparr>hs_config = config, hs_state = \<lparr>cs_entries = [], cs_total_bytes = 0, cs_next_sequence = 0\<rparr>,
           hs_hit_count = 0, hs_miss_count = 0, hs_insert_count = 0, hs_replace_count = 0,
           hs_eviction_count = 0, hs_expiration_count = 0, hs_rejected_insert_count = 0,
           hs_applied_invalidations = []\<rparr>)"

definition duration_tick :: "duration \<Rightarrow> nat" where
  "duration_tick d = min (as_millis d) (uint_max 64)"

text \<open>\<open>entries.remove(key)\<close> together with the correction of the byte count.\<close>

definition remove_from_state :: "http_cache_key \<Rightarrow> cache_store_state \<Rightarrow> http_cache_entry option \<times> cache_store_state" where
  "remove_from_state key st =
     (case map_of (cs_entries st) key of
        None \<Rightarrow> (None, st)
      | Some record \<Rightarrow>
          (Some (cr_entry record),
           st\<lparr>cs_entries := bt_remove key (cs_entries st), cs_total_bytes := cs_total_bytes st - cr_size record\<rparr>))"

definition cache_lookup ::
  "duration \<Rightarrow> http_cache_key \<Rightarrow> http_cache_store \<Rightarrow> http_cache_lookup option \<times> http_cache_store" where
  "cache_lookup now key s =
     (let st = hs_state s
      in case map_of (cs_entries st) key of
           None \<Rightarrow> (None, s\<lparr>hs_miss_count := wrap_add 64 (hs_miss_count s) 1\<rparr>)
         | Some record \<Rightarrow>
             (case freshness (ce_metadata (cr_entry record)) now of
                None \<Rightarrow>
                  (None, s\<lparr>hs_state := snd (remove_from_state key st),
                           hs_expiration_count := wrap_add 64 (hs_expiration_count s) 1,
                           hs_miss_count := wrap_add 64 (hs_miss_count s) 1\<rparr>)
              | Some f \<Rightarrow>
                  (Some \<lparr>lk_entry = cr_entry record, lk_freshness = f\<rparr>,
                   s\<lparr>hs_state := st\<lparr>cs_entries := bt_insert key
                        (record\<lparr>cr_last_accessed_tick := duration_tick now, cr_last_accessed_at := now\<rparr>)
                        (cs_entries st)\<rparr>,
                     hs_hit_count := wrap_add 64 (hs_hit_count s) 1\<rparr>)))"

definition cache_lookup_fresh ::
  "duration \<Rightarrow> http_cache_key \<Rightarrow> http_cache_store \<Rightarrow> http_cache_entry option \<times> http_cache_store" where
  "cache_lookup_fresh now key s =
     (case cache_lookup now key s of
        (Some l, s') \<Rightarrow> (if lk_freshness l = Fresh then Some (lk_entry l) else None, s')
      | (None, s') \<Rightarrow> (None, s'))"

text \<open>The entry that was not used for the longest time; of equally old ones the one inserted first.\<close>

definition access_order :: "http_cache_key \<times> cache_record \<Rightarrow> nat \<times> nat" where
  "access_order e = (cr_last_accessed_tick (snd e), cr_inserted_sequence (snd e))"

definition oldest_entry_key :: "cache_store_state \<Rightarrow> http_cache_key option" where
  "oldest_entry_key st =
     (if cs_entries st = [] then None else Some (fst (arg_min_list access_order (cs_entries st))))"

lemma arg_min_list_mem: "xs \<noteq> [] \<Longrightarrow> arg_min_list f xs \<in> set xs"
  by (induction f xs rule: arg_min_list.induct) (auto simp: Let_def)

lemma oldest_entry_key_has: "oldest_entry_key st = Some k \<Longrightarrow> k \<in> fst ` set (cs_entries st)"
  using arg_min_list_mem [of "cs_entries st" access_order]
  by (auto simp: oldest_entry_key_def image_iff split: if_splits)

lemma remove_from_state_shrinks:
  "k \<in> fst ` set (cs_entries st) \<Longrightarrow>
     length (cs_entries (snd (remove_from_state k st))) < length (cs_entries st)"
  by (auto simp: remove_from_state_def bt_remove_def map_of_eq_None_iff length_filter_less split: option.split)

text \<open>The key that is evicted is always present, so that each round removes an entry.\<close>

function evict_until_within_bounds ::
  "http_cache_store_config \<Rightarrow> cache_store_state \<Rightarrow> nat \<times> cache_store_state" where
  "evict_until_within_bounds config st =
     (if length (cs_entries st) > cc_max_entries config \<or> cs_total_bytes st > cc_max_bytes config
      then case oldest_entry_key st of
             None \<Rightarrow> (0, st)
           | Some key \<Rightarrow>
               (case evict_until_within_bounds config (snd (remove_from_state key st)) of
                  (n, st') \<Rightarrow> (Suc n, st'))
      else (0, st))"
  by pat_completeness auto

termination
  by (relation "measure (\<lambda>(config, st). length (cs_entries st))")
    (auto intro: remove_from_state_shrinks oldest_entry_key_has)

declare evict_until_within_bounds.simps [simp del]

definition cache_insert ::
  "nat \<Rightarrow> duration \<Rightarrow> http_cache_key \<Rightarrow> http_cache_entry \<Rightarrow> http_cache_store \<Rightarrow>
     (http_cache_insert_result, http_cache_store_error) result \<times> http_cache_store" where
  "cache_insert struct_size now key entry s =
     (case entry_validate entry of
        Inl e \<Rightarrow> (Err e, s)
      | Inr _ \<Rightarrow>
          let size = entry_size struct_size entry
          in if size > cc_max_object_bytes (hs_config s)
             then (Err (ObjectTooLarge size (cc_max_object_bytes (hs_config s))),
                   s\<lparr>hs_rejected_insert_count := wrap_add 64 (hs_rejected_insert_count s) 1\<rparr>)
             else let (replaced, st) = remove_from_state key (hs_state s);
                      record = \<lparr>cr_entry = entry, cr_size = size, cr_inserted_sequence = cs_next_sequence st,
                                cr_last_accessed_tick = duration_tick now, cr_last_accessed_at = now\<rparr>;
                      st = st\<lparr>cs_next_sequence := sat_add 64 (cs_next_sequence st) 1,
                              cs_total_bytes := sat_add 64 (cs_total_bytes st) size,
                              cs_entries := bt_insert key record (cs_entries st)\<rparr>;
                      (evicted, st) = evict_until_within_bounds (hs_config s) st;
                      s = s\<lparr>hs_state := st\<rparr>;
                      s = (if replaced \<noteq> None
                           then s\<lparr>hs_replace_count := wrap_add 64 (hs_replace_count s) 1\<rparr>
                           else s\<lparr>hs_insert_count := wrap_add 64 (hs_insert_count s) 1\<rparr>)
                  in (Ok \<lparr>ci_replaced = replaced \<noteq> None, ci_evicted_entries = evicted\<rparr>,
                      s\<lparr>hs_eviction_count := wrap_add 64 (hs_eviction_count s) evicted\<rparr>))"

definition cache_remove :: "http_cache_key \<Rightarrow> http_cache_store \<Rightarrow> http_cache_entry option \<times> http_cache_store" where
  "cache_remove key s =
     (case remove_from_state key (hs_state s) of (removed, st) \<Rightarrow> (removed, s\<lparr>hs_state := st\<rparr>))"

text \<open>The loop that removes a list of keys.\<close>

definition remove_keys :: "http_cache_key list \<Rightarrow> cache_store_state \<Rightarrow> cache_store_state" where
  "remove_keys ks st = fold (\<lambda>k st. snd (remove_from_state k st)) ks st"

definition cache_purge_expired :: "duration \<Rightarrow> http_cache_store \<Rightarrow> nat \<times> http_cache_store" where
  "cache_purge_expired now s =
     (let keys_to_remove = map fst (filter (\<lambda>(k, record). now \<ge> expires_at (ce_metadata (cr_entry record)))
            (cs_entries (hs_state s)))
      in (length keys_to_remove,
          s\<lparr>hs_state := remove_keys keys_to_remove (hs_state s),
            hs_expiration_count := wrap_add 64 (hs_expiration_count s) (length keys_to_remove)\<rparr>))"

text \<open>
  \<open>str::lines\<close>: the pieces between line feeds, each without a carriage return at its end; a last
  piece that no line feed ends is kept as it is, unless it is empty.
\<close>

definition str_lines :: "string \<Rightarrow> string list" where
  "str_lines s =
     (let pieces = split_on CHR 0x0A s
      in map (\<lambda>l. case strip_suffix_char CHR 0x0D l of None \<Rightarrow> l | Some l' \<Rightarrow> l') (butlast pieces) @
         (if last pieces = [] then [] else [last pieces]))"

definition strip_prefix_str :: "string \<Rightarrow> string \<Rightarrow> string option" where
  "strip_prefix_str pre s = (if prefix pre s then Some (drop (length pre) s) else None)"

definition storage_key_matches_path_prefix :: "http_cache_key \<Rightarrow> string \<Rightarrow> bool" where
  "storage_key_matches_path_prefix key path_prefix =
     (let primary = hd (split_on CHR 0x00 key)
      in utf8_valid primary \<and>
         (case List.map_filter (strip_prefix_str ''path='') (str_lines primary) of
            [] \<Rightarrow> False
          | path # _ \<Rightarrow>
              path = path_prefix \<or> path_prefix = ''/'' \<or>
              (case strip_prefix_str path_prefix path of None \<Rightarrow> False | Some rest \<Rightarrow> prefix ''/'' rest)))"

definition purge_path_prefix_from_state :: "string \<Rightarrow> cache_store_state \<Rightarrow> nat \<times> cache_store_state" where
  "purge_path_prefix_from_state path_prefix st =
     (let keys_to_remove = filter (\<lambda>k. storage_key_matches_path_prefix k path_prefix) (map fst (cs_entries st))
      in (length keys_to_remove, remove_keys keys_to_remove st))"

definition cache_purge_path_prefix :: "string \<Rightarrow> http_cache_store \<Rightarrow> nat \<times> http_cache_store" where
  "cache_purge_path_prefix path_prefix s =
     (case purge_path_prefix_from_state path_prefix (hs_state s) of (n, st) \<Rightarrow> (n, s\<lparr>hs_state := st\<rparr>))"

section \<open>Metrics\<close>

record http_cache_store_metrics =
  mx_entry_count :: nat
  mx_total_bytes :: nat
  mx_max_object_bytes :: nat
  mx_hit_count :: nat
  mx_miss_count :: nat
  mx_insert_count :: nat
  mx_replace_count :: nat
  mx_eviction_count :: nat
  mx_expiration_count :: nat
  mx_rejected_insert_count :: nat

definition cache_metrics :: "http_cache_store \<Rightarrow> http_cache_store_metrics" where
  "cache_metrics s =
     \<lparr>mx_entry_count = length (cs_entries (hs_state s)), mx_total_bytes = cs_total_bytes (hs_state s),
      mx_max_object_bytes = fold max (map (cr_size \<circ> snd) (cs_entries (hs_state s))) 0,
      mx_hit_count = hs_hit_count s, mx_miss_count = hs_miss_count s, mx_insert_count = hs_insert_count s,
      mx_replace_count = hs_replace_count s, mx_eviction_count = hs_eviction_count s,
      mx_expiration_count = hs_expiration_count s, mx_rejected_insert_count = hs_rejected_insert_count s\<rparr>"

record http_cache_entry_snapshot =
  es_key :: string
  es_size :: nat
  es_last_accessed_at :: duration
  es_metadata :: http_cache_metadata

record http_cache_store_snapshot =
  ss_metrics :: http_cache_store_metrics
  ss_entries :: "http_cache_entry_snapshot list"

definition cache_snapshot :: "http_cache_store \<Rightarrow> http_cache_store_snapshot" where
  "cache_snapshot s =
     \<lparr>ss_metrics = cache_metrics s,
      ss_entries = map (\<lambda>(key, record). \<lparr>es_key = key, es_size = cr_size record,
        es_last_accessed_at = cr_last_accessed_at record, es_metadata = ce_metadata (cr_entry record)\<rparr>)
        (cs_entries (hs_state s))\<rparr>"

definition render_diagnostics :: "http_cache_store_snapshot \<Rightarrow> string \<Rightarrow> nat \<Rightarrow> string" where
  "render_diagnostics snap scope max_entries =
     (let m = ss_metrics snap
      in join_str [CHR 0x0A]
        ([''scope='' @ scope,
          ''entries='' @ show_nat (mx_entry_count m),
          ''bytes='' @ show_nat (mx_total_bytes m),
          ''max_object_bytes='' @ show_nat (mx_max_object_bytes m),
          ''hits='' @ show_nat (mx_hit_count m),
          ''misses='' @ show_nat (mx_miss_count m),
          ''inserts='' @ show_nat (mx_insert_count m),
          ''replacements='' @ show_nat (mx_replace_count m),
          ''evictions='' @ show_nat (mx_eviction_count m),
          ''expirations='' @ show_nat (mx_expiration_count m),
          ''rejected_inserts='' @ show_nat (mx_rejected_insert_count m),
          ''objects:''] @
         map (\<lambda>(index, e). ''- index='' @ show_nat index @ '' size='' @ show_nat (es_size e) @
                '' status='' @ show_nat (cm_status (es_metadata e)) @
                '' last_accessed_ms='' @ show_nat (as_millis (es_last_accessed_at e)) @
                '' fresh_until_ms='' @ show_nat (as_millis (cm_fresh_until (es_metadata e))))
           (enumerate 0 (take max_entries (ss_entries snap)))))"

section \<open>Invalidation\<close>

datatype http_cache_invalidation_target = ExactKey http_cache_key | PathPrefix string

record http_cache_invalidation_event =
  iv_event_id :: string
  iv_scope :: string
  iv_issuer :: string
  iv_target :: http_cache_invalidation_target
  iv_occurred_at_unix_ms :: nat

datatype http_cache_invalidation_error =
    EmptyEventId
  | EventIdTooLong
  | EmptyScope
  | ScopeTooLong
  | EmptyIssuer
  | IssuerTooLong
  | InvalidPathPrefix

definition invalid_path_prefix :: "string \<Rightarrow> bool" where
  "invalid_path_prefix p \<longleftrightarrow>
     trim p = [] \<or> length p > 512 \<or> \<not> prefix ''/'' p \<or> CHR ''?'' \<in> set p \<or> CHR ''#'' \<in> set p"

definition validate_invalidation_event ::
  "http_cache_invalidation_event \<Rightarrow> (unit, http_cache_invalidation_error) result" where
  "validate_invalidation_event e =
     (if trim (iv_event_id e) = [] then Err EmptyEventId
      else if length (iv_event_id e) > 256 then Err EventIdTooLong
      else if trim (iv_scope e) = [] then Err EmptyScope
      else if length (iv_scope e) > 128 then Err ScopeTooLong
      else if trim (iv_issuer e) = [] then Err EmptyIssuer
      else if length (iv_issuer e) > 128 then Err IssuerTooLong
      else case iv_target e of
             ExactKey _ \<Rightarrow> Ok ()
           | PathPrefix p \<Rightarrow> if invalid_path_prefix p then Err InvalidPathPrefix else Ok ())"

definition invalidation_event_new ::
  "string \<Rightarrow> string \<Rightarrow> string \<Rightarrow> http_cache_invalidation_target \<Rightarrow> nat \<Rightarrow>
     (http_cache_invalidation_event, http_cache_invalidation_error) result" where
  "invalidation_event_new event_id scope issuer target at =
     (let event = \<lparr>iv_event_id = event_id, iv_scope = scope, iv_issuer = issuer, iv_target = target,
                   iv_occurred_at_unix_ms = at\<rparr>
      in and_then (validate_invalidation_event event) (\<lambda>_. Ok event))"

datatype http_cache_invalidation_apply_result = Applied nat | Duplicate

definition invalidate_target :: "http_cache_invalidation_target \<Rightarrow> cache_store_state \<Rightarrow> nat \<times> cache_store_state" where
  "invalidate_target target st =
     (case target of
        ExactKey key \<Rightarrow>
          (case remove_from_state key st of (removed, st') \<Rightarrow> (if removed = None then 0 else 1, st'))
      | PathPrefix p \<Rightarrow> purge_path_prefix_from_state p st)"

definition apply_invalidation_event ::
  "http_cache_invalidation_event \<Rightarrow> http_cache_store \<Rightarrow>
     (http_cache_invalidation_apply_result, http_cache_invalidation_error) result \<times> http_cache_store" where
  "apply_invalidation_event event s =
     (case validate_invalidation_event event of
        Inl e \<Rightarrow> (Err e, s)
      | Inr _ \<Rightarrow>
          if (iv_issuer event, iv_event_id event) \<in> set (hs_applied_invalidations s) then (Ok Duplicate, s)
          else let (purged, st) = invalidate_target (iv_target event) (hs_state s);
                   applied = hs_applied_invalidations s @ [(iv_issuer event, iv_event_id event)]
               in (Ok (Applied purged),
                   s\<lparr>hs_state := st, hs_applied_invalidations := drop (length applied - 256) applied\<rparr>))"

record http_cache_invalidation_publish_result =
  pr_subscriber_count :: nat
  pr_applied_count :: nat
  pr_duplicate_count :: nat
  pr_purged_entries :: nat
  pr_delivery_success_count :: nat
  pr_delivery_failure_count :: nat
  pr_failed_targets :: "string list"

definition publish_result_default :: http_cache_invalidation_publish_result where
  "publish_result_default =
     \<lparr>pr_subscriber_count = 0, pr_applied_count = 0, pr_duplicate_count = 0, pr_purged_entries = 0,
      pr_delivery_success_count = 0, pr_delivery_failure_count = 0, pr_failed_targets = []\<rparr>"

text \<open>
  A subscriber is a scope and a store. Stores are shared, so that a bus holds references: positions
  in the list of all stores.
\<close>

type_synonym invalidation_bus = "(string \<times> nat) list"

definition bus_register :: "string \<Rightarrow> nat \<Rightarrow> invalidation_bus \<Rightarrow> invalidation_bus" where
  "bus_register scope store bus = bus @ [(scope, store)]"

definition count_delivery ::
  "http_cache_invalidation_apply_result \<Rightarrow> http_cache_invalidation_publish_result \<Rightarrow> http_cache_invalidation_publish_result" where
  "count_delivery r p =
     (case r of
        Applied n \<Rightarrow> p\<lparr>pr_applied_count := pr_applied_count p + 1,
          pr_delivery_success_count := pr_delivery_success_count p + 1, pr_purged_entries := pr_purged_entries p + n\<rparr>
      | Duplicate \<Rightarrow> p\<lparr>pr_duplicate_count := pr_duplicate_count p + 1,
          pr_delivery_success_count := pr_delivery_success_count p + 1\<rparr>)"

fun deliver ::
  "http_cache_invalidation_event \<Rightarrow> (string \<times> nat) list \<Rightarrow> http_cache_invalidation_publish_result \<Rightarrow>
     http_cache_store list \<Rightarrow>
     (http_cache_invalidation_publish_result, http_cache_invalidation_error) result \<times> http_cache_store list" where
  "deliver event [] result stores = (Ok result, stores)"
| "deliver event ((scope, i) # subs) result stores =
     (let result = result\<lparr>pr_subscriber_count := pr_subscriber_count result + 1\<rparr>
      in case apply_invalidation_event event (stores ! i) of
           (Inl e, s) \<Rightarrow> (Err e, stores[i := s])
         | (Inr r, s) \<Rightarrow> deliver event subs (count_delivery r result) (stores[i := s]))"

definition bus_publish ::
  "http_cache_invalidation_event \<Rightarrow> invalidation_bus \<Rightarrow> http_cache_store list \<Rightarrow>
     (http_cache_invalidation_publish_result, http_cache_invalidation_error) result \<times> http_cache_store list" where
  "bus_publish event bus stores =
     (case validate_invalidation_event event of
        Inl e \<Rightarrow> (Err e, stores)
      | Inr _ \<Rightarrow> deliver event (filter (\<lambda>sub. fst sub = iv_scope event) bus) publish_result_default stores)"

section \<open>Keys\<close>

record http_cache_request =
  cq_method :: string
  cq_target :: string
  cq_headers :: "http_header list"

record http_cache_key_material =
  km_primary :: http_cache_key
  km_secondary :: "http_cache_key option"

definition storage_key :: "http_cache_key_material \<Rightarrow> (http_cache_key, http_cache_store_error) result" where
  "storage_key m =
     http_cache_key_new
       (case km_secondary m of
          Some secondary \<Rightarrow> km_primary m @ [CHR 0x00] @ secondary
        | None \<Rightarrow> km_primary m)"

definition canonical_header_values :: "http_header list \<Rightarrow> string \<Rightarrow> string" where
  "canonical_header_values headers name =
     join_str [CHR 0x1F] (sort (map to_ascii_lowercase (filter (\<lambda>v. v \<noteq> []) (header_entries name headers))))"

definition selected_header_names :: "string list \<Rightarrow> string list \<Rightarrow> string list" where
  "selected_header_names primary secondary =
     remdups_adj (sort (filter (\<lambda>name. name \<noteq> []) (map (\<lambda>name. to_ascii_lowercase (trim name)) (primary @ secondary))))"

text \<open>The 64-bit hash FNV-1a, written with sixteen hexadecimal digits.\<close>

definition fnv1a :: "string \<Rightarrow> 64 word" where
  "fnv1a value = fold (\<lambda>c hash. xor hash (of_nat (byte c)) * 1099511628211) value 14695981039346656037"

definition stable_hex_hash :: "string \<Rightarrow> string" where
  "stable_hex_hash value =
     (let digits = show_hex (unat (fnv1a value)) in replicate (16 - length digits) CHR ''0'' @ digits)"

definition authorization_part :: "http_header list \<Rightarrow> string" where
  "authorization_part headers =
     (case find (has_name ''authorization'') headers of
        Some h \<Rightarrow> ''auth='' @ stable_hex_hash (trim (hh_value h))
      | None \<Rightarrow> ''auth=anonymous'')"

definition primary_key_parts ::
  "http_cache_policy_config \<Rightarrow> http_cache_request \<Rightarrow> string \<Rightarrow> canonical_request_target \<Rightarrow> string list" where
  "primary_key_parts policy request canonical_host target =
     (let key = hp_cache_key policy
      in [''path='' @ rt_path target] @
         (if ck_include_host key then [''host='' @ canonical_host] else []) @
         (if ck_include_method key then [''method='' @ map ascii_upper (trim (cq_method request))] else []) @
         (if ck_query key = IncludeAll then [''query='' @ canonical_query target] else []) @
         (if hp_authorization policy = AuthPartition
          then [authorization_part (cq_headers request)] else []) @
         map (\<lambda>name. ''hdr:'' @ name @ ''='' @ canonical_header_values (cq_headers request) name)
           (selected_header_names (ck_headers key) []))"

definition secondary_key_parts :: "http_cache_request \<Rightarrow> string list \<Rightarrow> string list" where
  "secondary_key_parts request vary_headers =
     map (\<lambda>name. ''vary:'' @ name @ ''='' @ canonical_header_values (cq_headers request) name)
       (selected_header_names vary_headers [])"

text \<open>The part after the checks of host and target.\<close>

definition key_material ::
  "http_cache_policy_config \<Rightarrow> http_cache_request \<Rightarrow> string list \<Rightarrow> string \<Rightarrow> canonical_request_target \<Rightarrow>
     (http_cache_key_material option, http_cache_store_error) result" where
  "key_material policy request vary_headers canonical_host target =
     (if list_ex (has_name ''authorization'') (cq_headers request) \<and> hp_authorization policy = AuthBypass
      then Ok None
      else if list_ex (has_name ''cookie'') (cq_headers request) then Ok None
      else
        and_then (if vary_headers = [] then Ok None
                  else and_then (http_cache_key_new (join_str [CHR 0x0A] (secondary_key_parts request vary_headers)))
                         (\<lambda>k. Ok (Some k))) (\<lambda>secondary.
        and_then (http_cache_key_new (join_str [CHR 0x0A] (primary_key_parts policy request canonical_host target)))
          (\<lambda>primary. Ok (Some \<lparr>km_primary = primary, km_secondary = secondary\<rparr>))))"

definition build_http_cache_key_material ::
  "http_cache_policy_config \<Rightarrow> http_cache_request \<Rightarrow> string list \<Rightarrow>
     (http_cache_key_material option, http_cache_store_error) result" where
  "build_http_cache_key_material policy request vary_headers =
     and_then (ok_or CacheMissingHost (extract_host_header (cq_headers request))) (\<lambda>host_header.
     and_then (map_err InvalidHost (canonicalize_host host_header)) (\<lambda>canonical_host.
     and_then (map_err InvalidRequestTarget (canonicalize_request_target (cq_target request))) (\<lambda>target.
       case rt_authority target of
         Some authority \<Rightarrow>
           if authority \<noteq> canonical_host then Err (HostAuthorityMismatch canonical_host authority)
           else key_material policy request vary_headers canonical_host target
       | None \<Rightarrow> key_material policy request vary_headers canonical_host target)))"

section \<open>The store stays within its bounds\<close>

definition bytes_of :: "(http_cache_key, cache_record) btree_map \<Rightarrow> nat" where
  "bytes_of m = sum_list (map (cr_size \<circ> snd) m)"

lemma bytes_of_simps [simp]: "bytes_of [] = 0" "bytes_of (e # m) = cr_size (snd e) + bytes_of m"
  by (simp_all add: bytes_of_def)

lemma bytes_of_absent: "map_of m k = None \<Longrightarrow> bytes_of (bt_remove k m) = bytes_of m"
  by (induction m) (auto simp: bt_remove_def split: if_splits)

lemma bytes_of_remove:
  "bt_ok m \<Longrightarrow> map_of m k = Some r \<Longrightarrow> bytes_of (bt_remove k m) + cr_size r = bytes_of m"
proof (induction m)
  case (Cons e m)
  show ?case
  proof (cases "fst e = k")
    case True
    then have "map_of m k = None" using bt_ok_distinct [OF Cons.prems(1)] by (auto simp: map_of_eq_None_iff)
    with True Cons.prems(2) bytes_of_absent [of m k] show ?thesis by (cases e) (simp add: bt_remove_def)
  next
    case False
    with Cons show ?thesis by (cases e) (auto simp: bt_remove_def bt_ok_Cons)
  qed
qed simp

lemma bytes_of_insert: "map_of m k = None \<Longrightarrow> bytes_of (bt_insert k r m) = cr_size r + bytes_of m"
  by (induction k r m rule: bt_insert.induct) (auto split: if_splits)

text \<open>The entries of a state, apart from its capacity.\<close>

definition record_ok :: "nat \<Rightarrow> http_cache_store_config \<Rightarrow> cache_record \<Rightarrow> bool" where
  "record_ok struct_size config r \<longleftrightarrow>
     cr_size r = entry_size struct_size (cr_entry r) \<and> cr_size r \<le> cc_max_object_bytes config \<and>
     entry_validate (cr_entry r) = Ok ()"

definition records_ok :: "nat \<Rightarrow> http_cache_store_config \<Rightarrow> cache_store_state \<Rightarrow> bool" where
  "records_ok struct_size config st \<longleftrightarrow>
     bt_ok (cs_entries st) \<and> cs_total_bytes st = bytes_of (cs_entries st) \<and>
     (\<forall>k r. map_of (cs_entries st) k = Some r \<longrightarrow> record_ok struct_size config r) \<and>
     (cs_next_sequence st < uint_max 64 \<longrightarrow>
        (\<forall>k r. map_of (cs_entries st) k = Some r \<longrightarrow> cr_inserted_sequence r < cs_next_sequence st))"

definition within_bounds :: "http_cache_store_config \<Rightarrow> cache_store_state \<Rightarrow> bool" where
  "within_bounds config st \<longleftrightarrow>
     length (cs_entries st) \<le> cc_max_entries config \<and> cs_total_bytes st \<le> cc_max_bytes config"

lemma remove_entries: "cs_entries (snd (remove_from_state k st)) = bt_remove k (cs_entries st)"
  by (auto simp: remove_from_state_def bt_remove_def map_of_eq_None_iff image_iff split: option.split
      intro!: filter_True [symmetric])

lemma remove_frame [simp]: "cs_next_sequence (snd (remove_from_state k st)) = cs_next_sequence st"
  by (simp add: remove_from_state_def split: option.split)

lemma remove_records_ok:
  assumes "records_ok n config st"
  shows "records_ok n config (snd (remove_from_state k st))"
proof (cases "map_of (cs_entries st) k")
  case None
  then show ?thesis using assms by (simp add: remove_from_state_def)
next
  case (Some r)
  then have "bytes_of (bt_remove k (cs_entries st)) + cr_size r = bytes_of (cs_entries st)"
    using assms by (intro bytes_of_remove) (simp_all add: records_ok_def)
  then show ?thesis
    using assms Some by (auto simp: records_ok_def remove_from_state_def bt_remove_ok map_of_bt_remove split: if_splits)
qed

lemma remove_within_bounds:
  assumes "within_bounds config st"
  shows "within_bounds config (snd (remove_from_state k st))"
proof -
  have "length (bt_remove k (cs_entries st)) \<le> length (cs_entries st)" by (simp add: bt_remove_def)
  then show ?thesis
    using assms by (auto simp: within_bounds_def remove_from_state_def split: option.split)
qed

lemma remove_keys_simps [simp]:
  "remove_keys [] st = st" "remove_keys (k # ks) st = remove_keys ks (snd (remove_from_state k st))"
  by (simp_all add: remove_keys_def)

lemma remove_keys_records_ok: "records_ok n config st \<Longrightarrow> records_ok n config (remove_keys ks st)"
  by (induction ks arbitrary: st) (auto intro: remove_records_ok)

lemma remove_keys_within: "within_bounds config st \<Longrightarrow> within_bounds config (remove_keys ks st)"
  by (induction ks arbitrary: st) (auto intro: remove_within_bounds)

lemma remove_keys_view:
  "map_of (cs_entries (remove_keys ks st)) = (\<lambda>k. if k \<in> set ks then None else map_of (cs_entries st) k)"
  by (induction ks arbitrary: st) (auto simp: remove_entries map_of_bt_remove)

lemma oldest_None: "oldest_entry_key st = None \<longleftrightarrow> cs_entries st = []"
  by (simp add: oldest_entry_key_def)

lemma evict_records_ok:
  "records_ok n config st \<Longrightarrow> records_ok n config (snd (evict_until_within_bounds config st))"
proof (induction config st rule: evict_until_within_bounds.induct)
  case (1 config st)
  then show ?case
    by (subst evict_until_within_bounds.simps) (auto simp: remove_records_ok split: option.split prod.split)
qed

lemma evict_within:
  "records_ok n config st \<Longrightarrow> within_bounds config (snd (evict_until_within_bounds config st))"
proof (induction config st rule: evict_until_within_bounds.induct)
  case (1 config st)
  show ?case
  proof (cases "length (cs_entries st) > cc_max_entries config \<or> cs_total_bytes st > cc_max_bytes config")
    case True
    have "cs_entries st \<noteq> []" using True "1.prems" by (auto simp: records_ok_def)
    then obtain k where k: "oldest_entry_key st = Some k" using oldest_None by (cases "oldest_entry_key st") auto
    from "1.IH" [OF True k remove_records_ok [OF "1.prems"]] True k show ?thesis
      by (subst evict_until_within_bounds.simps) (auto split: prod.split)
  next
    case False
    then show ?thesis by (subst evict_until_within_bounds.simps) (simp add: within_bounds_def)
  qed
qed

text \<open>Operations on the store.\<close>

datatype cache_op =
    DoInsert duration http_cache_key http_cache_entry
  | DoLookup duration http_cache_key
  | DoRemove http_cache_key
  | DoPurgePrefix string
  | DoPurgeExpired duration
  | DoInvalidate http_cache_invalidation_event

fun cache_step :: "nat \<Rightarrow> cache_op \<Rightarrow> http_cache_store \<Rightarrow> http_cache_store" where
  "cache_step n (DoInsert now k e) s = snd (cache_insert n now k e s)"
| "cache_step n (DoLookup now k) s = snd (cache_lookup now k s)"
| "cache_step n (DoRemove k) s = snd (cache_remove k s)"
| "cache_step n (DoPurgePrefix p) s = snd (cache_purge_path_prefix p s)"
| "cache_step n (DoPurgeExpired now) s = snd (cache_purge_expired now s)"
| "cache_step n (DoInvalidate ev) s = snd (apply_invalidation_event ev s)"

definition cache_run :: "nat \<Rightarrow> cache_op list \<Rightarrow> http_cache_store \<Rightarrow> http_cache_store" where
  "cache_run n ops s = fold (cache_step n) ops s"

definition cache_ok :: "nat \<Rightarrow> http_cache_store \<Rightarrow> bool" where
  "cache_ok n s \<longleftrightarrow>
     records_ok n (hs_config s) (hs_state s) \<and> within_bounds (hs_config s) (hs_state s) \<and>
     length (hs_applied_invalidations s) \<le> 256"

text \<open>The state before entries are evicted.\<close>

definition inserted_state :: "nat \<Rightarrow> duration \<Rightarrow> http_cache_key \<Rightarrow> http_cache_entry \<Rightarrow> cache_store_state \<Rightarrow> cache_store_state" where
  "inserted_state n now key entry st =
     (let st = snd (remove_from_state key st)
      in st\<lparr>cs_next_sequence := sat_add 64 (cs_next_sequence st) 1,
            cs_total_bytes := sat_add 64 (cs_total_bytes st) (entry_size n entry),
            cs_entries := bt_insert key
              \<lparr>cr_entry = entry, cr_size = entry_size n entry, cr_inserted_sequence = cs_next_sequence st,
               cr_last_accessed_tick = duration_tick now, cr_last_accessed_at = now\<rparr> (cs_entries st)\<rparr>)"

lemma cache_insert_cases:
  obtains (invalid) e where "entry_validate entry = Err e" "cache_insert n now key entry s = (Err e, s)"
    | (large) "entry_size n entry > cc_max_object_bytes (hs_config s)"
      "cache_insert n now key entry s =
         (Err (ObjectTooLarge (entry_size n entry) (cc_max_object_bytes (hs_config s))),
          s\<lparr>hs_rejected_insert_count := wrap_add 64 (hs_rejected_insert_count s) 1\<rparr>)"
    | (stored) res s' where "entry_validate entry = Ok ()" "entry_size n entry \<le> cc_max_object_bytes (hs_config s)"
      "cache_insert n now key entry s = (Ok res, s')" "hs_config s' = hs_config s"
      "hs_applied_invalidations s' = hs_applied_invalidations s"
      "ci_replaced res = (map_of (cs_entries (hs_state s)) key \<noteq> None)"
      "(ci_evicted_entries res, hs_state s') = evict_until_within_bounds (hs_config s) (inserted_state n now key entry (hs_state s))"
proof (cases "entry_validate entry")
  case (Inl e)
  then show thesis by (intro invalid) (simp_all add: cache_insert_def)
next
  case (Inr u)
  show thesis
  proof (cases "entry_size n entry > cc_max_object_bytes (hs_config s)")
    case True
    with Inr show thesis by (intro large) (simp_all add: cache_insert_def)
  next
    case False
    obtain old st where rm: "remove_from_state key (hs_state s) = (old, st)" by fastforce
    obtain c st2 where ev: "evict_until_within_bounds (hs_config s) (inserted_state n now key entry (hs_state s)) = (c, st2)"
      by fastforce
    have old: "old = None \<longleftrightarrow> map_of (cs_entries (hs_state s)) key = None"
      using rm by (auto simp: remove_from_state_def split: option.splits)
    have "\<exists>s'. cache_insert n now key entry s = (Ok \<lparr>ci_replaced = old \<noteq> None, ci_evicted_entries = c\<rparr>, s') \<and>
        hs_config s' = hs_config s \<and> hs_applied_invalidations s' = hs_applied_invalidations s \<and> hs_state s' = st2"
      using Inr False rm ev by (simp add: cache_insert_def Let_def inserted_state_def)
    with Inr False old ev show thesis by (auto intro!: stored)
  qed
qed

lemma inserted_state_ok:
  assumes "records_ok n config st" "entry_validate entry = Ok ()" "entry_size n entry \<le> cc_max_object_bytes config"
    and "within_bounds config st" "cc_max_bytes config + cc_max_object_bytes config < 2 ^ 64"
  shows "records_ok n config (inserted_state n now key entry st)"
proof -
  let ?st = "snd (remove_from_state key st)"
  have ok: "records_ok n config ?st" by (rule remove_records_ok [OF assms(1)])
  have absent: "map_of (cs_entries ?st) key = None" by (simp add: remove_entries map_of_bt_remove)
  have bt: "bt_ok (cs_entries ?st)" using ok by (simp add: records_ok_def)
  have "cs_total_bytes ?st \<le> cc_max_bytes config"
    using remove_within_bounds [OF assms(4)] by (simp add: within_bounds_def)
  then have "sat_add 64 (cs_total_bytes ?st) (entry_size n entry) = cs_total_bytes ?st + entry_size n entry"
    using assms(3,5) by (simp add: sat_add_def uint_max_def)
  moreover have "record_ok n config
      \<lparr>cr_entry = entry, cr_size = entry_size n entry, cr_inserted_sequence = q,
       cr_last_accessed_tick = duration_tick now, cr_last_accessed_at = now\<rparr>" for q
    using assms(2,3) by (simp add: record_ok_def)
  ultimately show ?thesis
    using ok absent
    by (auto simp: records_ok_def inserted_state_def Let_def bt_insert_ok map_of_bt_insert [OF bt] bytes_of_insert
        sat_add_def uint_max_def less_Suc_eq split: if_splits)
qed

lemma records_ok_touch:
  assumes "records_ok n config st" "map_of (cs_entries st) k = Some r"
    and "cr_entry r' = cr_entry r" "cr_size r' = cr_size r" "cr_inserted_sequence r' = cr_inserted_sequence r"
  shows "records_ok n config (st\<lparr>cs_entries := bt_insert k r' (cs_entries st)\<rparr>)"
    and "within_bounds config st \<Longrightarrow> within_bounds config (st\<lparr>cs_entries := bt_insert k r' (cs_entries st)\<rparr>)"
proof -
  have bt: "bt_ok (cs_entries st)" using assms(1) by (simp add: records_ok_def)
  have "bytes_of (bt_insert k r' m) = bytes_of m" if "map_of m k = Some r" "bt_ok m" for m
    using that
  proof (induction m)
    case (Cons e m)
    show ?case
    proof (cases "fst e = k")
      case True
      with Cons.prems(1) assms(4) show ?thesis by (cases e) auto
    next
      case False
      then have k: "map_of m k = Some r" using Cons.prems(1) by (cases e) auto
      then have "k \<in> fst ` set m" by (metis domI dom_map_of_conv_image_fst)
      then have "fst e < k" using Cons.prems(2) by (auto simp: bt_ok_Cons)
      with Cons k show ?thesis by (cases e) (auto simp: bt_ok_Cons)
    qed
  qed simp
  moreover have "record_ok n config r'" if "record_ok n config r" using that assms(3,4) by (simp add: record_ok_def)
  ultimately show "records_ok n config (st\<lparr>cs_entries := bt_insert k r' (cs_entries st)\<rparr>)"
    using assms bt by (auto simp: records_ok_def bt_insert_ok map_of_bt_insert split: if_splits)
  show "within_bounds config st \<Longrightarrow> within_bounds config (st\<lparr>cs_entries := bt_insert k r' (cs_entries st)\<rparr>)"
    using assms(2) bt by (simp add: within_bounds_def length_bt_insert bt_has_def)
qed

lemma cache_lookup_cases:
  obtains (absent) "map_of (cs_entries (hs_state s)) key = None" "fst (cache_lookup now key s) = None"
      "hs_state (snd (cache_lookup now key s)) = hs_state s"
    | (expired) r where "map_of (cs_entries (hs_state s)) key = Some r"
      "freshness (ce_metadata (cr_entry r)) now = None" "fst (cache_lookup now key s) = None"
      "hs_state (snd (cache_lookup now key s)) = snd (remove_from_state key (hs_state s))"
    | (hit) r f where "map_of (cs_entries (hs_state s)) key = Some r"
      "freshness (ce_metadata (cr_entry r)) now = Some f"
      "fst (cache_lookup now key s) = Some \<lparr>lk_entry = cr_entry r, lk_freshness = f\<rparr>"
      "hs_state (snd (cache_lookup now key s)) = (hs_state s)\<lparr>cs_entries := bt_insert key
         (r\<lparr>cr_last_accessed_tick := duration_tick now, cr_last_accessed_at := now\<rparr>) (cs_entries (hs_state s))\<rparr>"
proof (cases "map_of (cs_entries (hs_state s)) key")
  case None
  then show thesis by (intro absent) (simp_all add: cache_lookup_def Let_def)
next
  case (Some r)
  show thesis
  proof (cases "freshness (ce_metadata (cr_entry r)) now")
    case None
    with Some show thesis by (intro expired) (simp_all add: cache_lookup_def Let_def)
  next
    case (Some f)
    with \<open>map_of (cs_entries (hs_state s)) key = Some r\<close> show thesis
      by (intro hit) (simp_all add: cache_lookup_def Let_def)
  qed
qed

lemma cache_lookup_frame [simp]:
  "hs_config (snd (cache_lookup now key s)) = hs_config s"
  "hs_applied_invalidations (snd (cache_lookup now key s)) = hs_applied_invalidations s"
  by (simp_all add: cache_lookup_def Let_def split: option.split)

lemma cache_lookup_ok: "cache_ok n s \<Longrightarrow> cache_ok n (snd (cache_lookup now key s))"
  by (rule cache_lookup_cases [of s key now])
    (auto simp: cache_ok_def intro: remove_records_ok remove_within_bounds records_ok_touch)

lemma invalidate_target_ok:
  assumes "records_ok n config st" "within_bounds config st"
  shows "records_ok n config (snd (invalidate_target t st)) \<and> within_bounds config (snd (invalidate_target t st))"
proof (cases t)
  case (ExactKey k)
  then have "snd (invalidate_target t st) = snd (remove_from_state k st)"
    by (simp add: invalidate_target_def split: prod.split)
  then show ?thesis using assms by (simp add: remove_records_ok remove_within_bounds)
next
  case (PathPrefix p)
  then show ?thesis
    using assms by (simp add: invalidate_target_def purge_path_prefix_from_state_def Let_def remove_keys_records_ok remove_keys_within)
qed

lemma apply_invalidation_cases:
  obtains (refused) e where "validate_invalidation_event ev = Err e" "apply_invalidation_event ev s = (Err e, s)"
    | (duplicate) "validate_invalidation_event ev = Ok ()"
      "(iv_issuer ev, iv_event_id ev) \<in> set (hs_applied_invalidations s)"
      "apply_invalidation_event ev s = (Ok Duplicate, s)"
    | (applied) "validate_invalidation_event ev = Ok ()"
      "(iv_issuer ev, iv_event_id ev) \<notin> set (hs_applied_invalidations s)"
      "apply_invalidation_event ev s =
         (Ok (Applied (fst (invalidate_target (iv_target ev) (hs_state s)))),
          s\<lparr>hs_state := snd (invalidate_target (iv_target ev) (hs_state s)),
            hs_applied_invalidations :=
              drop (length (hs_applied_invalidations s) + 1 - 256)
                (hs_applied_invalidations s @ [(iv_issuer ev, iv_event_id ev)])\<rparr>)"
proof (cases "validate_invalidation_event ev")
  case (Inl e)
  then show thesis by (intro refused) (simp_all add: apply_invalidation_event_def)
next
  case (Inr u)
  show thesis
  proof (cases "(iv_issuer ev, iv_event_id ev) \<in> set (hs_applied_invalidations s)")
    case True
    with Inr show thesis by (intro duplicate) (simp_all add: apply_invalidation_event_def)
  next
    case False
    with Inr show thesis
      by (intro applied) (simp_all add: apply_invalidation_event_def Let_def split: prod.split)
  qed
qed

lemma apply_invalidation_ok: "cache_ok n s \<Longrightarrow> cache_ok n (snd (apply_invalidation_event ev s))"
  by (rule apply_invalidation_cases [of ev s]) (auto simp: cache_ok_def invalidate_target_ok)

lemma cache_insert_ok:
  assumes "cache_ok n s" "cc_max_bytes (hs_config s) + cc_max_object_bytes (hs_config s) < 2 ^ 64"
  shows "cache_ok n (snd (cache_insert n now key entry s))"
proof (cases rule: cache_insert_cases [of entry n now key s])
  case (stored res s')
  have ok: "records_ok n (hs_config s) (inserted_state n now key entry (hs_state s))"
    using assms stored(1,2) by (intro inserted_state_ok) (auto simp: cache_ok_def)
  have "hs_state s' = snd (evict_until_within_bounds (hs_config s) (inserted_state n now key entry (hs_state s)))"
    using stored(7) by (metis snd_conv)
  with stored assms(1) evict_records_ok [OF ok] evict_within [OF ok] show ?thesis by (simp add: cache_ok_def)
qed (use assms in \<open>auto simp: cache_ok_def\<close>)

lemma cache_step_config [simp]: "hs_config (cache_step n op s) = hs_config s"
proof (cases op)
  case (DoInsert now k e)
  then show ?thesis by (cases rule: cache_insert_cases [of e n now k s]) simp_all
next
  case (DoInvalidate ev)
  then show ?thesis by (cases rule: apply_invalidation_cases [of ev s]) simp_all
qed (simp_all add: cache_remove_def cache_purge_path_prefix_def cache_purge_expired_def Let_def split: prod.split)

lemma cache_step_ok:
  assumes "cache_ok n s" "cc_max_bytes (hs_config s) + cc_max_object_bytes (hs_config s) < 2 ^ 64"
  shows "cache_ok n (cache_step n op s)"
proof (cases op)
  case (DoRemove k)
  then have "hs_state (cache_step n op s) = snd (remove_from_state k (hs_state s))"
    "hs_applied_invalidations (cache_step n op s) = hs_applied_invalidations s"
    by (simp_all add: cache_remove_def split: prod.split)
  then show ?thesis using assms(1) by (simp add: cache_ok_def remove_records_ok remove_within_bounds)
qed (use assms in \<open>simp_all add: cache_insert_ok cache_lookup_ok apply_invalidation_ok\<close>,
    (simp add: cache_ok_def cache_purge_path_prefix_def cache_purge_expired_def purge_path_prefix_from_state_def
       Let_def remove_keys_records_ok remove_keys_within)+)

lemma cache_run_ok:
  assumes "cache_ok n s" "cc_max_bytes (hs_config s) + cc_max_object_bytes (hs_config s) < 2 ^ 64"
  shows "cache_ok n (cache_run n ops s) \<and> hs_config (cache_run n ops s) = hs_config s"
  using assms by (induction ops arbitrary: s) (auto simp: cache_run_def cache_step_ok)

lemma cache_new_ok: "http_cache_store_new config = Ok s \<Longrightarrow> cache_ok n s \<and> hs_config s = config"
  by (auto simp: http_cache_store_new_def and_then_eq_Ok cache_ok_def records_ok_def within_bounds_def)

text \<open>
  C20. The response cache never outgrows its configuration: after any sequence of insertions,
  look-ups, removals, purges, expirations and invalidations the number of entries and the sum of
  their sizes are within the limits, the byte counter is exactly that sum, no entry is larger than
  the limit for one object, every entry is valid, and at most 256 invalidations are remembered.
  The limits must leave room for one object below the largest 64-bit number.
\<close>

theorem cache_stays_bounded:
  assumes "http_cache_store_new config = Ok s0" "cc_max_bytes config + cc_max_object_bytes config < 2 ^ 64"
    and "s = cache_run struct_size ops s0" "m = cs_entries (hs_state s)"
  shows "length m \<le> cc_max_entries config \<and> cs_total_bytes (hs_state s) = sum_list (map (cr_size \<circ> snd) m) \<and>
    cs_total_bytes (hs_state s) \<le> cc_max_bytes config \<and> distinct (map fst m) \<and>
    (\<forall>k r. map_of m k = Some r \<longrightarrow> cr_size r = entry_size struct_size (cr_entry r) \<and>
       cr_size r \<le> cc_max_object_bytes config \<and> entry_validate (cr_entry r) = Ok ()) \<and>
    length (hs_applied_invalidations s) \<le> 256"
proof -
  have ok: "cache_ok struct_size s" "hs_config s = config"
    using cache_run_ok [of struct_size s0 ops] cache_new_ok [OF assms(1), of struct_size] assms(2,3) by auto
  then have "records_ok struct_size config (hs_state s)" "within_bounds config (hs_state s)"
    "length (hs_applied_invalidations s) \<le> 256" by (simp_all add: cache_ok_def)
  then show ?thesis
    using assms(4) unfolding records_ok_def within_bounds_def bytes_of_def record_ok_def
    by (metis bt_ok_distinct)
qed

definition sample_cache_config :: http_cache_store_config where
  "sample_cache_config = \<lparr>cc_max_entries = 2, cc_max_bytes = 300, cc_max_object_bytes = 150\<rparr>"

definition sample_cache :: http_cache_store where
  "sample_cache =
     \<lparr>hs_config = sample_cache_config, hs_state = \<lparr>cs_entries = [], cs_total_bytes = 0, cs_next_sequence = 0\<rparr>,
      hs_hit_count = 0, hs_miss_count = 0, hs_insert_count = 0, hs_replace_count = 0,
      hs_eviction_count = 0, hs_expiration_count = 0, hs_rejected_insert_count = 0, hs_applied_invalidations = []\<rparr>"

definition sample_entry :: "string \<Rightarrow> duration \<Rightarrow> http_cache_entry" where
  "sample_entry body at =
     \<lparr>ce_metadata = \<lparr>cm_status = 200, cm_stored_at = at, cm_fresh_until = at + secs 60,
        cm_stale_while_revalidate_until = Some (at + secs 90), cm_stale_if_error_until = None,
        cm_etag = None, cm_last_modified = None\<rparr>, ce_headers = [], ce_body = body\<rparr>"

definition sample_cache_ops :: "cache_op list" where
  "sample_cache_ops =
     [DoInsert (secs 1) ''path=/a'' (sample_entry ''a'' (secs 1)),
      DoInsert (secs 2) ''path=/b'' (sample_entry ''b'' (secs 2)),
      DoLookup (secs 3) ''path=/a'',
      DoInsert (secs 4) ''path=/c'' (sample_entry ''c'' (secs 4))]"

lemma sample_cache_new: "http_cache_store_new sample_cache_config = Ok sample_cache"
  by (simp add: http_cache_store_new_def cache_config_validate_def sample_cache_config_def sample_cache_def)

theorem cache_stays_bounded_witness:
  "map fst (cs_entries (hs_state (cache_run 100 sample_cache_ops sample_cache))) = [''path=/a'', ''path=/c''] \<and>
   length (cs_entries (hs_state (cache_run 100 sample_cache_ops sample_cache))) \<le> 2"
proof
  show "map fst (cs_entries (hs_state (cache_run 100 sample_cache_ops sample_cache))) = [''path=/a'', ''path=/c'']"
    by code_simp
  show "length (cs_entries (hs_state (cache_run 100 sample_cache_ops sample_cache))) \<le> 2"
    using cache_stays_bounded [OF sample_cache_new _ refl refl, of 100 sample_cache_ops]
    by (simp add: sample_cache_config_def)
qed

section \<open>The store is a lossy map\<close>

text \<open>
  The specification: a map that keeps every accepted entry until it is replaced, removed, purged or
  expired, and the invalidations that are remembered.
\<close>

record cache_spec =
  sp_entries :: "http_cache_key \<Rightarrow> http_cache_entry option"
  sp_recent :: "(string \<times> string) list"

fun targets :: "http_cache_invalidation_target \<Rightarrow> http_cache_key \<Rightarrow> bool" where
  "targets (ExactKey k) key = (key = k)"
| "targets (PathPrefix p) key = storage_key_matches_path_prefix key p"

fun cache_spec_step :: "nat \<Rightarrow> http_cache_store_config \<Rightarrow> cache_op \<Rightarrow> cache_spec \<Rightarrow> cache_spec" where
  "cache_spec_step n config (DoInsert now k e) a =
     (if entry_validate e = Ok () \<and> entry_size n e \<le> cc_max_object_bytes config
      then a\<lparr>sp_entries := (sp_entries a)(k := Some e)\<rparr> else a)"
| "cache_spec_step n config (DoLookup now k) a = a"
| "cache_spec_step n config (DoRemove k) a = a\<lparr>sp_entries := (sp_entries a)(k := None)\<rparr>"
| "cache_spec_step n config (DoPurgePrefix p) a =
     a\<lparr>sp_entries := (\<lambda>k. if targets (PathPrefix p) k then None else sp_entries a k)\<rparr>"
| "cache_spec_step n config (DoPurgeExpired now) a =
     a\<lparr>sp_entries := (\<lambda>k. case sp_entries a k of
         None \<Rightarrow> None | Some e \<Rightarrow> if now \<ge> expires_at (ce_metadata e) then None else Some e)\<rparr>"
| "cache_spec_step n config (DoInvalidate ev) a =
     (let event = (iv_issuer ev, iv_event_id ev)
      in if validate_invalidation_event ev \<noteq> Ok () \<or> event \<in> set (sp_recent a) then a
         else a\<lparr>sp_entries := (\<lambda>k. if targets (iv_target ev) k then None else sp_entries a k),
                sp_recent := drop (length (sp_recent a) + 1 - 256) (sp_recent a @ [event])\<rparr>)"

definition cache_view :: "http_cache_store \<Rightarrow> http_cache_key \<Rightarrow> http_cache_entry option" where
  "cache_view s k = map_option cr_entry (map_of (cs_entries (hs_state s)) k)"

definition simulates :: "nat \<Rightarrow> http_cache_store \<Rightarrow> cache_spec \<Rightarrow> bool" where
  "simulates n s a \<longleftrightarrow> cache_ok n s \<and> cache_view s \<subseteq>\<^sub>m sp_entries a \<and> hs_applied_invalidations s = sp_recent a"

lemma evict_view: "map_of (cs_entries (snd (evict_until_within_bounds config st))) \<subseteq>\<^sub>m map_of (cs_entries st)"
proof (induction config st rule: evict_until_within_bounds.induct)
  case (1 config st)
  have "map_of (cs_entries (snd (remove_from_state k st))) \<subseteq>\<^sub>m map_of (cs_entries st)" for k
    by (auto simp: remove_entries map_of_bt_remove map_le_def)
  with 1 show ?case
    by (subst evict_until_within_bounds.simps) (auto intro: map_le_trans split: option.split prod.split)
qed

lemma inserted_state_view:
  assumes "bt_ok (cs_entries st)"
  shows "map_of (cs_entries (inserted_state n now key entry st)) = (map_of (cs_entries st))(key \<mapsto>
    \<lparr>cr_entry = entry, cr_size = entry_size n entry, cr_inserted_sequence = cs_next_sequence st,
     cr_last_accessed_tick = duration_tick now, cr_last_accessed_at = now\<rparr>)"
  using assms
  by (simp add: inserted_state_def Let_def remove_entries map_of_bt_insert bt_remove_ok map_of_bt_remove)

lemma invalidate_target_view:
  "map_of (cs_entries (snd (invalidate_target t st))) = (\<lambda>k. if targets t k then None else map_of (cs_entries st) k)"
proof (cases t)
  case (ExactKey k)
  then have "snd (invalidate_target t st) = snd (remove_from_state k st)"
    by (simp add: invalidate_target_def split: prod.split)
  with ExactKey show ?thesis by (auto simp: remove_entries map_of_bt_remove)
next
  case (PathPrefix p)
  then show ?thesis
    by (auto simp: invalidate_target_def purge_path_prefix_from_state_def Let_def remove_keys_view
        map_of_eq_None_iff fun_eq_iff image_iff)
qed

lemma purge_expired_view:
  assumes "bt_ok (cs_entries (hs_state s))"
  shows "cache_view (snd (cache_purge_expired now s)) =
    (\<lambda>k. case cache_view s k of None \<Rightarrow> None | Some e \<Rightarrow> if now \<ge> expires_at (ce_metadata e) then None else Some e)"
proof
  fix k
  let ?m = "cs_entries (hs_state s)"
  have "k \<in> fst ` {(k, r) \<in> set ?m. now \<ge> expires_at (ce_metadata (cr_entry r))} \<longleftrightarrow>
      (\<exists>r. map_of ?m k = Some r \<and> now \<ge> expires_at (ce_metadata (cr_entry r)))"
    using bt_get_mem [OF assms] by (force simp: image_iff)
  then show "cache_view (snd (cache_purge_expired now s)) k =
    (case cache_view s k of None \<Rightarrow> None | Some e \<Rightarrow> if now \<ge> expires_at (ce_metadata e) then None else Some e)"
    by (cases "map_of ?m k") (auto simp: cache_view_def cache_purge_expired_def Let_def remove_keys_view)
qed

lemma map_le_upd: "f \<subseteq>\<^sub>m g \<Longrightarrow> f(k := v) \<subseteq>\<^sub>m g(k := v)"
  by (simp add: map_le_def)

lemma map_le_filter: "f \<subseteq>\<^sub>m g \<Longrightarrow> (\<lambda>k. if P k then None else f k) \<subseteq>\<^sub>m (\<lambda>k. if P k then None else g k)"
  by (auto simp: map_le_def dom_def split: if_splits)

lemma cache_view_state: "hs_state s' = hs_state s \<Longrightarrow> cache_view s' = cache_view s"
  by (simp add: cache_view_def fun_eq_iff)

lemma insert_simulates:
  assumes "simulates n s a" "cc_max_bytes (hs_config s) + cc_max_object_bytes (hs_config s) < 2 ^ 64"
  shows "simulates n (cache_step n (DoInsert now k e) s) (cache_spec_step n (hs_config s) (DoInsert now k e) a)"
proof (cases rule: cache_insert_cases [of e n now k s])
  case (stored res s')
  have bt: "bt_ok (cs_entries (hs_state s))" using assms(1) by (simp add: simulates_def cache_ok_def records_ok_def)
  have st: "hs_state s' = snd (evict_until_within_bounds (hs_config s) (inserted_state n now k e (hs_state s)))"
    using stored(7) by (metis snd_conv)
  have "cache_view s' \<subseteq>\<^sub>m (cache_view s)(k := Some e)"
    using evict_view [of "hs_config s" "inserted_state n now k e (hs_state s)"]
    unfolding cache_view_def st inserted_state_view [OF bt] by (fastforce simp: map_le_def dom_def)
  then have "cache_view s' \<subseteq>\<^sub>m (sp_entries a)(k := Some e)"
    using map_le_upd [of "cache_view s" "sp_entries a" k "Some e"] assms(1) map_le_trans unfolding simulates_def by blast
  moreover have "cache_ok n s'" using cache_insert_ok [of n s now k e] assms stored(3) by (simp add: simulates_def)
  ultimately show ?thesis using stored assms(1) by (simp add: simulates_def)
next
  case (invalid err)
  then show ?thesis using assms by simp
next
  case large
  then show ?thesis using assms by (auto simp: simulates_def cache_ok_def cache_view_def [abs_def])
qed

lemma lookup_view: "bt_ok (cs_entries (hs_state s)) \<Longrightarrow> cache_view (snd (cache_lookup now key s)) \<subseteq>\<^sub>m cache_view s"
  by (cases rule: cache_lookup_cases [of s key now])
    (auto simp: cache_view_def map_le_def map_of_bt_insert remove_entries map_of_bt_remove split: if_splits)

lemma cache_step_simulates:
  assumes "simulates n s a" "cc_max_bytes (hs_config s) + cc_max_object_bytes (hs_config s) < 2 ^ 64"
  shows "simulates n (cache_step n op s) (cache_spec_step n (hs_config s) op a)"
proof -
  have ok: "cache_ok n (cache_step n op s)" using assms cache_step_ok unfolding simulates_def by blast
  have sim: "cache_view s \<subseteq>\<^sub>m sp_entries a" "hs_applied_invalidations s = sp_recent a"
    and bt: "bt_ok (cs_entries (hs_state s))"
    using assms(1) by (simp_all add: simulates_def cache_ok_def records_ok_def)
  show ?thesis
  proof (cases op)
    case (DoInsert now k e)
    then show ?thesis using insert_simulates [OF assms] by simp
  next
    case (DoLookup now k)
    with ok sim lookup_view [OF bt, of now k] map_le_trans show ?thesis by (auto simp: simulates_def)
  next
    case (DoRemove k)
    have "cache_view (snd (cache_remove k s)) = (cache_view s)(k := None)"
      "hs_applied_invalidations (snd (cache_remove k s)) = hs_applied_invalidations s"
      using remove_entries [of k "hs_state s"]
      by (auto simp: cache_view_def cache_remove_def map_of_bt_remove fun_eq_iff split: prod.split)
    with DoRemove ok sim show ?thesis by (simp add: simulates_def map_le_upd)
  next
    case (DoPurgePrefix p)
    have "cache_view (snd (cache_purge_path_prefix p s)) = (\<lambda>k. if targets (PathPrefix p) k then None else cache_view s k)"
      using invalidate_target_view [of "PathPrefix p" "hs_state s"]
      by (auto simp: cache_view_def cache_purge_path_prefix_def invalidate_target_def fun_eq_iff split: prod.split)
    moreover have "hs_applied_invalidations (snd (cache_purge_path_prefix p s)) = hs_applied_invalidations s"
      by (simp add: cache_purge_path_prefix_def split: prod.split)
    ultimately show ?thesis using DoPurgePrefix ok map_le_filter [OF sim(1)] sim(2) by (simp add: simulates_def)
  next
    case (DoPurgeExpired now)
    have "cache_view (snd (cache_purge_expired now s)) \<subseteq>\<^sub>m sp_entries (cache_spec_step n (hs_config s) op a)"
      using sim(1) by (auto simp: purge_expired_view [OF bt] DoPurgeExpired map_le_def dom_def split: option.splits if_splits)
    with DoPurgeExpired ok sim(2) show ?thesis by (simp add: simulates_def cache_purge_expired_def Let_def)
  next
    case (DoInvalidate ev)
    show ?thesis
    proof (cases rule: apply_invalidation_cases [of ev s])
      case applied
      have "cache_view (snd (apply_invalidation_event ev s)) =
          (\<lambda>k. if targets (iv_target ev) k then None else cache_view s k)"
        by (auto simp: applied cache_view_def invalidate_target_view)
      with DoInvalidate ok applied map_le_filter [OF sim(1)] sim(2) show ?thesis by (simp add: simulates_def Let_def)
    qed (use DoInvalidate assms(1) sim(2) in \<open>simp_all add: Let_def\<close>)
  qed
qed

definition cache_spec_run :: "nat \<Rightarrow> http_cache_store_config \<Rightarrow> cache_op list \<Rightarrow> cache_spec" where
  "cache_spec_run n config ops =
     fold (cache_spec_step n config) ops \<lparr>sp_entries = (\<lambda>_. None), sp_recent = []\<rparr>"

lemma cache_run_simulates:
  assumes "simulates n s a" "cc_max_bytes (hs_config s) + cc_max_object_bytes (hs_config s) < 2 ^ 64"
  shows "simulates n (cache_run n ops s) (fold (cache_spec_step n (hs_config s)) ops a)"
  using assms
proof (induction ops arbitrary: s a)
  case (Cons op ops)
  from Cons.IH [OF cache_step_simulates [OF Cons.prems]] Cons.prems(2) show ?case by (simp add: cache_run_def)
qed (simp add: cache_run_def)

lemma new_simulates:
  assumes "http_cache_store_new config = Ok s"
  shows "simulates n s \<lparr>sp_entries = (\<lambda>_. None), sp_recent = []\<rparr>"
proof -
  have "cs_entries (hs_state s) = []" "hs_applied_invalidations s = []"
    using assms by (auto simp: http_cache_store_new_def and_then_eq_Ok)
  with cache_new_ok [OF assms, of n] show ?thesis by (simp add: simulates_def cache_view_def [abs_def])
qed

lemma freshness_expires: "freshness m now = Some f \<Longrightarrow> now < expires_at m"
  by (auto simp: freshness_def split: if_splits)

text \<open>
  C19. The response cache never serves a wrong or outdated object: after any sequence of operations
  a look-up that hits returns the entry that was last accepted for this key, provided that no
  removal, purge, expiration or first-time invalidation has hit the key since, and it reports how
  fresh the entry is at the time of the look-up, before its expiry. The store is thus a lossy
  implementation of the map that the specification \<open>cache_spec_step\<close> describes.
\<close>

theorem cache_serves_latest:
  assumes "http_cache_store_new config = Ok s0" "cc_max_bytes config + cc_max_object_bytes config < 2 ^ 64"
    and "fst (cache_lookup now key (cache_run struct_size ops s0)) = Some hit"
  shows "sp_entries (cache_spec_run struct_size config ops) key = Some (lk_entry hit) \<and>
    freshness (ce_metadata (lk_entry hit)) now = Some (lk_freshness hit) \<and> now < expires_at (ce_metadata (lk_entry hit))"
proof -
  let ?s = "cache_run struct_size ops s0"
  have "simulates struct_size ?s (cache_spec_run struct_size config ops)"
    using cache_run_simulates [OF new_simulates [OF assms(1)]] cache_new_ok [OF assms(1)] assms(2)
    by (simp add: cache_spec_run_def)
  then have le: "cache_view ?s \<subseteq>\<^sub>m sp_entries (cache_spec_run struct_size config ops)" by (simp add: simulates_def)
  show ?thesis
  proof (cases rule: cache_lookup_cases [of ?s key now])
    case (hit r f)
    then have "cache_view ?s key = Some (cr_entry r)" by (simp add: cache_view_def)
    then have "sp_entries (cache_spec_run struct_size config ops) key = Some (cr_entry r)"
      using le unfolding map_le_def by (metis domI)
    with hit assms(3) show ?thesis by (auto simp: freshness_expires)
  qed (use assms(3) in simp_all)
qed

theorem cache_serves_latest_witness:
  "fst (cache_lookup (secs 70) ''path=/a'' (cache_run 100 sample_cache_ops sample_cache)) =
     Some \<lparr>lk_entry = sample_entry ''a'' (secs 1), lk_freshness = StaleWhileRevalidate\<rparr> \<and>
   sp_entries (cache_spec_run 100 sample_cache_config sample_cache_ops) ''path=/a'' = Some (sample_entry ''a'' (secs 1))"
proof
  show hit: "fst (cache_lookup (secs 70) ''path=/a'' (cache_run 100 sample_cache_ops sample_cache)) =
     Some \<lparr>lk_entry = sample_entry ''a'' (secs 1), lk_freshness = StaleWhileRevalidate\<rparr>" by code_simp
  from cache_serves_latest [OF sample_cache_new _ hit]
  show "sp_entries (cache_spec_run 100 sample_cache_config sample_cache_ops) ''path=/a'' = Some (sample_entry ''a'' (secs 1))"
    by (simp add: sample_cache_config_def)
qed

section \<open>Eviction\<close>

lemma oldest_entry_least:
  assumes "bt_ok (cs_entries st)" "oldest_entry_key st = Some k"
  obtains r where "map_of (cs_entries st) k = Some r"
    "\<And>j q. map_of (cs_entries st) j = Some q \<Longrightarrow> access_order (k, r) \<le> access_order (j, q)"
proof -
  let ?m = "cs_entries st"
  let ?e = "arg_min_list access_order ?m"
  have ne: "?m \<noteq> []" and k: "k = fst ?e" using assms(2) by (auto simp: oldest_entry_key_def split: if_splits)
  have mem: "?e \<in> set ?m" by (rule arg_min_list_mem [OF ne])
  then have "map_of ?m k = Some (snd ?e)" using bt_get_mem [OF assms(1)] k by (metis prod.collapse)
  moreover have "access_order (k, snd ?e) \<le> access_order (j, q)" if "map_of ?m j = Some q" for j q
  proof -
    have "(j, q) \<in> set ?m" using bt_get_mem [OF assms(1)] that by blast
    then have "Min (access_order ` set ?m) \<le> access_order (j, q)" by simp
    then show ?thesis using f_arg_min_list_f [OF ne, of access_order] k by simp
  qed
  ultimately show thesis by (rule that)
qed

lemma evict_step:
  assumes "length (cs_entries st) > cc_max_entries config \<or> cs_total_bytes st > cc_max_bytes config"
    and "oldest_entry_key st = Some k"
  shows "evict_until_within_bounds config st =
    apfst Suc (evict_until_within_bounds config (snd (remove_from_state k st)))"
  using assms by (subst evict_until_within_bounds.simps) (auto split: prod.split)

lemma evict_stop: "within_bounds config st \<Longrightarrow> evict_until_within_bounds config st = (0, st)"
  by (subst evict_until_within_bounds.simps) (auto simp: within_bounds_def)

lemma evict_cases [consumes 1, case_names stop step]:
  assumes "records_ok n config st"
  obtains "within_bounds config st"
    | k where "length (cs_entries st) > cc_max_entries config \<or> cs_total_bytes st > cc_max_bytes config"
      "oldest_entry_key st = Some k"
proof (cases "within_bounds config st")
  case False
  then have over: "length (cs_entries st) > cc_max_entries config \<or> cs_total_bytes st > cc_max_bytes config"
    by (auto simp: within_bounds_def)
  then have "cs_entries st \<noteq> []" using assms by (auto simp: records_ok_def)
  with over that(2) show thesis by (cases "oldest_entry_key st") (auto simp: oldest_None)
qed (rule that(1))

lemma evict_least_recent:
  assumes "records_ok n config st" "map_of (cs_entries st) k = Some r"
    and "map_of (cs_entries (snd (evict_until_within_bounds config st))) k = None"
    and "map_of (cs_entries (snd (evict_until_within_bounds config st))) j = Some q"
  shows "access_order (k, r) \<le> access_order (j, q)"
  using assms
proof (induction config st rule: evict_until_within_bounds.induct)
  case (1 config st)
  from "1.prems"(1) show ?case
  proof (cases rule: evict_cases)
    case stop
    with "1.prems" show ?thesis by (simp add: evict_stop)
  next
    case (step o1)
    let ?st = "snd (remove_from_state o1 st)"
    have ev: "snd (evict_until_within_bounds config st) = snd (evict_until_within_bounds config ?st)"
      using evict_step [OF step] by simp
    have bt: "bt_ok (cs_entries st)" using "1.prems"(1) by (simp add: records_ok_def)
    show ?thesis
    proof (cases "k = o1")
      case True
      have "map_of (cs_entries ?st) j = Some q" using "1.prems"(4) evict_view [of config ?st] unfolding ev map_le_def by (metis domI)
      then have "map_of (cs_entries st) j = Some q" by (auto simp: remove_entries map_of_bt_remove split: if_splits)
      with oldest_entry_least [OF bt step(2)] True "1.prems"(2) show ?thesis by (metis option.inject)
    next
      case False
      then have "map_of (cs_entries ?st) k = Some r" using "1.prems"(2) by (simp add: remove_entries map_of_bt_remove)
      with "1.IH" [OF step remove_records_ok [OF "1.prems"(1)]] "1.prems"(3,4) show ?thesis unfolding ev by blast
    qed
  qed
qed

lemma evict_keeps_newest:
  assumes "records_ok n config st" "map_of (cs_entries st) k = Some r"
    and "\<forall>j q. j \<noteq> k \<longrightarrow> map_of (cs_entries st) j = Some q \<longrightarrow> access_order (j, q) < access_order (k, r)"
    and "cr_size r \<le> cc_max_bytes config" "0 < cc_max_entries config"
  shows "map_of (cs_entries (snd (evict_until_within_bounds config st))) k = Some r"
  using assms
proof (induction config st rule: evict_until_within_bounds.induct)
  case (1 config st)
  from "1.prems"(1) show ?case
  proof (cases rule: evict_cases)
    case stop
    with "1.prems" show ?thesis by (simp add: evict_stop)
  next
    case (step o1)
    let ?st = "snd (remove_from_state o1 st)"
    have bt: "bt_ok (cs_entries st)" using "1.prems"(1) by (simp add: records_ok_def)
    have "o1 \<noteq> k"
    proof
      assume o1: "o1 = k"
      obtain r0 where r0: "map_of (cs_entries st) k = Some r0"
        "\<And>j q. map_of (cs_entries st) j = Some q \<Longrightarrow> access_order (k, r0) \<le> access_order (j, q)"
        using oldest_entry_least [OF bt step(2)] o1 by blast
      have only: "j = k" if j: "map_of (cs_entries st) j = Some q" for j q
      proof (rule ccontr)
        assume "j \<noteq> k"
        then have "access_order (j, q) < access_order (k, r)" using "1.prems"(3) j by blast
        with r0(2) [OF j] r0(1) "1.prems"(2) show False by simp
      qed
      have "e = (k, r)" if "e \<in> set (cs_entries st)" for e
      proof -
        have "map_of (cs_entries st) (fst e) = Some (snd e)" using that bt_get_mem [OF bt] by (metis prod.collapse)
        with only "1.prems"(2) show ?thesis by (cases e) auto
      qed
      then have "set (cs_entries st) \<subseteq> {(k, r)}" by blast
      moreover have "distinct (cs_entries st)" using bt_ok_distinct [OF bt] by (simp add: distinct_map)
      moreover have "cs_entries st \<noteq> []" using "1.prems"(2) by auto
      ultimately have "cs_entries st = [(k, r)]" by (cases "cs_entries st" rule: remdups_adj.cases) auto
      with step(1) "1.prems"(1,4,5) show False by (auto simp: records_ok_def)
    qed
    then have "map_of (cs_entries ?st) k = Some r" using "1.prems"(2) by (simp add: remove_entries map_of_bt_remove)
    moreover have "\<forall>j q. j \<noteq> k \<longrightarrow> map_of (cs_entries ?st) j = Some q \<longrightarrow> access_order (j, q) < access_order (k, r)"
      using "1.prems"(3) by (auto simp: remove_entries map_of_bt_remove split: if_splits)
    ultimately show ?thesis
      using "1.IH" [OF step remove_records_ok [OF "1.prems"(1)]] "1.prems"(4,5) evict_step [OF step] by simp
  qed
qed

lemma evict_count:
  "records_ok n config st \<Longrightarrow>
     fst (evict_until_within_bounds config st) + length (cs_entries (snd (evict_until_within_bounds config st))) =
     length (cs_entries st)"
proof (induction config st rule: evict_until_within_bounds.induct)
  case (1 config st)
  from "1.prems" show ?case
  proof (cases rule: evict_cases)
    case stop
    then show ?thesis by (simp add: evict_stop)
  next
    case (step k)
    have bt: "bt_ok (cs_entries st)" using "1.prems" by (simp add: records_ok_def)
    have "k \<in> fst ` set (cs_entries st)" by (rule oldest_entry_key_has [OF step(2)])
    then have "length (bt_remove k (cs_entries st)) = length (cs_entries st) - 1" "cs_entries st \<noteq> []"
      using bt by (auto simp: length_bt_remove bt_has_iff)
    then have "Suc (length (bt_remove k (cs_entries st))) = length (cs_entries st)" by (cases "cs_entries st") auto
    with "1.IH" [OF step remove_records_ok [OF "1.prems"]] evict_step [OF step] show ?thesis
      by (simp add: remove_entries)
  qed
qed

lemma config_valid_bounds:
  "http_cache_store_new config = Ok s \<Longrightarrow> 0 < cc_max_entries config \<and> cc_max_object_bytes config \<le> cc_max_bytes config"
  by (auto simp: http_cache_store_new_def cache_config_validate_def and_then_eq_Ok split: if_splits)

lemma lookup_hit:
  "map_of (cs_entries (hs_state s)) key = Some r \<Longrightarrow> freshness (ce_metadata (cr_entry r)) t = Some f \<Longrightarrow>
     fst (cache_lookup t key s) = Some \<lparr>lk_entry = cr_entry r, lk_freshness = f\<rparr>"
  by (simp add: cache_lookup_def Let_def)

text \<open>
  An accepted object is served until it expires, and room is made for it by dropping the objects
  that were not used for the longest time: if the clock has not gone back, a look-up of the key
  after the insertion returns the new entry whenever it is not expired; every other entry is kept
  unchanged or evicted; an evicted entry was last used no later than any entry that stays; the
  reported number is the number of evicted entries; and nothing is evicted when everything fits.
\<close>

lemma insert_evicts_least_recent:
  assumes "http_cache_store_new config = Ok s0" "cc_max_bytes config + cc_max_object_bytes config < 2 ^ 64"
    and "s = cache_run struct_size ops s0" "m = cs_entries (hs_state s)" "cs_next_sequence (hs_state s) < 2 ^ 64 - 1"
    and clock: "\<forall>k r. map_of m k = Some r \<longrightarrow> cr_last_accessed_tick r \<le> duration_tick now"
    and ins: "cache_insert struct_size now key entry s = (Ok res, s')" "m' = cs_entries (hs_state s')"
  shows "(\<forall>t f. freshness (ce_metadata entry) t = Some f \<longrightarrow>
      fst (cache_lookup t key s') = Some \<lparr>lk_entry = entry, lk_freshness = f\<rparr>) \<and>
    (\<forall>k. k \<noteq> key \<longrightarrow> map_of m' k = map_of m k \<or> map_of m' k = None) \<and>
    (\<forall>k r j q. k \<noteq> key \<longrightarrow> map_of m k = Some r \<longrightarrow> map_of m' k = None \<longrightarrow> map_of m' j = Some q \<longrightarrow>
       access_order (k, r) \<le> access_order (j, q)) \<and>
    ci_evicted_entries res + length m' = (if ci_replaced res then length m else Suc (length m)) \<and>
    (length m < cc_max_entries config \<longrightarrow>
       cs_total_bytes (hs_state s) + entry_size struct_size entry \<le> cc_max_bytes config \<longrightarrow> ci_evicted_entries res = 0)"
proof -
  have ok: "cache_ok struct_size s" and cfg: "hs_config s = config"
    using cache_run_ok [of struct_size s0 ops] cache_new_ok [OF assms(1), of struct_size] assms(2,3) by auto
  have rec: "records_ok struct_size config (hs_state s)" "within_bounds config (hs_state s)" and bt: "bt_ok m"
    using ok cfg assms(4) by (simp_all add: cache_ok_def records_ok_def)
  have ins_ok: "entry_validate entry = Ok ()" "entry_size struct_size entry \<le> cc_max_object_bytes config"
    and repl: "ci_replaced res = (map_of m key \<noteq> None)"
    and ev: "(ci_evicted_entries res, hs_state s') =
      evict_until_within_bounds config (inserted_state struct_size now key entry (hs_state s))"
    using ins(1) cfg assms(4) by (cases rule: cache_insert_cases [of entry struct_size now key s]; simp)+
  let ?st = "inserted_state struct_size now key entry (hs_state s)"
  let ?r = "\<lparr>cr_entry = entry, cr_size = entry_size struct_size entry,
     cr_inserted_sequence = cs_next_sequence (hs_state s), cr_last_accessed_tick = duration_tick now, cr_last_accessed_at = now\<rparr>"
  have st_ok: "records_ok struct_size config ?st" by (rule inserted_state_ok [OF rec(1) ins_ok rec(2) assms(2)])
  have view: "map_of (cs_entries ?st) = (map_of m)(key \<mapsto> ?r)"
    using inserted_state_view [of "hs_state s"] bt assms(4) by simp
  have st': "hs_state s' = snd (evict_until_within_bounds config ?st)" "ci_evicted_entries res = fst (evict_until_within_bounds config ?st)"
    using ev by (metis fst_conv snd_conv)+
  have "access_order (j, q) < access_order (key, ?r)" if "j \<noteq> key" "map_of (cs_entries ?st) j = Some q" for j q
  proof -
    have q: "map_of m j = Some q" using that view by simp
    then have "cr_inserted_sequence q < cs_next_sequence (hs_state s)"
      using rec(1) assms(4,5) by (auto simp: records_ok_def uint_max_def)
    with clock q show ?thesis by (fastforce simp: access_order_def less_prod_def)
  qed
  then have keep: "map_of m' key = Some ?r"
    unfolding ins(2) st'(1)
    using config_valid_bounds [OF assms(1)] ins_ok(2) view
    by (intro evict_keeps_newest [OF st_ok]) auto
  have le: "map_of m' \<subseteq>\<^sub>m (map_of m)(key \<mapsto> ?r)" using evict_view [of config ?st] unfolding ins(2) st'(1) view .
  have "length (cs_entries ?st) = (if ci_replaced res then length m else Suc (length m))"
    using bt repl assms(4) by (cases "m = []") (auto simp: inserted_state_def Let_def remove_entries length_bt_insert
        length_bt_remove bt_remove_ok bt_has_def map_of_bt_remove)
  moreover have "\<forall>k. k \<noteq> key \<longrightarrow> map_of m' k = map_of m k \<or> map_of m' k = None"
    using le unfolding map_le_def by (metis domIff fun_upd_other)
  moreover have "access_order (k, r) \<le> access_order (j, q)"
    if "k \<noteq> key" "map_of m k = Some r" "map_of m' k = None" "map_of m' j = Some q" for k r j q
    using evict_least_recent [OF st_ok] that view ins(2) st'(1) by simp
  moreover have "within_bounds config ?st" if "length m < cc_max_entries config"
      "cs_total_bytes (hs_state s) + entry_size struct_size entry \<le> cc_max_bytes config"
  proof -
    have "length (cs_entries ?st) \<le> cc_max_entries config" using calculation(1) that(1) by (auto split: if_splits)
    moreover have "cs_total_bytes ?st \<le> cs_total_bytes (hs_state s) + entry_size struct_size entry"
      by (auto simp: inserted_state_def Let_def remove_from_state_def sat_add_def split: option.split)
    ultimately show ?thesis using that(2) by (simp add: within_bounds_def)
  qed
  ultimately show ?thesis
    using evict_count [OF st_ok] keep lookup_hit [of s' key ?r] ins(2) st' evict_stop [of config ?st] by auto
qed

section \<open>Delivery of invalidations\<close>

lemma apply_invalidation_valid:
  assumes "validate_invalidation_event ev = Ok ()"
  obtains r s' where "apply_invalidation_event ev s = (Ok r, s')"
    "(iv_issuer ev, iv_event_id ev) \<in> set (hs_applied_invalidations s')"
    "\<And>k. map_of (cs_entries (hs_state s')) k \<noteq> None \<Longrightarrow> map_of (cs_entries (hs_state s)) k \<noteq> None"
    "(iv_issuer ev, iv_event_id ev) \<notin> set (hs_applied_invalidations s) \<Longrightarrow>
       \<forall>k. targets (iv_target ev) k \<longrightarrow> map_of (cs_entries (hs_state s')) k = None"
    "(iv_issuer ev, iv_event_id ev) \<in> set (hs_applied_invalidations s) \<Longrightarrow> s' = s \<and> r = Duplicate"
proof (cases rule: apply_invalidation_cases [of ev s])
  case (refused e)
  then show thesis using assms by simp
next
  case duplicate
  then show thesis by (intro that) auto
next
  case applied
  have "(iv_issuer ev, iv_event_id ev) \<in>
      set (drop (length (hs_applied_invalidations s) + 1 - 256) (hs_applied_invalidations s @ [(iv_issuer ev, iv_event_id ev)]))"
    by (simp add: drop_Cons')
  with applied show thesis by (intro that [OF applied(3)]) (auto simp: invalidate_target_view split: if_splits)
qed

lemma apply_invalidation_idem:
  assumes "validate_invalidation_event ev = Ok ()"
  shows "apply_invalidation_event ev (snd (apply_invalidation_event ev s)) =
    (Ok Duplicate, snd (apply_invalidation_event ev s))"
proof -
  obtain r s' where s': "apply_invalidation_event ev s = (Ok r, s')"
    "(iv_issuer ev, iv_event_id ev) \<in> set (hs_applied_invalidations s')"
    by (rule apply_invalidation_valid [OF assms, of s])
  with assms show ?thesis by (simp add: apply_invalidation_event_def)
qed

definition deliveries :: "http_cache_invalidation_publish_result \<Rightarrow> nat \<times> nat \<times> nat \<times> nat" where
  "deliveries p = (pr_subscriber_count p, pr_delivery_success_count p, pr_applied_count p + pr_duplicate_count p,
     pr_delivery_failure_count p)"

lemma deliver_result:
  assumes "validate_invalidation_event ev = Ok ()" "\<forall>i\<in>snd ` set subs. i < length stores"
  shows "\<exists>p'. deliver ev subs p stores =
      (Ok p', map (\<lambda>i. if i \<in> snd ` set subs then snd (apply_invalidation_event ev (stores ! i)) else stores ! i)
                [0..<length stores]) \<and>
    pr_subscriber_count p' = pr_subscriber_count p + length subs \<and>
    pr_delivery_success_count p' = pr_delivery_success_count p + length subs \<and>
    pr_applied_count p' + pr_duplicate_count p' = pr_applied_count p + pr_duplicate_count p + length subs \<and>
    pr_delivery_failure_count p' = pr_delivery_failure_count p"
  using assms(2)
proof (induction subs arbitrary: p stores)
  case Nil
  then show ?case by (simp add: map_nth)
next
  case (Cons sub subs)
  obtain sc i where sub: "sub = (sc, i)" by fastforce
  obtain r s' where ap: "apply_invalidation_event ev (stores ! i) = (Ok r, s')"
    by (rule apply_invalidation_valid [OF assms(1), of "stores ! i"])
  let ?stores = "stores[i := s']"
  let ?p = "count_delivery r (p\<lparr>pr_subscriber_count := pr_subscriber_count p + 1\<rparr>)"
  have i: "i < length stores" using Cons.prems sub by simp
  have s': "s' = snd (apply_invalidation_event ev (stores ! i))" using ap by simp
  have twice: "snd (apply_invalidation_event ev s') = s'" using apply_invalidation_idem [OF assms(1)] s' by (metis snd_conv)
  have "map (\<lambda>j. if j \<in> snd ` set subs then snd (apply_invalidation_event ev (?stores ! j)) else ?stores ! j) [0..<length stores] =
    map (\<lambda>j. if j \<in> snd ` set (sub # subs) then snd (apply_invalidation_event ev (stores ! j)) else stores ! j) [0..<length stores]"
    using i twice s' sub by (auto simp: nth_list_update)
  with Cons.IH [of ?stores ?p] Cons.prems ap sub show ?case
    by (auto simp: count_delivery_def split: http_cache_invalidation_apply_result.splits)
qed

lemma invalidated_entries:
  assumes "validate_invalidation_event ev = Ok ()" "(iv_issuer ev, iv_event_id ev) \<notin> set (hs_applied_invalidations s)"
  shows "map_of (cs_entries (hs_state (snd (apply_invalidation_event ev s)))) k =
    (if targets (iv_target ev) k then None else map_of (cs_entries (hs_state s)) k)"
  using assms by (cases rule: apply_invalidation_cases [of ev s]) (simp_all add: invalidate_target_view)

text \<open>
  Publishing an invalidation reaches every store that listens to its scope, exactly once: a valid
  event is never refused on the way, every delivery is counted as a success, a store that has not
  seen the event loses exactly the entries that it targets, every other store is untouched, also
  when a store is registered several times, and publishing the event again changes nothing.
\<close>

lemma invalidation_converges:
  assumes "validate_invalidation_event ev = Ok ()" "\<forall>sub\<in>set bus. snd sub < length stores"
    and "bus_publish ev bus stores = (res, stores')" "listeners = {i. (iv_scope ev, i) \<in> set bus}"
  shows "(\<exists>r. res = Ok r \<and> pr_subscriber_count r = length (filter (\<lambda>sub. fst sub = iv_scope ev) bus) \<and>
      pr_delivery_success_count r = pr_subscriber_count r \<and> pr_delivery_failure_count r = 0 \<and>
      pr_applied_count r + pr_duplicate_count r = pr_subscriber_count r) \<and>
    length stores' = length stores \<and>
    (\<forall>i k. i \<in> listeners \<longrightarrow> (iv_issuer ev, iv_event_id ev) \<notin> set (hs_applied_invalidations (stores ! i)) \<longrightarrow>
       map_of (cs_entries (hs_state (stores' ! i))) k =
         (if targets (iv_target ev) k then None else map_of (cs_entries (hs_state (stores ! i))) k)) \<and>
    (\<forall>i<length stores. i \<notin> listeners \<longrightarrow> stores' ! i = stores ! i) \<and>
    snd (bus_publish ev bus stores') = stores'"
proof -
  let ?subs = "filter (\<lambda>sub. fst sub = iv_scope ev) bus"
  have listen: "snd ` set ?subs = listeners" using assms(4) by force
  have bound: "\<forall>i\<in>snd ` set ?subs. i < length stores" using assms(2) by auto
  obtain r where r: "deliver ev ?subs publish_result_default stores = (Ok r,
      map (\<lambda>i. if i \<in> listeners then snd (apply_invalidation_event ev (stores ! i)) else stores ! i) [0..<length stores])"
    and counts: "pr_subscriber_count r = length ?subs" "pr_delivery_success_count r = length ?subs"
      "pr_applied_count r + pr_duplicate_count r = length ?subs" "pr_delivery_failure_count r = 0"
    using deliver_result [OF assms(1) bound, of publish_result_default] unfolding listen
    by (auto simp: publish_result_default_def)
  have res: "res = Ok r"
    and stores': "stores' = map (\<lambda>i. if i \<in> listeners then snd (apply_invalidation_event ev (stores ! i)) else stores ! i)
      [0..<length stores]"
    using assms(1,3) r by (simp_all add: bus_publish_def)
  have nth: "stores' ! i = (if i \<in> listeners then snd (apply_invalidation_event ev (stores ! i)) else stores ! i)"
    if "i < length stores" for i using that by (simp add: stores')
  have bound': "\<forall>i\<in>snd ` set ?subs. i < length stores'" using bound by (simp add: stores')
  have "snd (bus_publish ev bus stores') =
      map (\<lambda>i. if i \<in> listeners then snd (apply_invalidation_event ev (stores' ! i)) else stores' ! i) [0..<length stores']"
    using deliver_result [OF assms(1) bound', of publish_result_default] assms(1) unfolding listen
    by (auto simp: bus_publish_def)
  also have "\<dots> = stores'"
    using nth apply_invalidation_idem [OF assms(1)] by (intro nth_equalityI) (auto simp: stores')
  finally have again: "snd (bus_publish ev bus stores') = stores'" .
  have "i < length stores" if "i \<in> listeners" for i using that bound listen by blast
  with again counts res nth invalidated_entries [OF assms(1)] show ?thesis by (auto simp: stores')
qed

end
