(* ===== verification/Cache_Keys.thy ===== *)
theory Cache_Keys
  imports Http_Cache
begin

text \<open>
  Properties of the cache keys that \<open>build_http_cache_key_material\<close> of
  \<open>crates/runtime/src/http_cache.rs\<close> makes: purging a path prefix hits exactly the requests below
  the path, and different requests get different keys as far as the policy distinguishes them.
\<close>

section \<open>Keys\<close>

text \<open>
  The characters of the lines of a key: ASCII without the characters that separate the lines and the
  two parts of a key. The parser of request heads accepts no others in targets and header values,
  apart from bytes above 127.
\<close>

definition key_char :: "char \<Rightarrow> bool" where
  "key_char c \<longleftrightarrow> byte c < 128 \<and> c \<noteq> CHR 0x00 \<and> c \<noteq> CHR 0x0A \<and> c \<noteq> CHR 0x0D"

definition key_text :: "string \<Rightarrow> bool" where
  "key_text s \<longleftrightarrow> (\<forall>c\<in>set s. key_char c)"

named_theorems key_text_intros

lemma key_text_simps [simp]:
  "key_text []" "key_text (c # s) \<longleftrightarrow> key_char c \<and> key_text s" "key_text (s @ t) \<longleftrightarrow> key_text s \<and> key_text t"
  by (auto simp: key_text_def)

lemma key_text_mono: "key_text s \<Longrightarrow> set t \<subseteq> set s \<Longrightarrow> key_text t"
  by (auto simp: key_text_def)

lemma key_text_trim [key_text_intros]: "key_text s \<Longrightarrow> key_text (trim s)"
  by (erule key_text_mono) (rule set_trim)

lemma key_char_byte: "key_char c \<longleftrightarrow> byte c < 128 \<and> byte c \<notin> {0, 10, 13}"
proof -
  have "c = CHR 0x00 \<longleftrightarrow> byte c = byte CHR 0x00" "c = CHR 0x0A \<longleftrightarrow> byte c = byte CHR 0x0A"
    "c = CHR 0x0D \<longleftrightarrow> byte c = byte CHR 0x0D" by (simp_all only: byte_inj)
  moreover have "byte CHR 0x00 = 0" "byte CHR 0x0A = 10" "byte CHR 0x0D = 13" by (simp_all add: byte_def)
  ultimately show ?thesis by (auto simp: key_char_def)
qed

lemma key_text_lower [key_text_intros]: "key_text s \<Longrightarrow> key_text (to_ascii_lowercase s)"
  by (auto simp: key_text_def to_ascii_lowercase_map key_char_byte byte_ascii_lower)

lemma key_text_upper [key_text_intros]: "key_text s \<Longrightarrow> key_text (map ascii_upper s)"
  by (auto simp: key_text_def key_char_byte byte_ascii_upper)

lemma key_text_join [key_text_intros]: "key_text sep \<Longrightarrow> \<forall>x\<in>set xs. key_text x \<Longrightarrow> key_text (join_str sep xs)"
  by (induction sep xs rule: join_str.induct) auto

lemma key_text_split: "key_text s \<Longrightarrow> w \<in> set (split_on c s) \<Longrightarrow> key_text w"
  using split_on_sub key_text_mono by blast

lemma key_text_ascii: "key_text s \<Longrightarrow> is_ascii s"
  by (auto simp: key_text_def is_ascii_def key_char_def list_all_iff)

lemma hexdigit_key_char: "is_ascii_hexdigit c \<Longrightarrow> key_char c"
  by (auto simp: is_ascii_hexdigit_def key_char_byte)

lemma key_text_percent: "canonicalize_percent_encoded s = Ok r \<Longrightarrow> key_text s \<Longrightarrow> key_text r"
  using canonical_percent_chars [of s r] key_text_ascii [of s] hexdigit_key_char
  unfolding key_text_def by blast

lemma key_text_host:
  assumes "canonicalize_host s = Ok h" "key_text s"
  shows "key_text h"
proof -
  have "set h \<subseteq> set (to_ascii_lowercase (trim s))"
    using assms(1) by (auto simp: canonicalize_host_def Let_def strip_suffix_char_def split: if_splits dest: in_set_butlastD)
  then show ?thesis using key_text_lower [OF key_text_trim [OF assms(2)]] key_text_mono by blast
qed

lemma key_text_raw_pairs:
  "canonicalize_raw_pairs raws = Ok pairs \<Longrightarrow> \<forall>w\<in>set raws. key_text w \<Longrightarrow>
     \<forall>(n, v)\<in>set pairs. key_text n \<and> key_text v"
proof (induction raws arbitrary: pairs)
  case (Cons raw rest)
  define nv where "nv = (case split_once CHR ''='' raw of Some nv \<Rightarrow> nv | None \<Rightarrow> (raw, []))"
  have "key_text (fst nv) \<and> key_text (snd nv)"
    using Cons.prems(2) by (auto simp: nv_def split_once_Some split: option.split)
  moreover obtain n v ps where "canonicalize_percent_encoded (fst nv) = Ok n" "canonicalize_percent_encoded (snd nv) = Ok v"
    "canonicalize_raw_pairs rest = Ok ps" "pairs = (n, v) # ps"
    using Cons.prems(1) by (auto simp: nv_def [symmetric] and_then_eq_Ok Let_def split: if_splits prod.splits)
  ultimately show ?case using Cons.IH [of ps] Cons.prems(2) key_text_percent by auto
qed simp

lemma key_text_query_pairs:
  assumes "canonicalize_query_pairs q = Ok pairs" "key_text q"
  shows "\<forall>(n, v)\<in>set pairs. key_text n \<and> key_text v"
proof (cases "q = []")
  case False
  then obtain ps where "canonicalize_raw_pairs (split_on CHR ''&'' q) = Ok ps" "pairs = sort ps"
    using assms(1) by (auto simp: canonicalize_query_pairs_def and_then_eq_Ok)
  with key_text_raw_pairs [of _ ps] key_text_split [OF assms(2)] show ?thesis by simp
qed (use assms(1) in \<open>simp add: canonicalize_query_pairs_def\<close>)

lemma key_text_split_target:
  assumes "split_target t = Ok (authority, rest)" "key_text t"
  shows "key_text rest"
proof -
  have "key_char CHR ''/''" by (simp add: key_char_byte byte_def)
  moreover have "set rest \<subseteq> set t \<union> {CHR ''/''}"
    using assms(1) by (auto simp: split_target_def Let_def and_then_eq_Ok split: if_splits option.splits dest: in_set_dropD)
  ultimately show ?thesis using assms(2) by (auto simp: key_text_def)
qed

lemma key_text_path_and_query:
  assumes "split_path_and_query s = (path, query)" "key_text s"
  shows "key_text path \<and> key_text query"
proof -
  have "key_char CHR ''/''" by (simp add: key_char_byte byte_def)
  with assms show ?thesis
    by (auto simp: split_path_and_query_def split_once_Some split: if_splits option.splits)
qed

lemma key_text_target:
  assumes "canonicalize_request_target s = Ok t" "key_text s"
  shows "key_text (rt_path t) \<and> key_text (canonical_query t)"
proof -
  obtain authority rest where st0: "split_target (trim s) = Ok (authority, rest)"
    using assms(1) by (auto simp: canonicalize_request_target_def Let_def and_then_eq_Ok split: if_splits)
  obtain path query where st1: "split_path_and_query rest = (path, query)" by fastforce
  obtain p q where st2: "canonicalize_percent_encoded path = Ok p" "canonicalize_query_pairs query = Ok q"
    "t = \<lparr>rt_authority = authority, rt_path = p, rt_query_pairs = q\<rparr>"
    using assms(1) st0 st1
    by (auto simp: canonicalize_request_target_def Let_def and_then_eq_Ok split: if_splits)
  note st = st0 st1 st2
  have "key_text rest" by (rule key_text_split_target [OF st(1) key_text_trim [OF assms(2)]])
  then have pq: "key_text path" "key_text query" using key_text_path_and_query [OF st(2)] by auto
  have "key_char CHR ''&''" "key_char CHR ''=''" by (simp_all add: key_char_byte byte_def)
  then have "key_text (canonical_query t)"
    using key_text_query_pairs [OF st(4) pq(2)] st(5)
    by (fastforce simp: canonical_query_def intro!: key_text_join)
  then show ?thesis using key_text_percent [OF st(3) pq(1)] st(5) by simp
qed

lemma key_text_header_values:
  assumes "\<forall>h\<in>set headers. key_text (hh_value h)"
  shows "key_text (canonical_header_values headers name)"
proof -
  have "key_text v" if v: "v \<in> set (header_entries name headers)" for v
  proof -
    obtain h w where "h \<in> set headers" "w \<in> set (split_on CHR '','' (hh_value h))" "v = trim w"
      using v by (auto simp: header_entries_def)
    with assms show ?thesis by (auto intro: key_text_trim key_text_split)
  qed
  moreover have "key_char CHR 0x1F" by (simp add: key_char_byte byte_def)
  ultimately show ?thesis
    unfolding canonical_header_values_def by (intro key_text_join) (auto intro: key_text_lower)
qed

lemma selected_names_text:
  "\<forall>n\<in>set names. key_text n \<Longrightarrow> n \<in> set (selected_header_names names []) \<Longrightarrow> key_text n"
  by (auto simp: selected_header_names_def intro: key_text_lower key_text_trim)

lemma key_text_hash: "key_text (stable_hex_hash s)"
proof -
  have "key_char c" if "c \<in> set (show_hex n)" for c n
    using show_radix_alnum [of 16 n] that by (auto simp: show_hex_def alnum_def Let_def key_char_byte byte_def)
  moreover have "key_char CHR ''0''" by (simp add: key_char_byte byte_def)
  ultimately show ?thesis by (auto simp: key_text_def stable_hex_hash_def Let_def)
qed

text \<open>Requests whose texts are free of the separators.\<close>

definition plain_request :: "http_cache_policy_config \<Rightarrow> string list \<Rightarrow> http_cache_request \<Rightarrow> bool" where
  "plain_request policy vary_headers r \<longleftrightarrow>
     key_text (cq_target r) \<and> key_text (cq_method r) \<and> (\<forall>h\<in>set (cq_headers r). key_text (hh_value h)) \<and>
     (\<forall>n\<in>set (ck_headers (hp_cache_key policy) @ vary_headers). key_text n)"

lemma key_parts_text:
  assumes "plain_request policy vary r" "key_text host" "canonicalize_request_target (cq_target r) = Ok t"
  shows "\<forall>p\<in>set (primary_key_parts policy r host t). key_text p" "\<forall>p\<in>set (secondary_key_parts r vary). key_text p"
proof -
  have lits: "key_text ''path=''" "key_text ''host=''" "key_text ''method=''" "key_text ''query=''" "key_text ''auth=''"
    "key_text ''auth=anonymous''" "key_text ''hdr:''" "key_text ''vary:''" "key_text ''=''"
    by (simp_all add: key_char_byte byte_def)
  have vals: "key_text (canonical_header_values (cq_headers r) name)" for name
    using assms(1) by (intro key_text_header_values) (simp add: plain_request_def)
  have names: "key_text n" if "n \<in> set (selected_header_names (ck_headers (hp_cache_key policy)) [])" for n
    using assms(1) that by (intro selected_names_text) (auto simp: plain_request_def)
  have vnames: "key_text n" if "n \<in> set (selected_header_names vary [])" for n
    using assms(1) that by (intro selected_names_text) (auto simp: plain_request_def)
  have auth: "key_text (authorization_part (cq_headers r))"
    using lits key_text_hash by (auto simp: authorization_part_def split: option.split)
  have "key_text (map ascii_upper (trim (cq_method r)))"
    using assms(1) by (intro key_text_upper key_text_trim) (simp add: plain_request_def)
  moreover have "key_text (rt_path t)" "key_text (canonical_query t)"
    using key_text_target [OF assms(3)] assms(1) by (simp_all add: plain_request_def)
  ultimately show "\<forall>p\<in>set (primary_key_parts policy r host t). key_text p"
    using lits vals names auth assms(2) unfolding primary_key_parts_def Let_def
    by (simp only: set_append Un_iff ball_Un) auto
  show "\<forall>p\<in>set (secondary_key_parts r vary). key_text p"
    using lits vals vnames unfolding secondary_key_parts_def by auto
qed

text \<open>What is known of a request for which a key was built.\<close>

lemma built_key:
  assumes "build_http_cache_key_material policy r vary = Ok (Some km)"
  obtains host h t where "extract_host_header (cq_headers r) = Some host" "canonicalize_host host = Ok h"
    "canonicalize_request_target (cq_target r) = Ok t"
    "km_primary km = join_str [CHR 0x0A] (primary_key_parts policy r h t)"
    "km_secondary km = (if vary = [] then None else Some (join_str [CHR 0x0A] (secondary_key_parts r vary)))"
    "vary \<noteq> [] \<Longrightarrow> secondary_key_parts r vary \<noteq> []"
proof -
  obtain host where host: "extract_host_header (cq_headers r) = Some host"
    using assms by (auto simp: build_http_cache_key_material_def and_then_eq_Ok ok_or_def split: option.splits)
  obtain h where h: "canonicalize_host host = Ok h"
    using assms host by (cases "canonicalize_host host") (simp_all add: build_http_cache_key_material_def map_err_def)
  obtain t where t: "canonicalize_request_target (cq_target r) = Ok t"
    using assms host h
    by (cases "canonicalize_request_target (cq_target r)") (simp_all add: build_http_cache_key_material_def map_err_def)
  have "key_material policy r vary h t = Ok (Some km)"
    using assms host h t
    by (auto simp: build_http_cache_key_material_def map_err_def split: option.splits if_splits)
  then have "km_primary km = join_str [CHR 0x0A] (primary_key_parts policy r h t)"
    "km_secondary km = (if vary = [] then None else Some (join_str [CHR 0x0A] (secondary_key_parts r vary)))"
    "vary \<noteq> [] \<Longrightarrow> secondary_key_parts r vary \<noteq> []"
    by (auto simp: key_material_def and_then_eq_Ok http_cache_key_new_def split: if_splits)
  with host h t show thesis by (rule that)
qed

lemma host_header_text:
  "extract_host_header hs = Some host \<Longrightarrow> \<forall>h\<in>set hs. key_text (hh_value h) \<Longrightarrow> key_text host"
  by (auto simp: extract_host_header_def find_Some_iff)

lemma lf_free: "key_text s \<Longrightarrow> CHR 0x0A \<notin> set s" "key_text s \<Longrightarrow> CHR 0x00 \<notin> set s" "key_text s \<Longrightarrow> CHR 0x0D \<notin> set s"
  by (auto simp: key_text_def key_char_def)

lemma joined_parts:
  assumes "\<forall>p\<in>set ps. key_text p" "ps \<noteq> []"
  shows "split_on CHR 0x0A (join_str [CHR 0x0A] ps) = ps" "CHR 0x00 \<notin> set (join_str [CHR 0x0A] ps)"
    "is_ascii (join_str [CHR 0x0A] ps)"
proof -
  show "split_on CHR 0x0A (join_str [CHR 0x0A] ps) = ps" using assms lf_free by (intro split_join) auto
  have sub: "set (join_str [CHR 0x0A] ps) \<subseteq> {CHR 0x0A} \<union> (\<Union>p\<in>set ps. set p)" using set_join_str [of "[CHR 0x0A]" ps] by simp
  then show "CHR 0x00 \<notin> set (join_str [CHR 0x0A] ps)" using assms(1) lf_free by fastforce
  have "byte CHR 0x0A < 128" by (simp add: byte_def)
  then show "is_ascii (join_str [CHR 0x0A] ps)"
    using sub assms(1) by (fastforce simp: is_ascii_def list_all_iff key_text_def key_char_def)
qed

lemma primary_parts_first:
  obtains rest where "primary_key_parts policy r h t = (''path='' @ rt_path t) # rest"
  by (simp add: primary_key_parts_def Let_def)

lemma storage_key_primary:
  assumes "storage_key km = Ok key" "CHR 0x00 \<notin> set (km_primary km)"
  shows "split_on CHR 0x00 key = km_primary km # (case km_secondary km of None \<Rightarrow> [] | Some s \<Rightarrow> split_on CHR 0x00 s)"
  using assms
  by (auto simp: storage_key_def http_cache_key_new_def split_on_single split_on_append split: option.splits if_splits)

lemma lines_of_parts:
  assumes "\<forall>p\<in>set ps. key_text p" "ps \<noteq> []" "last ps \<noteq> []"
  shows "str_lines (join_str [CHR 0x0A] ps) = ps"
proof -
  have "strip_suffix_char CHR 0x0D p = None" if "p \<in> set ps" for p
    using lf_free(3) assms(1) that by (auto simp: strip_suffix_char_def dest: last_in_set)
  then have "map (\<lambda>l. case strip_suffix_char CHR 0x0D l of None \<Rightarrow> l | Some l' \<Rightarrow> l') (butlast ps) = butlast ps"
    by (intro map_idI) (auto dest: in_set_butlastD)
  then show ?thesis using joined_parts [OF assms(1,2)] assms(2,3) by (simp add: str_lines_def Let_def)
qed

lemma last_primary_part: "last (primary_key_parts policy r h t) \<noteq> []"
proof -
  have "p \<noteq> []" if "p \<in> set (primary_key_parts policy r h t)" for p
    using that by (auto simp: primary_key_parts_def Let_def authorization_part_def split: if_splits option.splits)
  then show ?thesis using primary_parts_first by (metis last_in_set list.distinct(1))
qed

text \<open>The parts of the keys of plain requests.\<close>

lemma plain_parts:
  assumes "plain_request policy vary r" "build_http_cache_key_material policy r vary = Ok (Some km)" "storage_key km = Ok key"
  obtains host h t where "extract_host_header (cq_headers r) = Some host" "canonicalize_host host = Ok h"
    "canonicalize_request_target (cq_target r) = Ok t"
    "split_on CHR 0x00 key = join_str [CHR 0x0A] (primary_key_parts policy r h t) #
       (if vary = [] then [] else [join_str [CHR 0x0A] (secondary_key_parts r vary)])"
    "\<forall>p\<in>set (primary_key_parts policy r h t). key_text p" "\<forall>p\<in>set (secondary_key_parts r vary). key_text p"
    "vary \<noteq> [] \<Longrightarrow> secondary_key_parts r vary \<noteq> []"
proof -
  obtain host h t where b: "extract_host_header (cq_headers r) = Some host" "canonicalize_host host = Ok h"
    "canonicalize_request_target (cq_target r) = Ok t"
    "km_primary km = join_str [CHR 0x0A] (primary_key_parts policy r h t)"
    "km_secondary km = (if vary = [] then None else Some (join_str [CHR 0x0A] (secondary_key_parts r vary)))"
    "vary \<noteq> [] \<Longrightarrow> secondary_key_parts r vary \<noteq> []"
    by (rule built_key [OF assms(2)]) blast
  have "key_text host" using host_header_text [OF b(1)] assms(1) by (simp add: plain_request_def)
  then have parts: "\<forall>p\<in>set (primary_key_parts policy r h t). key_text p" "\<forall>p\<in>set (secondary_key_parts r vary). key_text p"
    using key_parts_text [OF assms(1) _ b(3)] key_text_host [OF b(2)] by blast+
  have "primary_key_parts policy r h t \<noteq> []" using primary_parts_first by (metis list.distinct(1))
  then have "split_on CHR 0x00 key = join_str [CHR 0x0A] (primary_key_parts policy r h t) #
       (if vary = [] then [] else [join_str [CHR 0x0A] (secondary_key_parts r vary)])"
    using storage_key_primary [OF assms(3)] joined_parts [OF parts(1)] joined_parts [OF parts(2)] b(4,5,6)
    by (auto simp: split_on_single)
  with b parts show thesis by (intro that) auto
qed

lemma built_key_matches:
  assumes "plain_request policy vary r" "build_http_cache_key_material policy r vary = Ok (Some km)" "storage_key km = Ok key"
    and "canonicalize_request_target (cq_target r) = Ok t"
  shows "storage_key_matches_path_prefix key p \<longleftrightarrow> rt_path t = p \<or> p = ''/'' \<or> prefix (p @ ''/'') (rt_path t)"
proof -
  obtain h where key: "hd (split_on CHR 0x00 key) = join_str [CHR 0x0A] (primary_key_parts policy r h t)"
    and parts: "\<forall>p\<in>set (primary_key_parts policy r h t). key_text p"
    by (rule plain_parts [OF assms(1-3)]) (use assms(4) in simp)
  let ?ps = "primary_key_parts policy r h t"
  obtain rest where ps: "?ps = (''path='' @ rt_path t) # rest" by (rule primary_parts_first)
  then have ne: "?ps \<noteq> []" by simp
  have valid: "utf8_valid (join_str [CHR 0x0A] ?ps)" using joined_parts(3) [OF parts ne] by (rule utf8_valid_ascii)
  have "str_lines (join_str [CHR 0x0A] ?ps) = ?ps" by (rule lines_of_parts [OF parts ne last_primary_part])
  then have "List.map_filter (strip_prefix_str ''path='') (str_lines (join_str [CHR 0x0A] ?ps)) =
      rt_path t # List.map_filter (strip_prefix_str ''path='') rest"
    by (simp add: ps strip_prefix_str_def)
  then have "storage_key_matches_path_prefix key p \<longleftrightarrow> rt_path t = p \<or> p = ''/'' \<or>
      (case strip_prefix_str p (rt_path t) of None \<Rightarrow> False | Some rest \<Rightarrow> prefix ''/'' rest)"
    using valid by (simp add: storage_key_matches_path_prefix_def Let_def key)
  also have "(case strip_prefix_str p (rt_path t) of None \<Rightarrow> False | Some rest \<Rightarrow> prefix ''/'' rest) \<longleftrightarrow>
      prefix (p @ ''/'') (rt_path t)"
    by (auto simp: strip_prefix_str_def prefix_def)
  finally show ?thesis .
qed

text \<open>
  Purging a path hits exactly its subtree: for the key that was built for a request, whatever
  dimensions the policy puts into the key, purging a prefix removes the entry exactly when the
  canonical path of the request is the prefix itself or lies below it at a segment boundary; the
  prefix \<open>/\<close> removes everything. A prefix that ends with a slash therefore removes nothing below it.
\<close>

lemma purge_hits_subtree:
  assumes "plain_request policy vary r" "build_http_cache_key_material policy r vary = Ok (Some km)" "storage_key km = Ok key"
    and "canonicalize_request_target (cq_target r) = Ok t"
  shows "storage_key_matches_path_prefix key p \<longleftrightarrow> rt_path t = p \<or> p = ''/'' \<or> prefix (p @ ''/'') (rt_path t)"
  by (rule built_key_matches [OF assms])

text \<open>
  Responses are never shared across requests that the policy tells apart: if two requests get the
  same storage key, then they have the same canonical path, and, as far as the policy includes
  them, the same canonical host, method, canonical query and authorization partition, and for every
  header that is part of the key or that the response varies on the same canonical values.
\<close>

lemma cache_key_separates:
  assumes "plain_request policy vary r1" "plain_request policy vary r2"
    and "build_http_cache_key_material policy r1 vary = Ok (Some km1)" "storage_key km1 = Ok key"
    and "build_http_cache_key_material policy r2 vary = Ok (Some km2)" "storage_key km2 = Ok key"
    and "canonicalize_request_target (cq_target r1) = Ok t1" "canonicalize_request_target (cq_target r2) = Ok t2"
  shows "rt_path t1 = rt_path t2 \<and>
    (ck_include_host (hp_cache_key policy) \<longrightarrow>
       map_option canonicalize_host (extract_host_header (cq_headers r1)) =
       map_option canonicalize_host (extract_host_header (cq_headers r2))) \<and>
    (ck_include_method (hp_cache_key policy) \<longrightarrow>
       map ascii_upper (trim (cq_method r1)) = map ascii_upper (trim (cq_method r2))) \<and>
    (ck_query (hp_cache_key policy) = IncludeAll \<longrightarrow> canonical_query t1 = canonical_query t2) \<and>
    (hp_authorization policy = AuthPartition \<longrightarrow>
       authorization_part (cq_headers r1) = authorization_part (cq_headers r2)) \<and>
    (\<forall>name\<in>set (selected_header_names (ck_headers (hp_cache_key policy)) []) \<union> set (selected_header_names vary []).
       canonical_header_values (cq_headers r1) name = canonical_header_values (cq_headers r2) name)"
proof -
  obtain host1 h1 where k1: "extract_host_header (cq_headers r1) = Some host1" "canonicalize_host host1 = Ok h1"
    "split_on CHR 0x00 key = join_str [CHR 0x0A] (primary_key_parts policy r1 h1 t1) #
       (if vary = [] then [] else [join_str [CHR 0x0A] (secondary_key_parts r1 vary)])"
    "\<forall>p\<in>set (primary_key_parts policy r1 h1 t1). key_text p" "\<forall>p\<in>set (secondary_key_parts r1 vary). key_text p"
    "vary \<noteq> [] \<Longrightarrow> secondary_key_parts r1 vary \<noteq> []"
    by (rule plain_parts [OF assms(1,3,4)]) (use assms(7) in simp)
  obtain host2 h2 where k2: "extract_host_header (cq_headers r2) = Some host2" "canonicalize_host host2 = Ok h2"
    "split_on CHR 0x00 key = join_str [CHR 0x0A] (primary_key_parts policy r2 h2 t2) #
       (if vary = [] then [] else [join_str [CHR 0x0A] (secondary_key_parts r2 vary)])"
    "\<forall>p\<in>set (primary_key_parts policy r2 h2 t2). key_text p" "\<forall>p\<in>set (secondary_key_parts r2 vary). key_text p"
    "vary \<noteq> [] \<Longrightarrow> secondary_key_parts r2 vary \<noteq> []"
    by (rule plain_parts [OF assms(2,5,6)]) (use assms(8) in simp)
  have ne: "primary_key_parts policy r h t \<noteq> []" for r h t using primary_parts_first by (metis list.distinct(1))
  have "primary_key_parts policy r1 h1 t1 = primary_key_parts policy r2 h2 t2"
    using joined_parts(1) [OF k1(4) ne] joined_parts(1) [OF k2(4) ne] k1(3) k2(3) by simp
  then have prim: "rt_path t1 = rt_path t2" "ck_include_host (hp_cache_key policy) \<longrightarrow> h1 = h2"
    "ck_include_method (hp_cache_key policy) \<longrightarrow> map ascii_upper (trim (cq_method r1)) = map ascii_upper (trim (cq_method r2))"
    "ck_query (hp_cache_key policy) = IncludeAll \<longrightarrow> canonical_query t1 = canonical_query t2"
    "hp_authorization policy = AuthPartition \<longrightarrow> authorization_part (cq_headers r1) = authorization_part (cq_headers r2)"
    "\<forall>name\<in>set (selected_header_names (ck_headers (hp_cache_key policy)) []).
       canonical_header_values (cq_headers r1) name = canonical_header_values (cq_headers r2) name"
    by (auto simp: primary_key_parts_def Let_def split: if_splits)
  have "secondary_key_parts r1 vary = secondary_key_parts r2 vary" if "vary \<noteq> []"
    using joined_parts(1) [OF k1(5)] joined_parts(1) [OF k2(5)] k1(3,6) k2(3,6) that by simp
  then have "\<forall>name\<in>set (selected_header_names vary []).
      canonical_header_values (cq_headers r1) name = canonical_header_values (cq_headers r2) name"
    by (cases "vary = []") (auto simp: secondary_key_parts_def selected_header_names_def)
  with prim k1(1,2) k2(1,2) show ?thesis by auto
qed

text \<open>
  Header values are compared in lower case, so that requests that differ in the case of a value
  share a response although the response varies on that header.
\<close>

lemma vary_ignores_case:
  "build_http_cache_key_material http_cache_policy_default
     \<lparr>cq_method = ''GET'', cq_target = ''/'', cq_headers = [header ''host'' ''a'', header ''x-user'' ''Bob'']\<rparr> [''x-user''] =
   build_http_cache_key_material http_cache_policy_default
     \<lparr>cq_method = ''GET'', cq_target = ''/'', cq_headers = [header ''host'' ''a'', header ''x-user'' ''bob'']\<rparr> [''x-user'']"
  by code_simp

end
