(* ===== verification/Http_Body.thy ===== *)
theory Http_Body
  imports Http_Message Lifecycle
begin

text \<open>
  \<open>crates/runtime/src/http1_proxy/body_relay.rs\<close>: relaying message bodies between two
  connections with the framing of the body: fixed length, chunked, or delimited by the end of
  the connection.

  The two connections are a parameter: a state with a read and a write operation. A read may
  also run into the idle timeout. The loops whose number of rounds is bounded by the code are
  total functions; the loops over chunks may run forever when the body limit is the largest
  64-bit number, so they are partial functions, where \<open>None\<close> means that the loop does not end.
\<close>

section \<open>Connections and errors\<close>

datatype 'e read_result = TimedOut | ReadFailed 'e | ReadBytes string

record ('s, 'e) relay_io =
  io_read :: "nat \<Rightarrow> 's \<Rightarrow> 'e read_result \<times> 's"
  io_write :: "string \<Rightarrow> 's \<Rightarrow> 'e option \<times> 's"

datatype relay_direction = Request | Response

datatype 'e http1_proxy_error =
    ConnectTimeout socket_addr
  | Connect socket_addr 'e
  | ParseRequest "'e http1_parse_error"
  | ParseResponse "'e http1_parse_error"
  | BodyLimitExceeded string
  | IdleTimeout string
  | RequestIo 'e
  | ResponseIo 'e
  | UpstreamGracefulDrain

fun idle_error :: "relay_direction \<Rightarrow> 'e http1_proxy_error" where
  "idle_error Request = IdleTimeout ''request body''"
| "idle_error Response = IdleTimeout ''response body''"

fun body_limit_error :: "relay_direction \<Rightarrow> 'e http1_proxy_error" where
  "body_limit_error Request = BodyLimitExceeded ''request body''"
| "body_limit_error Response = BodyLimitExceeded ''response body''"

fun io_error :: "relay_direction \<Rightarrow> 'e \<Rightarrow> 'e http1_proxy_error" where
  "io_error Request source = RequestIo source"
| "io_error Response source = ResponseIo source"

fun parse_side_error :: "relay_direction \<Rightarrow> 'e http1_parse_error \<Rightarrow> 'e http1_proxy_error" where
  "parse_side_error Request source = ParseRequest source"
| "parse_side_error Response source = ParseResponse source"

definition contains_str :: "string \<Rightarrow> string \<Rightarrow> bool" where
  "contains_str pat s \<longleftrightarrow> find_str pat s \<noteq> None"

fun classify_http1_request_parse_error :: "'e http1_parse_error \<Rightarrow> protocol_anomaly_category option" where
  "classify_http1_request_parse_error HeadTooLarge = Some HeadSizeLimitExceeded"
| "classify_http1_request_parse_error TooManyHeaders = Some HeaderCountLimitExceeded"
| "classify_http1_request_parse_error (Invalid message) =
     (if contains_str ''ambiguous content-length'' message \<or> contains_str ''missing required host header'' message \<or>
         contains_str ''multiple host headers'' message
      then Some AmbiguousFraming else Some MalformedMessage)"
| "classify_http1_request_parse_error IncompleteHead = Some MalformedMessage"
| "classify_http1_request_parse_error (ParseIo _) = None"

text \<open>The bytes read and not yet used, and the two connections.\<close>

record 's relay_state =
  rl_buffer :: string
  rl_io :: 's

definition read_step ::
  "('s, 'e) relay_io \<Rightarrow> relay_direction \<Rightarrow> nat \<Rightarrow> 's relay_state \<Rightarrow>
     (string, 'e http1_proxy_error) result \<times> 's relay_state" where
  "read_step io dir n s =
     (case io_read io n (rl_io s) of
        (TimedOut, i) \<Rightarrow> (Err (idle_error dir), s\<lparr>rl_io := i\<rparr>)
      | (ReadFailed e, i) \<Rightarrow> (Err (io_error dir e), s\<lparr>rl_io := i\<rparr>)
      | (ReadBytes bytes, i) \<Rightarrow> (Ok bytes, s\<lparr>rl_io := i\<rparr>))"

definition write_step ::
  "('s, 'e) relay_io \<Rightarrow> relay_direction \<Rightarrow> string \<Rightarrow> 's relay_state \<Rightarrow>
     (unit, 'e http1_proxy_error) result \<times> 's relay_state" where
  "write_step io dir bytes s =
     (case io_write io bytes (rl_io s) of
        (Some e, i) \<Rightarrow> (Err (io_error dir e), s\<lparr>rl_io := i\<rparr>)
      | (None, i) \<Rightarrow> (Ok (), s\<lparr>rl_io := i\<rparr>))"

section \<open>Bodies of fixed length\<close>

text \<open>The loop of \<open>relay_content_length_collect\<close>, which reads into a buffer of 8192 bytes.\<close>

function relay_remaining ::
  "('s, 'e) relay_io \<Rightarrow> relay_direction \<Rightarrow> nat \<Rightarrow> string \<Rightarrow> 's relay_state \<Rightarrow>
     (string, 'e http1_proxy_error) result \<times> 's relay_state" where
  "relay_remaining io dir remaining collected s =
     (if remaining = 0 then (Ok collected, s)
      else case read_step io dir (min remaining 8192) s of
        (Inl e, s) \<Rightarrow> (Err e, s)
      | (Inr bytes, s) \<Rightarrow>
          if bytes = [] then (Err (parse_side_error dir IncompleteHead), s)
          else case write_step io dir bytes s of
            (Inl e, s) \<Rightarrow> (Err e, s)
          | (Inr _, s) \<Rightarrow> relay_remaining io dir (remaining - length bytes) (collected @ bytes) s)"
  by pat_completeness auto

termination
  by (relation "measure (\<lambda>(io, dir, remaining, collected, s). remaining)") (auto simp: neq_Nil_conv)

declare relay_remaining.simps [simp del]

definition relay_content_length_collect ::
  "('s, 'e) relay_io \<Rightarrow> relay_direction \<Rightarrow> nat \<Rightarrow> 's relay_state \<Rightarrow>
     (string, 'e http1_proxy_error) result \<times> 's relay_state" where
  "relay_content_length_collect io dir len s =
     (if rl_buffer s \<noteq> []
      then let buffered = min len (length (rl_buffer s));
               bytes = take buffered (rl_buffer s)
           in case write_step io dir bytes s of
                (Inl e, s) \<Rightarrow> (Err e, s)
              | (Inr _, s) \<Rightarrow>
                  relay_remaining io dir (len - buffered) bytes (s\<lparr>rl_buffer := drop buffered (rl_buffer s)\<rparr>)
      else relay_remaining io dir len [] s)"

text \<open>The variant that does not collect the bytes.\<close>

function forward_remaining ::
  "('s, 'e) relay_io \<Rightarrow> relay_direction \<Rightarrow> nat \<Rightarrow> 's relay_state \<Rightarrow>
     (unit, 'e http1_proxy_error) result \<times> 's relay_state" where
  "forward_remaining io dir remaining s =
     (if remaining = 0 then (Ok (), s)
      else case read_step io dir (min remaining 8192) s of
        (Inl e, s) \<Rightarrow> (Err e, s)
      | (Inr bytes, s) \<Rightarrow>
          if bytes = [] then (Err (parse_side_error dir IncompleteHead), s)
          else case write_step io dir bytes s of
            (Inl e, s) \<Rightarrow> (Err e, s)
          | (Inr _, s) \<Rightarrow> forward_remaining io dir (remaining - length bytes) s)"
  by pat_completeness auto

termination
  by (relation "measure (\<lambda>(io, dir, remaining, s). remaining)") (auto simp: neq_Nil_conv)

declare forward_remaining.simps [simp del]

definition relay_content_length ::
  "('s, 'e) relay_io \<Rightarrow> relay_direction \<Rightarrow> nat \<Rightarrow> 's relay_state \<Rightarrow>
     (unit, 'e http1_proxy_error) result \<times> 's relay_state" where
  "relay_content_length io dir len s =
     (if rl_buffer s \<noteq> []
      then let buffered = min len (length (rl_buffer s))
           in case write_step io dir (take buffered (rl_buffer s)) s of
                (Inl e, s) \<Rightarrow> (Err e, s)
              | (Inr _, s) \<Rightarrow>
                  forward_remaining io dir (len - buffered) (s\<lparr>rl_buffer := drop buffered (rl_buffer s)\<rparr>)
      else forward_remaining io dir len s)"

function relay_exact_bytes ::
  "('s, 'e) relay_io \<Rightarrow> relay_direction \<Rightarrow> nat \<Rightarrow> 's relay_state \<Rightarrow>
     (unit, 'e http1_proxy_error) result \<times> 's relay_state" where
  "relay_exact_bytes io dir remaining s =
     (if remaining = 0 then (Ok (), s)
      else if rl_buffer s \<noteq> []
      then let buffered = min remaining (length (rl_buffer s))
           in case write_step io dir (take buffered (rl_buffer s)) s of
                (Inl e, s) \<Rightarrow> (Err e, s)
              | (Inr _, s) \<Rightarrow>
                  relay_exact_bytes io dir (remaining - buffered) (s\<lparr>rl_buffer := drop buffered (rl_buffer s)\<rparr>)
      else case read_step io dir (min remaining 8192) s of
        (Inl e, s) \<Rightarrow> (Err e, s)
      | (Inr bytes, s) \<Rightarrow>
          if bytes = [] then (Err (parse_side_error dir IncompleteHead), s)
          else case write_step io dir bytes s of
            (Inl e, s) \<Rightarrow> (Err e, s)
          | (Inr _, s) \<Rightarrow> relay_exact_bytes io dir (remaining - length bytes) s)"
  by pat_completeness auto

termination
  by (relation "measure (\<lambda>(io, dir, remaining, s). remaining)") (auto simp: neq_Nil_conv)

declare relay_exact_bytes.simps [simp del]

section \<open>Chunked bodies\<close>

definition MAX_CHUNK_LINE_BYTES :: nat where
  "MAX_CHUNK_LINE_BYTES = 4 * 1024"

definition MAX_CHUNK_TRAILER_BYTES :: nat where
  "MAX_CHUNK_TRAILER_BYTES = 16 * 1024"

lemma read_step_buffer: "read_step io dir n s = (res, s') \<Longrightarrow> rl_buffer s' = rl_buffer s"
  by (auto simp: read_step_def split: prod.splits read_result.splits)

lemma write_step_buffer: "write_step io dir bytes s = (res, s') \<Longrightarrow> rl_buffer s' = rl_buffer s"
  by (auto simp: write_step_def split: prod.splits option.splits)

text \<open>\<open>scanned\<close> is the position from which the buffer has not been searched yet.\<close>

function read_line_from ::
  "('s, 'e) relay_io \<Rightarrow> relay_direction \<Rightarrow> nat \<Rightarrow> 's relay_state \<Rightarrow>
     (string, 'e http1_proxy_error) result \<times> 's relay_state" where
  "read_line_from io dir scanned s =
     (case find_str crlf (drop scanned (rl_buffer s)) of
        Some p \<Rightarrow>
          (Ok (take (scanned + p + 2) (rl_buffer s)), s\<lparr>rl_buffer := drop (scanned + p + 2) (rl_buffer s)\<rparr>)
      | None \<Rightarrow>
          if length (rl_buffer s) > MAX_CHUNK_LINE_BYTES then (Err (parse_side_error dir HeadTooLarge), s)
          else case read_step io dir 1024 s of
            (Inl e, s') \<Rightarrow> (Err e, s')
          | (Inr bytes, s') \<Rightarrow>
              if bytes = [] then (Err (parse_side_error dir IncompleteHead), s')
              else read_line_from io dir (length (rl_buffer s) - 1) (s'\<lparr>rl_buffer := rl_buffer s' @ bytes\<rparr>))"
  by pat_completeness auto

termination
proof (relation "measure (\<lambda>(io, dir, scanned, s). Suc MAX_CHUNK_LINE_BYTES - length (rl_buffer s))", goal_cases)
  case (2 io dir scanned s x s' bytes)
  have "rl_buffer s' = rl_buffer s" using read_step_buffer 2 by metis
  with 2 show ?case by (cases bytes) auto
qed simp

declare read_line_from.simps [simp del]

definition read_crlf_line ::
  "('s, 'e) relay_io \<Rightarrow> relay_direction \<Rightarrow> 's relay_state \<Rightarrow> (string, 'e http1_proxy_error) result \<times> 's relay_state" where
  "read_crlf_line io dir s = read_line_from io dir 0 s"

lemma read_line_length: "read_line_from io dir scanned s = (Ok line, s') \<Longrightarrow> 2 \<le> length line"
proof (induction io dir scanned s rule: read_line_from.induct)
  case (1 io dir scanned s)
  show ?case
  proof (cases "find_str crlf (drop scanned (rl_buffer s))")
    case (Some p)
    have "2 \<le> length (take (scanned + p + 2) (rl_buffer s))"
      using find_str_Some [OF Some] by (auto simp: crlf_def)
    with Some "1.prems" show ?thesis by (auto simp: read_line_from.simps [of io dir scanned s])
  next
    case None
    with "1.prems" "1.IH" [OF None] show ?thesis
      by (auto simp: read_line_from.simps [of io dir scanned s] split: if_splits prod.splits sum.splits)
  qed
qed

definition hex_digit_value :: "char \<Rightarrow> nat" where
  "hex_digit_value c =
     (if byte c \<le> 57 then byte c - 48 else if byte c \<le> 70 then byte c - 55 else byte c - 87)"

definition hex_value :: "string \<Rightarrow> nat" where
  "hex_value s = foldl (\<lambda>n c. 16 * n + hex_digit_value c) 0 s"

text \<open>At most sixteen hexadecimal digits always fit into 64 bits, so the conversion succeeds.\<close>

definition parse_chunk_size_line :: "string \<Rightarrow> nat option" where
  "parse_chunk_size_line line =
     (let size_digits = takeWhile is_ascii_hexdigit line;
          rest = dropWhile is_ascii_hexdigit line;
          remainder = dropWhile (\<lambda>c. c = CHR '' '' \<or> c = CHR 0x09) rest
      in if size_digits = [] \<or> length size_digits > 16 then None
         else if remainder \<noteq> [] \<and> hd remainder \<noteq> CHR '';'' then None
         else if list_ex (\<lambda>c. c \<in> {CHR 0x0D, CHR 0x0A, CHR 0x00}) remainder then None
         else Some (hex_value size_digits))"

text \<open>The loop over the trailer lines.\<close>

function relay_trailers ::
  "('s, 'e) relay_io \<Rightarrow> relay_direction \<Rightarrow> bool \<Rightarrow> nat \<Rightarrow> 's relay_state \<Rightarrow>
     (unit, 'e http1_proxy_error) result \<times> 's relay_state" where
  "relay_trailers io dir forward_framing trailer_bytes s =
     (case read_crlf_line io dir s of
        (Inl e, s) \<Rightarrow> (Err e, s)
      | (Inr line, s) \<Rightarrow>
          if trailer_bytes + length line > MAX_CHUNK_TRAILER_BYTES
          then (Err (parse_side_error dir HeadTooLarge), s)
          else case (if forward_framing then write_step io dir line s else (Ok (), s)) of
            (Inl e, s) \<Rightarrow> (Err e, s)
          | (Inr _, s) \<Rightarrow>
              if line = crlf then (Ok (), s)
              else relay_trailers io dir forward_framing (trailer_bytes + length line) s)"
  by pat_completeness auto

termination
proof (relation "measure (\<lambda>(io, dir, fwd, trailer_bytes, s). Suc MAX_CHUNK_TRAILER_BYTES - trailer_bytes)", goal_cases)
  case (2 io dir fwd trailer_bytes s x s1 line)
  then have "2 \<le> length line" using read_line_length unfolding read_crlf_line_def by metis
  with 2 show ?case by auto
qed simp

declare relay_trailers.simps [simp del]

text \<open>
  The loop over the chunks. \<open>usize\<close> has 64 bits, so that the conversion of the chunk size
  does not fail.
\<close>

partial_function (option) relay_chunks ::
  "('s, 'e) relay_io \<Rightarrow> relay_direction \<Rightarrow> nat \<Rightarrow> bool \<Rightarrow> nat \<Rightarrow> 's relay_state \<Rightarrow>
     ((unit, 'e http1_proxy_error) result \<times> 's relay_state) option" where
  "relay_chunks io dir max_body_bytes forward_framing total_body s =
     (case read_crlf_line io dir s of
        (Inl e, s) \<Rightarrow> Some (Err e, s)
      | (Inr line, s) \<Rightarrow>
          (case parse_chunk_size_line (take (length line - 2) line) of
             None \<Rightarrow> Some (Err (parse_side_error dir (Invalid ''invalid chunk size'')), s)
           | Some chunk_size \<Rightarrow>
               let total_body = sat_add 64 total_body chunk_size
               in if total_body > max_body_bytes then Some (Err (body_limit_error dir), s)
                  else case (if forward_framing then write_step io dir line s else (Ok (), s)) of
                    (Inl e, s) \<Rightarrow> Some (Err e, s)
                  | (Inr _, s) \<Rightarrow>
                      if chunk_size = 0 then Some (relay_trailers io dir forward_framing 0 s)
                      else case relay_exact_bytes io dir chunk_size s of
                        (Inl e, s) \<Rightarrow> Some (Err e, s)
                      | (Inr _, s) \<Rightarrow>
                          (case read_crlf_line io dir s of
                             (Inl e, s) \<Rightarrow> Some (Err e, s)
                           | (Inr terminator, s) \<Rightarrow>
                               if terminator \<noteq> crlf
                               then Some (Err (parse_side_error dir (Invalid ''invalid chunk data terminator'')), s)
                               else case (if forward_framing then write_step io dir terminator s else (Ok (), s)) of
                                 (Inl e, s) \<Rightarrow> Some (Err e, s)
                               | (Inr _, s) \<Rightarrow> relay_chunks io dir max_body_bytes forward_framing total_body s)))"

definition relay_chunked_with_framing ::
  "('s, 'e) relay_io \<Rightarrow> nat \<Rightarrow> relay_direction \<Rightarrow> bool \<Rightarrow> 's relay_state \<Rightarrow>
     ((unit, 'e http1_proxy_error) result \<times> 's relay_state) option" where
  "relay_chunked_with_framing io max_body_bytes dir forward_framing s =
     relay_chunks io dir max_body_bytes forward_framing 0 s"

definition relay_chunked ::
  "('s, 'e) relay_io \<Rightarrow> nat \<Rightarrow> relay_direction \<Rightarrow> 's relay_state \<Rightarrow>
     ((unit, 'e http1_proxy_error) result \<times> 's relay_state) option" where
  "relay_chunked io max_body_bytes dir s = relay_chunked_with_framing io max_body_bytes dir True s"

text \<open>The loop of \<open>decode_chunked_body\<close>, on the bytes from the cursor on.\<close>

function decode_chunks :: "string \<Rightarrow> string \<Rightarrow> string option" where
  "decode_chunks decoded raw =
     (case find_str crlf raw of
        None \<Rightarrow> None
      | Some line_len \<Rightarrow>
          (case parse_chunk_size_line (take line_len raw) of
             None \<Rightarrow> None
           | Some chunk_len \<Rightarrow>
               let rest = drop (line_len + 2) raw
               in if chunk_len = 0 then Some decoded
                  else if length rest < chunk_len then None
                  else if take 2 (drop chunk_len rest) \<noteq> crlf then None
                  else decode_chunks (decoded @ take chunk_len rest) (drop (chunk_len + 2) rest)))"
  by pat_completeness auto

termination
proof (relation "measure (\<lambda>(decoded, raw). length raw)", goal_cases)
  case (2 decoded raw n chunk_len rest)
  then show ?case using find_str_Some [of crlf raw n] by (auto simp: crlf_def)
qed simp

declare decode_chunks.simps [simp del]

definition decode_chunked_body :: "string \<Rightarrow> string option" where
  "decode_chunked_body raw = decode_chunks [] raw"

section \<open>Bodies delimited by the end of the connection\<close>

text \<open>The next bytes: from the buffer, if there are any, otherwise from the connection.\<close>

definition next_bytes ::
  "('s, 'e) relay_io \<Rightarrow> relay_direction \<Rightarrow> 's relay_state \<Rightarrow> (string, 'e http1_proxy_error) result \<times> 's relay_state" where
  "next_bytes io dir s =
     (if rl_buffer s = [] then read_step io dir (16 * 1024) s
      else let buffered = min (length (rl_buffer s)) (16 * 1024)
           in (Ok (take buffered (rl_buffer s)), s\<lparr>rl_buffer := drop buffered (rl_buffer s)\<rparr>))"

partial_function (option) relay_until_close ::
  "('s, 'e) relay_io \<Rightarrow> relay_direction \<Rightarrow> nat \<Rightarrow> nat \<Rightarrow> 's relay_state \<Rightarrow>
     ((unit, 'e http1_proxy_error) result \<times> 's relay_state) option" where
  "relay_until_close io dir max_body_bytes total_body s =
     (case next_bytes io dir s of
        (Inl e, s) \<Rightarrow> Some (Err e, s)
      | (Inr bytes, s) \<Rightarrow>
          if bytes = [] then Some (write_step io dir (''0'' @ crlf @ crlf) s)
          else let total_body = sat_add 64 total_body (length bytes)
               in if total_body > max_body_bytes then Some (Err (body_limit_error dir), s)
                  else case write_step io dir (show_hex (length bytes) @ crlf @ bytes @ crlf) s of
                    (Inl e, s) \<Rightarrow> Some (Err e, s)
                  | (Inr _, s) \<Rightarrow> relay_until_close io dir max_body_bytes total_body s)"

definition relay_close_delimited_as_chunked ::
  "('s, 'e) relay_io \<Rightarrow> nat \<Rightarrow> relay_direction \<Rightarrow> 's relay_state \<Rightarrow>
     ((unit, 'e http1_proxy_error) result \<times> 's relay_state) option" where
  "relay_close_delimited_as_chunked io max_body_bytes dir s = relay_until_close io dir max_body_bytes 0 s"

section \<open>All bodies\<close>

definition relay_body ::
  "('s, 'e) relay_io \<Rightarrow> body_kind \<Rightarrow> nat \<Rightarrow> relay_direction \<Rightarrow> 's relay_state \<Rightarrow>
     ((unit, 'e http1_proxy_error) result \<times> 's relay_state) option" where
  "relay_body io kind max_body_bytes dir s =
     (case kind of
        BodyNone \<Rightarrow> Some (Ok (), s)
      | ContentLength len \<Rightarrow>
          if len > max_body_bytes then Some (Err (body_limit_error dir), s)
          else Some (relay_content_length io dir len s)
      | Chunked \<Rightarrow> relay_chunked io max_body_bytes dir s
      | CloseDelimited \<Rightarrow> relay_close_delimited_as_chunked io max_body_bytes dir s)"

text \<open>The loop over a body that is delimited by the end of the connection on both sides.\<close>

partial_function (option) relay_plain_until_close ::
  "('s, 'e) relay_io \<Rightarrow> relay_direction \<Rightarrow> nat \<Rightarrow> nat \<Rightarrow> 's relay_state \<Rightarrow>
     ((unit, 'e http1_proxy_error) result \<times> 's relay_state) option" where
  "relay_plain_until_close io dir max_body_bytes total_body s =
     (case read_step io dir (16 * 1024) s of
        (Inl e, s) \<Rightarrow> Some (Err e, s)
      | (Inr bytes, s) \<Rightarrow>
          if bytes = [] then Some (Ok (), s)
          else let total_body = sat_add 64 total_body (length bytes)
               in if total_body > max_body_bytes then Some (Err (body_limit_error dir), s)
                  else case write_step io dir bytes s of
                    (Inl e, s) \<Rightarrow> Some (Err e, s)
                  | (Inr _, s) \<Rightarrow> relay_plain_until_close io dir max_body_bytes total_body s)"

definition relay_response_body_for_http10 ::
  "('s, 'e) relay_io \<Rightarrow> body_kind \<Rightarrow> nat \<Rightarrow> 's relay_state \<Rightarrow>
     ((unit, 'e http1_proxy_error) result \<times> 's relay_state) option" where
  "relay_response_body_for_http10 io kind max_body_bytes s =
     (case kind of
        Chunked \<Rightarrow> relay_chunked_with_framing io max_body_bytes Response False s
      | CloseDelimited \<Rightarrow>
          if length (rl_buffer s) > max_body_bytes then Some (Err (body_limit_error Response), s)
          else (case write_step io Response (rl_buffer s) s of
                  (Inl e, s) \<Rightarrow> Some (Err e, s)
                | (Inr _, s') \<Rightarrow>
                    relay_plain_until_close io Response max_body_bytes (length (rl_buffer s)) (s'\<lparr>rl_buffer := []\<rparr>))
      | _ \<Rightarrow> relay_body io kind max_body_bytes Response s)"

text \<open>Framing headers for a body that is held in memory.\<close>

definition reframe_buffered_headers :: "nat \<Rightarrow> http_header list \<Rightarrow> http_header list" where
  "reframe_buffered_headers body_len headers =
     filter (\<lambda>h. \<not> has_name ''transfer-encoding'' h \<and> \<not> has_name ''content-length'' h \<and> \<not> has_name ''trailer'' h)
       headers @ [header ''content-length'' (show_nat body_len)]"

text \<open>
  Collecting a body: the relay writes into a vector, which accepts every write. The connection
  that is read keeps its state.
\<close>

definition collecting :: "('s, 'e) relay_io \<Rightarrow> ('s \<times> string, 'e) relay_io" where
  "collecting io =
     \<lparr>io_read = (\<lambda>n (i, written). case io_read io n i of (r, i) \<Rightarrow> (r, (i, written))),
      io_write = (\<lambda>bytes (i, written). (None, (i, written @ bytes)))\<rparr>"

definition collect_decoded_body ::
  "('s, 'e) relay_io \<Rightarrow> body_kind \<Rightarrow> nat \<Rightarrow> relay_direction \<Rightarrow> 's relay_state \<Rightarrow>
     ((string, 'e http1_proxy_error) result \<times> 's relay_state) option" where
  "collect_decoded_body io kind max_body_bytes dir s =
     (case relay_body (collecting io) kind max_body_bytes dir \<lparr>rl_buffer = rl_buffer s, rl_io = (rl_io s, [])\<rparr> of
        None \<Rightarrow> None
      | Some (res, s) \<Rightarrow>
          (let raw = snd (rl_io s);
               s = \<lparr>rl_buffer = rl_buffer s, rl_io = fst (rl_io s)\<rparr>
           in Some (case res of
                Inl e \<Rightarrow> Err e
              | Inr _ \<Rightarrow>
                  (case kind of
                     Chunked \<Rightarrow> ok_or (parse_side_error dir (Invalid ''invalid chunked body'')) (decode_chunked_body raw)
                   | CloseDelimited \<Rightarrow> ok_or (parse_side_error dir (Invalid ''invalid chunked body'')) (decode_chunked_body raw)
                   | _ \<Rightarrow> Ok raw), s)))"

section \<open>What the loops consume and send\<close>

text \<open>
  What the loops rely on: \<open>pending\<close> are the bytes that a connection will still deliver and
  \<open>written\<close> the bytes that have been written to the other one. A read delivers the first pending
  bytes, at most as many as asked for, and none at all only at the end of the stream; a
  successful write appends its bytes.
\<close>

definition source_laws :: "('s, 'e) relay_io \<Rightarrow> ('s \<Rightarrow> string) \<Rightarrow> bool" where
  "source_laws io pending \<longleftrightarrow>
     (\<forall>n i bytes i'. 0 < n \<longrightarrow> io_read io n i = (ReadBytes bytes, i') \<longrightarrow>
        pending i = bytes @ pending i' \<and> length bytes \<le> n \<and> (bytes = [] \<longrightarrow> pending i = []))"

definition relay_laws :: "('s, 'e) relay_io \<Rightarrow> ('s \<Rightarrow> string) \<Rightarrow> ('s \<Rightarrow> string) \<Rightarrow> bool" where
  "relay_laws io pending written \<longleftrightarrow>
     source_laws io pending \<and>
     (\<forall>n i r i'. io_read io n i = (r, i') \<longrightarrow> written i' = written i) \<and>
     (\<forall>bytes i i'. io_write io bytes i = (None, i') \<longrightarrow> pending i' = pending i \<and> written i' = written i @ bytes)"

definition unread :: "('s \<Rightarrow> string) \<Rightarrow> 's relay_state \<Rightarrow> string" where
  "unread pending s = rl_buffer s @ pending (rl_io s)"

definition moved ::
  "('s \<Rightarrow> string) \<Rightarrow> ('s \<Rightarrow> string) \<Rightarrow> 's relay_state \<Rightarrow> string \<Rightarrow> string \<Rightarrow> 's relay_state \<Rightarrow> bool" where
  "moved pending written s consumed sent s' \<longleftrightarrow>
     unread pending s = consumed @ unread pending s' \<and> written (rl_io s') = written (rl_io s) @ sent"

lemma moved_refl [simp]: "moved p w s [] [] s"
  by (simp add: moved_def)

lemma moved_trans: "moved p w s a b t \<Longrightarrow> moved p w t c d u \<Longrightarrow> moved p w s (a @ c) (b @ d) u"
  by (simp add: moved_def)

lemma read_step_law:
  assumes "relay_laws io p w" "read_step io dir n s = (Ok bytes, s')" "0 < n"
  shows "rl_buffer s' = rl_buffer s" "p (rl_io s) = bytes @ p (rl_io s')" "length bytes \<le> n"
    "w (rl_io s') = w (rl_io s)" "bytes = [] \<Longrightarrow> p (rl_io s) = []"
proof -
  obtain i where i: "io_read io n (rl_io s) = (ReadBytes bytes, i)" "s' = s\<lparr>rl_io := i\<rparr>"
    using assms(2) by (auto simp: read_step_def split: prod.splits read_result.splits)
  with assms(1,3) have *: "p (rl_io s) = bytes @ p i \<and> length bytes \<le> n \<and> w i = w (rl_io s) \<and> (bytes = [] \<longrightarrow> p (rl_io s) = [])"
    unfolding relay_laws_def source_laws_def by blast
  from i(2) show "rl_buffer s' = rl_buffer s" by simp
  from * i(2) show "p (rl_io s) = bytes @ p (rl_io s')" "length bytes \<le> n" "w (rl_io s') = w (rl_io s)"
    by simp_all
  from * show "bytes = [] \<Longrightarrow> p (rl_io s) = []" by blast
qed

lemma write_step_law:
  assumes "relay_laws io p w" "write_step io dir bytes s = (Ok u, s')"
  shows "rl_buffer s' = rl_buffer s" "p (rl_io s') = p (rl_io s)" "w (rl_io s') = w (rl_io s) @ bytes"
proof -
  obtain i where i: "io_write io bytes (rl_io s) = (None, i)" "s' = s\<lparr>rl_io := i\<rparr>"
    using assms(2) by (auto simp: write_step_def split: prod.splits option.splits)
  with assms(1) have *: "p i = p (rl_io s) \<and> w i = w (rl_io s) @ bytes"
    unfolding relay_laws_def by blast
  from * i(2) show "rl_buffer s' = rl_buffer s" "p (rl_io s') = p (rl_io s)" "w (rl_io s') = w (rl_io s) @ bytes"
    by simp_all
qed

lemma write_step_moved:
  "relay_laws io p w \<Longrightarrow> write_step io dir bytes s = (Ok u, s') \<Longrightarrow> moved p w s [] bytes s'"
  using write_step_law [of io p w dir bytes s u s'] by (simp add: moved_def unread_def)

lemma write_buffered_moved:
  assumes "relay_laws io p w" "write_step io dir (take k (rl_buffer s)) s = (Ok u, s')"
  shows "moved p w s (take k (rl_buffer s)) (take k (rl_buffer s)) (s'\<lparr>rl_buffer := drop k (rl_buffer s')\<rparr>)"
  using write_step_law [OF assms] by (simp add: moved_def unread_def)

lemma read_write_moved:
  assumes "relay_laws io p w" "rl_buffer s = []" "0 < n"
    and "read_step io dir n s = (Ok bytes, s1)" "write_step io dir bytes s1 = (Ok u, s2)"
  shows "moved p w s bytes bytes s2" "rl_buffer s2 = []" "length bytes \<le> n"
  using read_step_law [OF assms(1,4,3)] write_step_law [OF assms(1,5)] assms(2)
  by (auto simp: moved_def unread_def)

lemmas relay_splits = if_splits prod.splits sum.splits option.splits

lemma relay_remaining_moved:
  assumes "relay_laws io p w" "rl_buffer s = [] \<or> remaining = 0" "relay_remaining io dir remaining collected s = (Ok all, s')"
  shows "\<exists>bytes. length bytes = remaining \<and> moved p w s bytes bytes s' \<and> all = collected @ bytes"
  using assms
proof (induction io dir remaining collected s rule: relay_remaining.induct)
  case (1 io dir remaining collected s)
  note unfold = relay_remaining.simps [of io dir remaining collected s]
  show ?case
  proof (cases "remaining = 0")
    case True
    then show ?thesis using "1.prems" by (simp add: relay_remaining.simps [of io dir 0])
  next
    case False
    with "1.prems"(3) obtain bytes s1 u s2 where st:
      "read_step io dir (min remaining 8192) s = (Ok bytes, s1)" "bytes \<noteq> []"
      "write_step io dir bytes s1 = (Ok u, s2)"
      "relay_remaining io dir (remaining - length bytes) (collected @ bytes) s2 = (Ok all, s')"
      by (auto simp: unfold split: relay_splits)
    have buf: "rl_buffer s = []" and pos: "0 < min remaining 8192" using False "1.prems"(2) by auto
    note rw = read_write_moved [OF "1.prems"(1) buf pos st(1,3)]
    obtain rest where "length rest = remaining - length bytes" "moved p w s2 rest rest s'"
      "all = (collected @ bytes) @ rest"
      using "1.IH" [OF False st(1) [symmetric] refl st(2) st(3) [symmetric] refl "1.prems"(1) _ st(4)] rw(2) by blast
    moreover have "length bytes \<le> remaining" using rw(3) by simp
    ultimately show ?thesis
      using moved_trans [OF rw(1), of rest rest s'] by (intro exI [of _ "bytes @ rest"]) auto
  qed
qed

lemma relay_content_length_collect_moved:
  assumes "relay_laws io p w" "relay_content_length_collect io dir n s = (Ok all, s')"
  shows "length all = n \<and> moved p w s all all s'"
proof (cases "rl_buffer s = []")
  case True
  then show ?thesis
    using assms relay_remaining_moved [OF assms(1), of s n dir "[]" all s']
    by (auto simp: relay_content_length_collect_def)
next
  case False
  define k where "k = min n (length (rl_buffer s))"
  from False assms(2) obtain u s1 where st: "write_step io dir (take k (rl_buffer s)) s = (Ok u, s1)"
    "relay_remaining io dir (n - k) (take k (rl_buffer s)) (s1\<lparr>rl_buffer := drop k (rl_buffer s1)\<rparr>) = (Ok all, s')"
    by (auto simp: relay_content_length_collect_def Let_def k_def [symmetric] split: relay_splits)
  note mv = write_buffered_moved [OF assms(1) st(1)]
  have "rl_buffer s1 = rl_buffer s" using write_step_buffer [OF st(1)] .
  then have "rl_buffer (s1\<lparr>rl_buffer := drop k (rl_buffer s1)\<rparr>) = [] \<or> n - k = 0" by (auto simp: k_def)
  from relay_remaining_moved [OF assms(1) this st(2)]
  obtain rest where r: "length rest = n - k" "moved p w (s1\<lparr>rl_buffer := drop k (rl_buffer s1)\<rparr>) rest rest s'"
    "all = take k (rl_buffer s) @ rest" by blast
  then show ?thesis using moved_trans [OF mv r(2)] by (auto simp: k_def)
qed

text \<open>The two variants make the same reads and writes.\<close>

lemma forward_remaining_eq:
  "forward_remaining io dir remaining s =
     (case relay_remaining io dir remaining collected s of (Inl e, t) \<Rightarrow> (Err e, t) | (Inr _, t) \<Rightarrow> (Ok (), t))"
proof (induction io dir remaining collected s rule: relay_remaining.induct)
  case (1 io dir remaining collected s)
  then show ?case
    by (simp add: relay_remaining.simps [of io dir remaining collected s] forward_remaining.simps [of io dir remaining s]
        split: prod.split sum.split)
qed

lemma relay_content_length_eq:
  "relay_content_length io dir n s =
     (case relay_content_length_collect io dir n s of (Inl e, t) \<Rightarrow> (Err e, t) | (Inr _, t) \<Rightarrow> (Ok (), t))"
proof (cases "rl_buffer s = []")
  case True
  then show ?thesis
    by (simp add: relay_content_length_def relay_content_length_collect_def forward_remaining_eq [where collected = "[]"])
next
  case False
  then show ?thesis
    by (simp add: relay_content_length_def relay_content_length_collect_def Let_def
        forward_remaining_eq [where collected = "take (min n (length (rl_buffer s))) (rl_buffer s)"]
        split: prod.split sum.split)
qed

lemma relay_exact_bytes_moved:
  assumes "relay_laws io p w" "relay_exact_bytes io dir remaining s = (Ok u, s')"
  shows "\<exists>bytes. length bytes = remaining \<and> moved p w s bytes bytes s'"
  using assms
proof (induction io dir remaining s rule: relay_exact_bytes.induct)
  case (1 io dir remaining s)
  note unfold = relay_exact_bytes.simps [of io dir remaining s]
  consider "remaining = 0" | "remaining \<noteq> 0" "rl_buffer s \<noteq> []" | "remaining \<noteq> 0" "rl_buffer s = []" by blast
  then show ?case
  proof cases
    case 1
    with "1.prems" show ?thesis by (simp add: relay_exact_bytes.simps [of io dir 0])
  next
    case 2
    define k where "k = min remaining (length (rl_buffer s))"
    from 2 "1.prems"(2) obtain v s1 where st: "write_step io dir (take k (rl_buffer s)) s = (Ok v, s1)"
      "relay_exact_bytes io dir (remaining - k) (s1\<lparr>rl_buffer := drop k (rl_buffer s1)\<rparr>) = (Ok u, s')"
      by (auto simp: unfold Let_def k_def [symmetric] split: relay_splits)
    from "1.IH"(1) [OF 2 k_def st(1) [symmetric] refl "1.prems"(1) st(2)]
    obtain rest where "length rest = remaining - k" "moved p w (s1\<lparr>rl_buffer := drop k (rl_buffer s1)\<rparr>) rest rest s'" by blast
    with moved_trans [OF write_buffered_moved [OF "1.prems"(1) st(1)]] show ?thesis
      by (intro exI [of _ "take k (rl_buffer s) @ rest"]) (auto simp: k_def)
  next
    case 3
    with "1.prems"(2) obtain bytes s1 v s2 where st:
      "read_step io dir (min remaining 8192) s = (Ok bytes, s1)" "bytes \<noteq> []"
      "write_step io dir bytes s1 = (Ok v, s2)" "relay_exact_bytes io dir (remaining - length bytes) s2 = (Ok u, s')"
      by (auto simp: unfold split: relay_splits)
    have pos: "0 < min remaining 8192" using 3 by simp
    note rw = read_write_moved [OF "1.prems"(1) 3(2) pos st(1,3)]
    have "\<not> rl_buffer s \<noteq> []" using 3 by simp
    from "1.IH"(2) [OF 3(1) this st(1) [symmetric] refl st(2) st(3) [symmetric] refl "1.prems"(1) st(4)]
    obtain rest where "length rest = remaining - length bytes" "moved p w s2 rest rest s'" by blast
    with rw show ?thesis using moved_trans [OF rw(1)] by (intro exI [of _ "bytes @ rest"]) auto
  qed
qed

text \<open>A line that has been read ends with the first line end of the stream.\<close>

lemma find_str_at:
  assumes "prefix pat (drop n s)" "n \<le> length s" "\<forall>m<n. \<not> prefix pat (drop m s)"
  shows "find_str pat s = Some n"
  using assms
proof (induction n arbitrary: s)
  case 0
  then show ?case by (subst find_str.simps) simp
next
  case (Suc n)
  then obtain c t where s: "s = c # t" by (cases s) auto
  have "\<forall>m<n. \<not> prefix pat (drop m t)" using Suc.prems(3) s by (metis Suc_mono drop_Suc_Cons)
  with Suc.IH [of t] Suc.prems s have "find_str pat t = Some n" by simp
  moreover have "\<not> prefix pat (c # t)" using Suc.prems(3) s by force
  ultimately show ?case by (simp add: s find_str_shift)
qed

lemma line_end_taken:
  assumes "find_str crlf (drop k b) = Some j" "\<forall>m<k. \<not> prefix crlf (drop m b)" "k \<le> length b"
  shows "find_str crlf b = Some (k + j)" "take (k + j + 2) b = take (k + j) b @ crlf"
proof -
  note f = find_str_Some [OF assms(1)]
  have at: "prefix crlf (drop (k + j) b)" using f by (simp add: add.commute)
  have none: "\<forall>m<k + j. \<not> prefix crlf (drop m b)"
  proof (intro allI impI)
    fix m
    assume m: "m < k + j"
    show "\<not> prefix crlf (drop m b)"
    proof (cases "m < k")
      case False
      then have "m - k < j" using m by simp
      then have "\<not> prefix crlf (drop (m - k) (drop k b))" using f by blast
      then show ?thesis using False by simp
    qed (use assms(2) in blast)
  qed
  have len: "k + j \<le> length b" using f assms(3) by auto
  show "find_str crlf b = Some (k + j)" by (rule find_str_at [OF at len none])
  from at obtain r where "drop (k + j) b = crlf @ r" by (auto simp: prefix_def)
  then have "take 2 (drop (k + j) b) = crlf" by (simp add: crlf_def)
  then show "take (k + j + 2) b = take (k + j) b @ crlf" using take_add [of "k + j" 2 b] by simp
qed

lemma crlf_prefix_append:
  assumes "\<not> prefix crlf (drop m b)" "Suc m < length b"
  shows "\<not> prefix crlf (drop m (b @ c))"
proof -
  have "length crlf \<le> length (drop m b)" using assms(2) by (simp add: crlf_def)
  then show ?thesis using assms by (auto simp: prefix_def append_eq_append_conv2 append_eq_conv_conj)
qed

definition is_line :: "string \<Rightarrow> string \<Rightarrow> bool" where
  "is_line body line \<longleftrightarrow> line = body @ crlf \<and> find_str crlf line = Some (length body)"

lemma is_lineI:
  assumes "find_str crlf (drop k b) = Some j" "\<forall>m<k. \<not> prefix crlf (drop m b)" "k \<le> length b"
  shows "is_line (take (k + j) b) (take (k + j + 2) b)"
proof -
  note lt = line_end_taken [OF assms]
  have len: "k + j \<le> length b" using find_str_Some [OF lt(1)] by auto
  have "find_str crlf (take (k + j + 2) b) = Some (k + j)"
  proof (rule find_str_at)
    show "prefix crlf (drop (k + j) (take (k + j + 2) b))" using len unfolding lt(2) by simp
    show "k + j \<le> length (take (k + j + 2) b)" using len by simp
    show "\<forall>m<k + j. \<not> prefix crlf (drop m (take (k + j + 2) b))"
    proof (intro allI impI notI)
      fix m
      assume m: "m < k + j" and pre: "prefix crlf (drop m (take (k + j + 2) b))"
      have "drop m (take (k + j + 2) b) = take (k + j + 2 - m) (drop m b)" by (rule drop_take)
      with pre have "prefix crlf (take (k + j + 2 - m) (drop m b))" by simp
      then have "prefix crlf (drop m b)" by (meson prefix_order.trans take_is_prefix)
      with find_str_Some [OF lt(1)] m show False by blast
    qed
  qed
  then show ?thesis using len lt(2) unfolding is_line_def by simp
qed

lemma read_line_from_moved:
  assumes "relay_laws io p w" "read_line_from io dir k s = (Ok line, s')"
    and "\<forall>m<k. \<not> prefix crlf (drop m (rl_buffer s))" "k \<le> length (rl_buffer s)"
  shows "moved p w s line [] s' \<and> (\<exists>body. is_line body line)"
  using assms
proof (induction io dir k s rule: read_line_from.induct)
  case (1 io dir k s)
  note unfold = read_line_from.simps [of io dir k s]
  show ?case
  proof (cases "find_str crlf (drop k (rl_buffer s))")
    case (Some j)
    with "1.prems"(2) have "line = take (k + j + 2) (rl_buffer s)" "s' = s\<lparr>rl_buffer := drop (k + j + 2) (rl_buffer s)\<rparr>"
      by (auto simp: unfold)
    moreover have "is_line (take (k + j) (rl_buffer s)) (take (k + j + 2) (rl_buffer s))"
      by (rule is_lineI [OF Some "1.prems"(3,4)])
    ultimately show ?thesis by (auto simp: moved_def unread_def)
  next
    case None
    let ?b = "rl_buffer s"
    from None "1.prems"(2) obtain bytes s1 where st: "\<not> length ?b > MAX_CHUNK_LINE_BYTES"
      "read_step io dir 1024 s = (Ok bytes, s1)" "bytes \<noteq> []"
      "read_line_from io dir (length ?b - 1) (s1\<lparr>rl_buffer := rl_buffer s1 @ bytes\<rparr>) = (Ok line, s')"
      by (auto simp: unfold split: relay_splits)
    note rd = read_step_law [OF "1.prems"(1) st(2)]
    have b: "rl_buffer s1 = ?b" using rd(1) by simp
    have free: "\<not> prefix crlf (drop m ?b)" if "m \<le> length ?b" for m
    proof (cases "m < k")
      case False
      then have "m - k \<le> length (drop k ?b)" using that by simp
      then have "\<not> prefix crlf (drop (m - k) (drop k ?b))" using None unfolding find_str_None by blast
      then show ?thesis using False by simp
    qed (use "1.prems"(3) in blast)
    have "\<forall>m<length ?b - 1. \<not> prefix crlf (drop m (?b @ bytes))"
      using free crlf_prefix_append by simp
    with "1.IH" [OF None st(1) st(2) [symmetric] refl st(3) "1.prems"(1) st(4)]
    have "moved p w (s1\<lparr>rl_buffer := ?b @ bytes\<rparr>) line [] s' \<and> (\<exists>body. is_line body line)" by (simp add: b)
    then show ?thesis using rd(2,4) by (simp add: moved_def unread_def)
  qed
qed

lemma read_crlf_line_moved:
  "relay_laws io p w \<Longrightarrow> read_crlf_line io dir s = (Ok line, s') \<Longrightarrow> moved p w s line [] s' \<and> (\<exists>body. is_line body line)"
  unfolding read_crlf_line_def by (rule read_line_from_moved) auto

text \<open>A step that forwards a part of the framing, or skips it.\<close>

lemma forward_moved:
  assumes "relay_laws io p w" "(if fwd then write_step io dir line s else (Ok (), s)) = (Ok u, s')"
  shows "moved p w s [] (if fwd then line else []) s'"
  using write_step_moved [OF assms(1), of dir line s u s'] assms(2) by (cases fwd) auto

lemma line_forward_moved:
  assumes "relay_laws io p w" "read_crlf_line io dir s = (Ok line, s1)"
    and "(if fwd then write_step io dir line s1 else (Ok (), s1)) = (Ok u, s2)"
  shows "moved p w s line (if fwd then line else []) s2"
  using moved_trans [OF conjunct1 [OF read_crlf_line_moved [OF assms(1,2)]] forward_moved [OF assms(1,3)]] by simp

lemma relay_trailers_moved:
  assumes "relay_laws io p w" "relay_trailers io dir fwd n s = (Ok u, s')"
  shows "\<exists>raw. moved p w s raw (if fwd then raw else []) s'"
  using assms
proof (induction io dir fwd n s rule: relay_trailers.induct)
  case (1 io dir fwd n s)
  note unfold = relay_trailers.simps [of io dir fwd n s]
  from "1.prems"(2) obtain line s1 v s2 where st: "read_crlf_line io dir s = (Ok line, s1)"
    "\<not> n + length line > MAX_CHUNK_TRAILER_BYTES"
    "(if fwd then write_step io dir line s1 else (Ok (), s1)) = (Ok v, s2)"
    "line = crlf \<and> s' = s2 \<or> line \<noteq> crlf \<and> relay_trailers io dir fwd (n + length line) s2 = (Ok u, s')"
    by (auto simp: unfold split: prod.splits sum.splits if_split_asm)
  note mv = line_forward_moved [OF "1.prems"(1) st(1,3)]
  from st(4) show ?case
  proof
    assume "line = crlf \<and> s' = s2"
    with mv show ?thesis by blast
  next
    assume l: "line \<noteq> crlf \<and> relay_trailers io dir fwd (n + length line) s2 = (Ok u, s')"
    with "1.IH" [OF st(1) [symmetric] refl st(2) st(3) [symmetric] refl _ "1.prems"(1)]
    obtain raw where "moved p w s2 raw (if fwd then raw else []) s'" by blast
    from moved_trans [OF mv this] show ?thesis by (intro exI [of _ "line @ raw"]) (auto split: if_splits)
  qed
qed

section \<open>Chunks and their decoding\<close>

lemma is_line_take: "is_line body line \<Longrightarrow> take (length line - 2) line = body"
  by (auto simp: is_line_def crlf_def)

lemma decode_chunks_line:
  assumes "is_line body line"
  shows "decode_chunks acc (line @ rest) =
    (case parse_chunk_size_line body of
       None \<Rightarrow> None
     | Some n \<Rightarrow> if n = 0 then Some acc
                 else if length rest < n then None
                 else if take 2 (drop n rest) \<noteq> crlf then None
                 else decode_chunks (acc @ take n rest) (drop (n + 2) rest))"
proof -
  have line: "line = body @ crlf" and "find_str crlf line = Some (length body)"
    using assms by (auto simp: is_line_def)
  then have f: "find_str crlf (line @ rest) = Some (length body)" using find_str_append by blast
  have "take (length body) (line @ rest) = body" "drop (length body + 2) (line @ rest) = rest"
    by (simp_all add: line crlf_def)
  then show ?thesis by (simp only: decode_chunks.simps [of acc "line @ rest"] f option.case Let_def)
qed

lemma decode_chunks_last:
  "is_line body line \<Longrightarrow> parse_chunk_size_line body = Some 0 \<Longrightarrow> decode_chunks acc (line @ rest) = Some acc"
  by (simp add: decode_chunks_line)

lemma decode_chunks_step:
  assumes "is_line body line" "parse_chunk_size_line body = Some (length data)" "data \<noteq> []"
  shows "decode_chunks acc (line @ data @ crlf @ rest) = decode_chunks (acc @ data) rest"
  using assms by (simp add: decode_chunks_line crlf_def)

text \<open>
  One round of the loop over the chunks either ends the body or goes on with the next chunk, with
  a larger total.
\<close>

lemma relay_chunks_round:
  assumes "relay_laws io p w" "read_crlf_line io dir s = (Ok line, s1)"
    and "parse_chunk_size_line (take (length line - 2) line) = Some n" "n \<noteq> 0"
    and "(if fwd then write_step io dir line s1 else (Ok (), s1)) = (Ok u2, s2)"
    and "relay_exact_bytes io dir n s2 = (Ok u3, s3)" "read_crlf_line io dir s3 = (Ok crlf, s4)"
    and "(if fwd then write_step io dir crlf s4 else (Ok (), s4)) = (Ok u5, s5)"
  shows "\<exists>body data. is_line body line \<and> parse_chunk_size_line body = Some (length data) \<and> length data = n \<and>
    moved p w s (line @ data @ crlf) (if fwd then line @ data @ crlf else data) s5"
proof -
  obtain body where body: "is_line body line" using read_crlf_line_moved [OF assms(1,2)] by blast
  obtain data where data: "length data = n" "moved p w s2 data data s3"
    using relay_exact_bytes_moved [OF assms(1,6)] by blast
  have "moved p w s (line @ (data @ crlf)) ((if fwd then line else []) @ (data @ (if fwd then crlf else []))) s5"
    by (intro moved_trans [OF line_forward_moved [OF assms(1,2,5)]] moved_trans [OF data(2)]
        line_forward_moved [OF assms(1,7,8)])
  then show ?thesis using body data(1) assms(3) by (auto simp: is_line_take split: if_splits)
qed

definition chunks_moved ::
  "('s \<Rightarrow> string) \<Rightarrow> ('s \<Rightarrow> string) \<Rightarrow> nat \<Rightarrow> bool \<Rightarrow> nat \<Rightarrow> 's relay_state \<Rightarrow> 's relay_state \<Rightarrow> bool" where
  "chunks_moved p w max_body fwd n s s' \<longleftrightarrow>
     (\<exists>raw payload. moved p w s raw (if fwd then raw else payload) s' \<and>
        (\<forall>acc rest. decode_chunks acc (raw @ rest) = Some (acc @ payload)) \<and>
        (max_body < 2 ^ 64 - 1 \<longrightarrow> n + length payload \<le> max_body))"

lemma chunks_moved_step:
  assumes "is_line body line" "parse_chunk_size_line body = Some (length data)" "data \<noteq> []"
    and "moved p w s (line @ data @ crlf) (if fwd then line @ data @ crlf else data) s1"
    and "sat_add 64 n (length data) \<le> max_body"
    and "chunks_moved p w max_body fwd (sat_add 64 n (length data)) s1 s2"
  shows "chunks_moved p w max_body fwd n s s2"
proof -
  obtain raw payload where r: "moved p w s1 raw (if fwd then raw else payload) s2"
    "\<forall>acc rest. decode_chunks acc (raw @ rest) = Some (acc @ payload)"
    "max_body < 2 ^ 64 - 1 \<longrightarrow> sat_add 64 n (length data) + length payload \<le> max_body"
    using assms(6) unfolding chunks_moved_def by blast
  have "moved p w s ((line @ data @ crlf) @ raw) (if fwd then (line @ data @ crlf) @ raw else data @ payload) s2"
    using moved_trans [OF assms(4) r(1)] by (auto split: if_splits)
  moreover have "decode_chunks acc (((line @ data @ crlf) @ raw) @ rest) = Some (acc @ data @ payload)" for acc rest
    using decode_chunks_step [OF assms(1-3), of acc "raw @ rest"] r(2) by simp
  moreover have "max_body < 2 ^ 64 - 1 \<longrightarrow> n + length (data @ payload) \<le> max_body"
    using r(3) assms(5) by (auto simp: sat_add_def uint_max_def)
  ultimately show ?thesis unfolding chunks_moved_def by blast
qed

text \<open>The ways in which the body of the loop over the chunks succeeds, for any continuation.\<close>

lemma chunk_round_cases:
  assumes "(case read_crlf_line io dir s of
        (Inl e, s) \<Rightarrow> Some (Err e, s)
      | (Inr line, s) \<Rightarrow>
          (case parse_chunk_size_line (take (length line - 2) line) of
             None \<Rightarrow> Some (Err (parse_side_error dir (Invalid ''invalid chunk size'')), s)
           | Some chunk_size \<Rightarrow>
               let total_body = sat_add 64 total_body chunk_size
               in if total_body > max_body then Some (Err (body_limit_error dir), s)
                  else case (if fwd then write_step io dir line s else (Ok (), s)) of
                    (Inl e, s) \<Rightarrow> Some (Err e, s)
                  | (Inr _, s) \<Rightarrow>
                      if chunk_size = 0 then Some (relay_trailers io dir fwd 0 s)
                      else case relay_exact_bytes io dir chunk_size s of
                        (Inl e, s) \<Rightarrow> Some (Err e, s)
                      | (Inr _, s) \<Rightarrow>
                          (case read_crlf_line io dir s of
                             (Inl e, s) \<Rightarrow> Some (Err e, s)
                           | (Inr terminator, s) \<Rightarrow>
                               if terminator \<noteq> crlf
                               then Some (Err (parse_side_error dir (Invalid ''invalid chunk data terminator'')), s)
                               else case (if fwd then write_step io dir terminator s else (Ok (), s)) of
                                 (Inl e, s) \<Rightarrow> Some (Err e, s)
                               | (Inr _, s) \<Rightarrow> f total_body s))) = Some (Ok u, s')"
  obtains (last) line s1 s2 v where "read_crlf_line io dir s = (Ok line, s1)"
      "parse_chunk_size_line (take (length line - 2) line) = Some 0" "sat_add 64 total_body 0 \<le> max_body"
      "(if fwd then write_step io dir line s1 else (Ok (), s1)) = (Ok v, s2)"
      "relay_trailers io dir fwd 0 s2 = (Ok u, s')"
    | (more) line s1 n v2 s2 v3 s3 s4 v5 s5 where "read_crlf_line io dir s = (Ok line, s1)"
      "parse_chunk_size_line (take (length line - 2) line) = Some n" "n \<noteq> 0" "sat_add 64 total_body n \<le> max_body"
      "(if fwd then write_step io dir line s1 else (Ok (), s1)) = (Ok v2, s2)"
      "relay_exact_bytes io dir n s2 = (Ok v3, s3)" "read_crlf_line io dir s3 = (Ok crlf, s4)"
      "(if fwd then write_step io dir crlf s4 else (Ok (), s4)) = (Ok v5, s5)"
      "f (sat_add 64 total_body n) s5 = Some (Ok u, s')"
proof -
  obtain line s1 where st1: "read_crlf_line io dir s = (Ok line, s1)"
    using assms by (auto split: prod.splits sum.splits)
  then obtain n where st2: "parse_chunk_size_line (take (length line - 2) line) = Some n"
    using assms by (auto split: option.splits)
  have lim: "sat_add 64 total_body n \<le> max_body"
    using assms st1 st2 by (auto simp: Let_def split: if_split_asm)
  obtain v s2 where st3: "(if fwd then write_step io dir line s1 else (Ok (), s1)) = (Ok v, s2)"
    using assms st1 st2 lim by (cases "if fwd then write_step io dir line s1 else (Ok (), s1)") (auto simp: Let_def split: sum.splits)
  show ?thesis
  proof (cases "n = 0")
    case True
    with assms st1 st2 st3 lim show ?thesis by (intro last [OF st1 _ _ st3]) (simp_all add: Let_def)
  next
    case False
    obtain v3 s3 where st4: "relay_exact_bytes io dir n s2 = (Ok v3, s3)"
      using assms st1 st2 lim st3 False by (auto simp: Let_def split: prod.splits sum.splits)
    obtain line2 s4 where st5: "read_crlf_line io dir s3 = (Ok line2, s4)"
      using assms st1 st2 lim st3 False st4 by (auto simp: Let_def split: prod.splits sum.splits)
    have l2: "line2 = crlf"
      using assms st1 st2 lim st3 False st4 st5 by (simp add: Let_def split: if_split_asm)
    obtain v5 s5 where st6: "(if fwd then write_step io dir crlf s4 else (Ok (), s4)) = (Ok v5, s5)"
      using assms st1 st2 lim st3 False st4 st5 l2
      by (cases "if fwd then write_step io dir crlf s4 else (Ok (), s4)") (auto simp: Let_def split: sum.splits)
    show ?thesis
      using assms st1 st2 lim st3 False st4 st5 l2 st6
      by (intro more [OF st1 st2 False lim st3 st4 _ st6]) (simp_all add: Let_def)
  qed
qed

lemma chunks_moved_last:
  assumes "relay_laws io p w" "read_crlf_line io dir s = (Ok line, s1)"
    and "parse_chunk_size_line (take (length line - 2) line) = Some 0" "sat_add 64 n 0 \<le> max_body"
    and "(if fwd then write_step io dir line s1 else (Ok (), s1)) = (Ok v, s2)"
    and "relay_trailers io dir fwd 0 s2 = (Ok u, s')"
  shows "chunks_moved p w max_body fwd n s s'"
proof -
  obtain body where body: "is_line body line" using read_crlf_line_moved [OF assms(1,2)] by blast
  obtain raw where raw: "moved p w s2 raw (if fwd then raw else []) s'"
    using relay_trailers_moved [OF assms(1,6)] by blast
  have "moved p w s (line @ raw) (if fwd then line @ raw else []) s'"
    using moved_trans [OF line_forward_moved [OF assms(1,2,5)] raw] by (auto split: if_splits)
  moreover have "decode_chunks acc ((line @ raw) @ rest) = Some (acc @ [])" for acc rest
    using decode_chunks_last [OF body, of acc "raw @ rest"] assms(3) is_line_take [OF body] by simp
  moreover have "max_body < 2 ^ 64 - 1 \<longrightarrow> n + length [] \<le> max_body" using assms(4) by (auto simp: sat_add_def uint_max_def)
  ultimately show ?thesis unfolding chunks_moved_def by blast
qed

lemma relay_chunks_moved_pre:
  assumes "relay_chunks io dir max_body fwd n s = Some y"
  shows "relay_laws io p w \<longrightarrow> (\<forall>u s'. y = (Ok u, s') \<longrightarrow> chunks_moved p w max_body fwd n s s')"
  using assms
proof (rule relay_chunks.raw_induct [where P = "\<lambda>io dir max_body fwd n s y.
    relay_laws io p w \<longrightarrow> (\<forall>u s'. y = (Ok u, s') \<longrightarrow> chunks_moved p w max_body fwd n s s')", rotated], goal_cases)
  case (1 f io dir max_body fwd n s y)
  show ?case
  proof (intro impI allI)
    fix u s'
    assume laws: "relay_laws io p w" and y: "y = (Ok u, s')"
    show "chunks_moved p w max_body fwd n s s'"
      using "1"(2) [unfolded y]
    proof (cases rule: chunk_round_cases)
      case (last line s1 s2 v)
      then show ?thesis by (rule chunks_moved_last [OF laws])
    next
      case (more line s1 k v2 s2 v3 s3 s4 v5 s5)
      obtain body data where d: "is_line body line" "parse_chunk_size_line body = Some (length data)" "length data = k"
        "moved p w s (line @ data @ crlf) (if fwd then line @ data @ crlf else data) s5"
        using relay_chunks_round [OF laws more(1,2,3,5,6,7,8)] by blast
      have "chunks_moved p w max_body fwd (sat_add 64 n k) s5 s'"
        using "1"(1) [OF more(9)] laws by blast
      with d more(3,4) show ?thesis by (intro chunks_moved_step [OF d(1,2) _ d(4)]) auto
    qed
  qed
qed

lemma relay_chunks_moved:
  "relay_chunks io dir max_body fwd n s = Some (Ok u, s') \<Longrightarrow> relay_laws io p w \<Longrightarrow> chunks_moved p w max_body fwd n s s'"
  using relay_chunks_moved_pre [of io dir max_body fwd n s "(Ok u, s')" p w] by blast

section \<open>Chunks that the relay makes\<close>

lemma show_hex_digits: "\<forall>c\<in>set (show_radix 16 n). is_ascii_hexdigit c"
proof (induction n rule: less_induct)
  case (less n)
  have d: "is_ascii_hexdigit (digit_char (m mod 16))" for m
  proof -
    have "m mod 16 < 16" by simp
    then show ?thesis by (auto simp: is_ascii_hexdigit_def digit_char_def byte_def of_char_of)
  qed
  show ?case
  proof (cases "n < 16")
    case True
    then show ?thesis using d [of n] by (subst show_radix.simps) simp
  next
    case False
    then have "\<forall>c\<in>set (show_radix 16 (n div 16)). is_ascii_hexdigit c" by (intro less.IH) simp
    with False d [of n] show ?thesis by (subst show_radix.simps) auto
  qed
qed

lemma hex_value_snoc: "hex_value (s @ [c]) = 16 * hex_value s + hex_digit_value c"
  by (simp add: hex_value_def)

lemma hex_digit_value_char: "d < 16 \<Longrightarrow> hex_digit_value (digit_char d) = d"
  by (auto simp: hex_digit_value_def digit_char_def byte_def of_char_of)

lemma hex_value_show: "hex_value (show_radix 16 n) = n"
proof (induction n rule: less_induct)
  case (less n)
  show ?case
  proof (cases "n < 16")
    case True
    then show ?thesis by (subst show_radix.simps) (simp add: hex_value_def hex_digit_value_char)
  next
    case False
    then have "hex_value (show_radix 16 (n div 16)) = n div 16" by (intro less.IH) simp
    with False show ?thesis by (subst show_radix.simps) (simp add: hex_value_snoc hex_digit_value_char)
  qed
qed

lemma show_radix_length: "n < 16 ^ Suc k \<Longrightarrow> length (show_radix 16 n) \<le> Suc k"
proof (induction k arbitrary: n)
  case 0
  then show ?case by (subst show_radix.simps) simp
next
  case (Suc k)
  have "n div 16 < 16 ^ Suc k" using Suc.prems by (simp add: less_mult_imp_div_less mult.commute)
  from Suc.IH [OF this] show ?case by (subst show_radix.simps) simp
qed

lemma parse_chunk_size_show:
  assumes "n < 2 ^ 64"
  shows "parse_chunk_size_line (show_hex n) = Some n"
proof -
  have t: "takeWhile is_ascii_hexdigit (show_hex n) = show_hex n" "dropWhile is_ascii_hexdigit (show_hex n) = []"
    using show_hex_digits [of n] by (auto simp: show_hex_def)
  have "length (show_hex n) \<le> 16"
    using show_radix_length [of n 15] assms by (simp add: show_hex_def)
  moreover have "show_hex n \<noteq> []" by (simp add: show_hex_def)
  moreover have "hex_value (show_hex n) = n" using hex_value_show [of n] by (simp add: show_hex_def)
  ultimately show ?thesis by (simp add: parse_chunk_size_line_def t Let_def)
qed

lemma is_line_plain:
  assumes "CHR 0x0D \<notin> set body"
  shows "is_line body (body @ crlf)"
proof -
  have "find_str crlf (body @ crlf) = Some (length body)"
  proof (rule find_str_at)
    show "\<forall>m<length body. \<not> prefix crlf (drop m (body @ crlf))"
    proof (intro allI impI)
      fix m
      assume "m < length body"
      then obtain c t where "drop m body = c # t" "c \<in> set body"
        by (metis Cons_nth_drop_Suc nth_mem)
      with assms show "\<not> prefix crlf (drop m (body @ crlf))"
        using \<open>m < length body\<close> by (auto simp: crlf_def)
    qed
  qed simp_all
  then show ?thesis by (simp add: is_line_def)
qed

lemma is_line_hex: "is_line (show_hex n) (show_hex n @ crlf)"
proof (rule is_line_plain)
  have "\<not> is_ascii_hexdigit CHR 0x0D" by (simp add: is_ascii_hexdigit_def byte_def)
  then show "CHR 0x0D \<notin> set (show_hex n)" using show_hex_digits [of n] by (auto simp: show_hex_def)
qed

lemma show_hex_0: "show_hex 0 = ''0''"
  by code_simp

lemma next_bytes_law:
  assumes "relay_laws io p w" "next_bytes io dir s = (Ok bytes, s')"
  shows "unread p s = bytes @ unread p s'" "w (rl_io s') = w (rl_io s)" "length bytes \<le> 16384"
    "bytes = [] \<Longrightarrow> unread p s = []"
proof -
  have "unread p s = bytes @ unread p s' \<and> w (rl_io s') = w (rl_io s) \<and> length bytes \<le> 16384 \<and>
    (bytes = [] \<longrightarrow> unread p s = [])"
  proof (cases "rl_buffer s = []")
    case True
    then show ?thesis
      using assms(2) read_step_law [OF assms(1), of dir 16384 s bytes s'] by (auto simp: next_bytes_def unread_def)
  next
    case False
    then show ?thesis using assms(2) by (auto simp: next_bytes_def unread_def Let_def min_def split: if_splits)
  qed
  then show "unread p s = bytes @ unread p s'" "w (rl_io s') = w (rl_io s)" "length bytes \<le> 16384"
    "bytes = [] \<Longrightarrow> unread p s = []" by blast+
qed

definition closed_moved ::
  "('s \<Rightarrow> string) \<Rightarrow> ('s \<Rightarrow> string) \<Rightarrow> nat \<Rightarrow> nat \<Rightarrow> 's relay_state \<Rightarrow> 's relay_state \<Rightarrow> bool" where
  "closed_moved p w max_body n s s' \<longleftrightarrow>
     (\<exists>sent. moved p w s (unread p s) sent s' \<and> (\<forall>acc. decode_chunks acc sent = Some (acc @ unread p s)) \<and>
        (max_body < 2 ^ 64 - 1 \<longrightarrow> n \<le> max_body \<longrightarrow> n + length (unread p s) \<le> max_body))"

lemma closed_moved_end:
  assumes "relay_laws io p w" "next_bytes io dir s = (Ok [], s1)"
    and "write_step io dir (''0'' @ crlf @ crlf) s1 = (Ok u, s')"
  shows "closed_moved p w max_body n s s'"
proof -
  note nb = next_bytes_law [OF assms(1,2)]
  have e: "unread p s = []" "unread p s1 = []" using nb by auto
  have "moved p w s1 [] (''0'' @ crlf @ crlf) s'" by (rule write_step_moved [OF assms(1,3)])
  then have "moved p w s (unread p s) ((''0'' @ crlf) @ crlf) s'" using e nb(2) by (simp add: moved_def)
  moreover have "decode_chunks acc ((''0'' @ crlf) @ crlf) = Some (acc @ unread p s)" for acc
    using decode_chunks_last [OF is_line_hex [of 0], of acc crlf] parse_chunk_size_show [of 0] e(1)
    by (simp add: show_hex_0)
  ultimately show ?thesis unfolding closed_moved_def using e(1) by (intro exI conjI) auto
qed

lemma closed_moved_step:
  assumes "relay_laws io p w" "next_bytes io dir s = (Ok bytes, s1)" "bytes \<noteq> []"
    and "write_step io dir (show_hex (length bytes) @ crlf @ bytes @ crlf) s1 = (Ok u, s2)"
    and "sat_add 64 n (length bytes) \<le> max_body" "closed_moved p w max_body (sat_add 64 n (length bytes)) s2 s'"
  shows "closed_moved p w max_body n s s'"
proof -
  note nb = next_bytes_law [OF assms(1,2)]
  have mv: "moved p w s1 [] (show_hex (length bytes) @ crlf @ bytes @ crlf) s2"
    by (rule write_step_moved [OF assms(1,4)])
  then have u: "unread p s1 = unread p s2" by (simp add: moved_def)
  obtain sent where r: "moved p w s2 (unread p s2) sent s'" "\<forall>acc. decode_chunks acc sent = Some (acc @ unread p s2)"
    "max_body < 2 ^ 64 - 1 \<longrightarrow> sat_add 64 n (length bytes) + length (unread p s2) \<le> max_body"
    using assms(5,6) unfolding closed_moved_def by blast
  have "moved p w s (unread p s) ((show_hex (length bytes) @ crlf) @ bytes @ crlf @ sent) s'"
    using moved_trans [OF mv r(1)] nb(1,2) u by (simp add: moved_def)
  moreover have "decode_chunks acc ((show_hex (length bytes) @ crlf) @ bytes @ crlf @ sent) = Some (acc @ unread p s)" for acc
  proof -
    have "parse_chunk_size_line (show_hex (length bytes)) = Some (length bytes)"
      by (rule parse_chunk_size_show) (use nb(3) in simp)
    from decode_chunks_step [OF is_line_hex this assms(3)] r(2) nb(1) u show ?thesis by simp
  qed
  moreover have "max_body < 2 ^ 64 - 1 \<longrightarrow> n + length (unread p s) \<le> max_body"
    using r(3) nb(1) u assms(5) by (auto simp: sat_add_def uint_max_def)
  ultimately show ?thesis unfolding closed_moved_def by blast
qed

lemma relay_until_close_moved_pre:
  assumes "relay_until_close io dir max_body n s = Some y"
  shows "relay_laws io p w \<longrightarrow> (\<forall>u s'. y = (Ok u, s') \<longrightarrow> closed_moved p w max_body n s s')"
  using assms
proof (rule relay_until_close.raw_induct [where P = "\<lambda>io dir max_body n s y.
    relay_laws io p w \<longrightarrow> (\<forall>u s'. y = (Ok u, s') \<longrightarrow> closed_moved p w max_body n s s')", rotated], goal_cases)
  case (1 f io dir max_body n s y)
  show ?case
  proof (intro impI allI)
    fix u s'
    assume laws: "relay_laws io p w" and y: "y = (Ok u, s')"
    obtain bytes s1 where nb: "next_bytes io dir s = (Ok bytes, s1)"
      using "1"(2) y by (auto split: prod.splits sum.splits)
    show "closed_moved p w max_body n s s'"
    proof (cases "bytes = []")
      case True
      then have "write_step io dir (''0'' @ crlf @ crlf) s1 = (Ok u, s')" using "1"(2) y nb by simp
      with True nb show ?thesis by (intro closed_moved_end [OF laws]) simp_all
    next
      case False
      then have lim: "sat_add 64 n (length bytes) \<le> max_body"
        using "1"(2) y nb by (auto simp: Let_def split: if_split_asm)
      obtain v s2 where wr: "write_step io dir (show_hex (length bytes) @ crlf @ bytes @ crlf) s1 = (Ok v, s2)"
        using "1"(2) y nb False lim by (auto simp: Let_def split: prod.splits sum.splits)
      have "f io dir max_body (sat_add 64 n (length bytes)) s2 = Some (Ok u, s')"
        using "1"(2) y nb False lim wr by (simp add: Let_def)
      then have "closed_moved p w max_body (sat_add 64 n (length bytes)) s2 s'" using "1"(1) laws by blast
      then show ?thesis by (rule closed_moved_step [OF laws nb False wr lim])
    qed
  qed
qed

lemma relay_until_close_moved:
  "relay_until_close io dir max_body n s = Some (Ok u, s') \<Longrightarrow> relay_laws io p w \<Longrightarrow> closed_moved p w max_body n s s'"
  using relay_until_close_moved_pre [of io dir max_body n s "(Ok u, s')" p w] by blast

text \<open>Bodies that are delimited by the end of the connection on both sides.\<close>

definition plain_moved ::
  "('s \<Rightarrow> string) \<Rightarrow> ('s \<Rightarrow> string) \<Rightarrow> nat \<Rightarrow> nat \<Rightarrow> 's relay_state \<Rightarrow> 's relay_state \<Rightarrow> bool" where
  "plain_moved p w max_body n s s' \<longleftrightarrow>
     moved p w s (unread p s) (unread p s) s' \<and>
     (max_body < 2 ^ 64 - 1 \<longrightarrow> n \<le> max_body \<longrightarrow> n + length (unread p s) \<le> max_body)"

lemma relay_plain_until_close_moved_pre:
  assumes "relay_plain_until_close io dir max_body n s = Some y"
  shows "relay_laws io p w \<longrightarrow> rl_buffer s = [] \<longrightarrow> (\<forall>u s'. y = (Ok u, s') \<longrightarrow> plain_moved p w max_body n s s')"
  using assms
proof (rule relay_plain_until_close.raw_induct [where P = "\<lambda>io dir max_body n s y.
    relay_laws io p w \<longrightarrow> rl_buffer s = [] \<longrightarrow> (\<forall>u s'. y = (Ok u, s') \<longrightarrow> plain_moved p w max_body n s s')", rotated], goal_cases)
  case (1 f io dir max_body n s y)
  show ?case
  proof (intro impI allI)
    fix u s'
    assume laws: "relay_laws io p w" and buf: "rl_buffer s = []" and y: "y = (Ok u, s')"
    obtain bytes s1 where rd: "read_step io dir (16 * 1024) s = (Ok bytes, s1)"
      using "1"(2) y by (auto split: prod.splits sum.splits)
    note law = read_step_law [OF laws rd]
    show "plain_moved p w max_body n s s'"
    proof (cases "bytes = []")
      case True
      then have "s' = s1" using "1"(2) y rd by simp
      with True law buf show ?thesis by (simp add: plain_moved_def moved_def unread_def)
    next
      case False
      then have lim: "sat_add 64 n (length bytes) \<le> max_body"
        using "1"(2) y rd by (auto simp: Let_def split: if_split_asm)
      obtain v s2 where wr: "write_step io dir bytes s1 = (Ok v, s2)"
        using "1"(2) y rd False lim by (auto simp: Let_def split: prod.splits sum.splits)
      note rw = read_write_moved [OF laws buf _ rd wr]
      have "f io dir max_body (sat_add 64 n (length bytes)) s2 = Some (Ok u, s')"
        using "1"(2) y rd False lim wr by (simp add: Let_def)
      then have "plain_moved p w max_body (sat_add 64 n (length bytes)) s2 s'"
        using "1"(1) laws rw(2) by simp
      moreover have "unread p s = bytes @ unread p s2" using rw(1) by (simp add: moved_def)
      ultimately show ?thesis
        using moved_trans [OF rw(1)] lim by (auto simp: plain_moved_def sat_add_def uint_max_def)
    qed
  qed
qed

lemma relay_plain_until_close_moved:
  "relay_plain_until_close io dir max_body n s = Some (Ok u, s') \<Longrightarrow> relay_laws io p w \<Longrightarrow> rl_buffer s = [] \<Longrightarrow>
     plain_moved p w max_body n s s'"
  using relay_plain_until_close_moved_pre [of io dir max_body n s "(Ok u, s')" p w] by blast

declare relay_chunks.simps [code] relay_until_close.simps [code] relay_plain_until_close.simps [code]

section \<open>The loops end\<close>

lemma sat_add_grows: "m < 2 ^ 64 - 1 \<Longrightarrow> k \<noteq> 0 \<Longrightarrow> sat_add 64 n k \<le> m \<Longrightarrow> n < sat_add 64 n k"
  by (auto simp: sat_add_def uint_max_def)

lemma relay_chunks_ends:
  assumes "max_body < 2 ^ 64 - 1"
  shows "relay_chunks io dir max_body fwd n s \<noteq> None"
proof (induction "Suc max_body - n" arbitrary: n s rule: less_induct)
  case less
  have "relay_chunks io dir max_body fwd (sat_add 64 n k) t \<noteq> None" if "k \<noteq> 0" "sat_add 64 n k \<le> max_body" for k t
    using sat_add_grows [OF assms that] that(2) by (intro less) linarith
  moreover have "\<exists>k t. k \<noteq> 0 \<and> sat_add 64 n k \<le> max_body \<and> relay_chunks io dir max_body fwd (sat_add 64 n k) t = None"
    if "relay_chunks io dir max_body fwd n s = None"
    using that by (subst (asm) relay_chunks.simps) (fastforce simp: Let_def split: prod.splits sum.splits option.splits if_split_asm)
  ultimately show ?case by blast
qed

lemma relay_until_close_ends:
  assumes "max_body < 2 ^ 64 - 1"
  shows "relay_until_close io dir max_body n s \<noteq> None"
proof (induction "Suc max_body - n" arbitrary: n s rule: less_induct)
  case less
  have "relay_until_close io dir max_body (sat_add 64 n k) t \<noteq> None" if "k \<noteq> 0" "sat_add 64 n k \<le> max_body" for k t
    using sat_add_grows [OF assms that] that(2) by (intro less) linarith
  moreover have "\<exists>k t. k \<noteq> 0 \<and> sat_add 64 n k \<le> max_body \<and> relay_until_close io dir max_body (sat_add 64 n k) t = None"
    if "relay_until_close io dir max_body n s = None"
    using that by (subst (asm) relay_until_close.simps) (fastforce simp: Let_def split: prod.splits sum.splits if_split_asm)
  ultimately show ?case by blast
qed

lemma relay_plain_until_close_ends:
  assumes "max_body < 2 ^ 64 - 1"
  shows "relay_plain_until_close io dir max_body n s \<noteq> None"
proof (induction "Suc max_body - n" arbitrary: n s rule: less_induct)
  case less
  have "relay_plain_until_close io dir max_body (sat_add 64 n k) t \<noteq> None" if "k \<noteq> 0" "sat_add 64 n k \<le> max_body" for k t
    using sat_add_grows [OF assms that] that(2) by (intro less) linarith
  moreover have "\<exists>k t. k \<noteq> 0 \<and> sat_add 64 n k \<le> max_body \<and> relay_plain_until_close io dir max_body (sat_add 64 n k) t = None"
    if "relay_plain_until_close io dir max_body n s = None"
    using that by (subst (asm) relay_plain_until_close.simps) (fastforce simp: Let_def split: prod.splits sum.splits if_split_asm)
  ultimately show ?case by blast
qed

lemma relay_body_ends:
  "max_body < 2 ^ 64 - 1 \<Longrightarrow> relay_body io kind max_body dir s \<noteq> None"
  using relay_chunks_ends [of max_body io dir True 0 s] relay_until_close_ends [of max_body io dir 0 s]
  by (simp add: relay_body_def relay_chunked_def relay_chunked_with_framing_def
      relay_close_delimited_as_chunked_def split: body_kind.split)

lemma collecting_laws:
  assumes "source_laws io pending"
  shows "relay_laws (collecting io) (pending \<circ> fst) snd"
proof -
  have "source_laws (collecting io) (pending \<circ> fst)"
    unfolding source_laws_def
  proof (intro allI impI)
    fix n i bytes i'
    assume n: "0 < n" and rd: "io_read (collecting io) n i = (ReadBytes bytes, i')"
    then have "io_read io n (fst i) = (ReadBytes bytes, fst i')"
      by (cases i) (auto simp: collecting_def split: prod.splits)
    then have "pending (fst i) = bytes @ pending (fst i') \<and> length bytes \<le> n \<and> (bytes = [] \<longrightarrow> pending (fst i) = [])"
      using assms n unfolding source_laws_def by blast
    then show "(pending \<circ> fst) i = bytes @ (pending \<circ> fst) i' \<and> length bytes \<le> n \<and>
        (bytes = [] \<longrightarrow> (pending \<circ> fst) i = [])"
      unfolding comp_def .
  qed
  moreover have "snd i' = snd i" if "io_read (collecting io) n i = (r, i')" for n i r i'
    using that by (cases i) (auto simp: collecting_def split: prod.splits)
  moreover have "fst i' = fst i \<and> snd i' = snd i @ bytes" if "io_write (collecting io) bytes i = (None, i')" for bytes i i'
    using that by (cases i) (auto simp: collecting_def)
  ultimately show ?thesis unfolding relay_laws_def comp_def by metis
qed

section \<open>Properties of body relaying\<close>

text \<open>The payload that some bytes carry under a framing.\<close>

fun payload_of :: "body_kind \<Rightarrow> string \<Rightarrow> string option" where
  "payload_of BodyNone raw = (if raw = [] then Some [] else None)"
| "payload_of (ContentLength n) raw = (if length raw = n then Some raw else None)"
| "payload_of Chunked raw = decode_chunked_body raw"
| "payload_of CloseDelimited raw = Some raw"

text \<open>The framing under which a body is relayed.\<close>

fun relayed_kind :: "body_kind \<Rightarrow> body_kind" where
  "relayed_kind CloseDelimited = Chunked"
| "relayed_kind kind = kind"

lemma chunks_moved_payload:
  assumes "chunks_moved p w max_body fwd 0 s s'"
  shows "\<exists>raw payload. moved p w s raw (if fwd then raw else payload) s' \<and> decode_chunked_body raw = Some payload \<and>
    (max_body < 2 ^ 64 - 1 \<longrightarrow> length payload \<le> max_body)"
  using assms unfolding chunks_moved_def decode_chunked_body_def by (metis add_0 append.right_neutral append_Nil)

lemma closed_moved_payload:
  assumes "closed_moved p w max_body 0 s s'"
  shows "\<exists>sent. moved p w s (unread p s) sent s' \<and> decode_chunked_body sent = Some (unread p s) \<and>
    (max_body < 2 ^ 64 - 1 \<longrightarrow> length (unread p s) \<le> max_body)"
  using assms unfolding closed_moved_def decode_chunked_body_def by (metis add_0 append_Nil le0)

lemma relay_content_length_moved:
  assumes "relay_laws io p w" "relay_content_length io dir n s = (Ok u, s')"
  shows "\<exists>bytes. length bytes = n \<and> moved p w s bytes bytes s'"
proof -
  obtain bytes where "relay_content_length_collect io dir n s = (Ok bytes, s')"
    using assms(2) by (auto simp: relay_content_length_eq split: prod.splits sum.splits)
  from relay_content_length_collect_moved [OF assms(1) this] show ?thesis by blast
qed

lemma moved_all: "moved p w s (unread p s) sent s' \<Longrightarrow> unread p s' = []"
  by (simp add: moved_def)

lemma relay_body_payload:
  assumes "relay_laws io p w" "relay_body io kind max_body dir s = Some (Ok u, s')"
  shows "\<exists>raw sent payload. moved p w s raw sent s' \<and> payload_of kind raw = Some payload \<and>
    payload_of (relayed_kind kind) sent = Some payload \<and> (kind = CloseDelimited \<longrightarrow> unread p s' = []) \<and>
    (max_body < 2 ^ 64 - 1 \<longrightarrow> length payload \<le> max_body)"
proof (cases kind)
  case BodyNone
  then show ?thesis using assms(2) by (intro exI [of _ "[]"]) (simp add: relay_body_def)
next
  case (ContentLength n)
  with assms(2) have n: "n \<le> max_body" "relay_content_length io dir n s = (Ok u, s')"
    by (auto simp: relay_body_def split: if_splits)
  from relay_content_length_moved [OF assms(1) n(2)] obtain bytes
    where "length bytes = n" "moved p w s bytes bytes s'" by blast
  with n(1) ContentLength show ?thesis by (intro exI [of _ bytes]) simp
next
  case Chunked
  then have "relay_chunks io dir max_body True 0 s = Some (Ok u, s')"
    using assms(2) by (simp add: relay_body_def relay_chunked_def relay_chunked_with_framing_def)
  from chunks_moved_payload [OF relay_chunks_moved [OF this assms(1)]] Chunked show ?thesis by auto
next
  case CloseDelimited
  then have "relay_until_close io dir max_body 0 s = Some (Ok u, s')"
    using assms(2) by (simp add: relay_body_def relay_close_delimited_as_chunked_def)
  from closed_moved_payload [OF relay_until_close_moved [OF this assms(1)]] CloseDelimited show ?thesis
    by (auto dest: moved_all)
qed

lemma relay_http10_payload:
  assumes "relay_laws io p w" "relay_response_body_for_http10 io kind max_body s = Some (Ok u, s')"
  shows "\<exists>raw payload. moved p w s raw payload s' \<and> payload_of kind raw = Some payload \<and>
    (max_body < 2 ^ 64 - 1 \<longrightarrow> length payload \<le> max_body)"
proof -
  consider (chunked) "kind = Chunked" | (closed) "kind = CloseDelimited"
    | (plain) "relay_response_body_for_http10 io kind max_body s = relay_body io kind max_body Response s"
        "kind \<noteq> Chunked" "kind \<noteq> CloseDelimited"
    by (cases kind) (auto simp: relay_response_body_for_http10_def)
  then show ?thesis
  proof cases
    case chunked
    then have "relay_chunks io Response max_body False 0 s = Some (Ok u, s')"
      using assms(2) by (simp add: relay_response_body_for_http10_def relay_chunked_with_framing_def)
    from chunks_moved_payload [OF relay_chunks_moved [OF this assms(1)]] chunked show ?thesis by auto
  next
    case closed
    let ?n = "length (rl_buffer s)"
    from closed assms(2) obtain v s1 where st: "?n \<le> max_body" "write_step io Response (rl_buffer s) s = (Ok v, s1)"
      "relay_plain_until_close io Response max_body ?n (s1\<lparr>rl_buffer := []\<rparr>) = Some (Ok u, s')"
      by (auto simp: relay_response_body_for_http10_def split: if_splits prod.splits sum.splits)
    note law = write_step_law [OF assms(1) st(2)]
    have pm: "plain_moved p w max_body ?n (s1\<lparr>rl_buffer := []\<rparr>) s'"
      by (rule relay_plain_until_close_moved [OF st(3) assms(1)]) simp
    then have "moved p w s (unread p s) (unread p s) s'"
      "max_body < 2 ^ 64 - 1 \<longrightarrow> length (unread p s) \<le> max_body"
      using law st(1) by (simp_all add: plain_moved_def moved_def unread_def)
    with closed show ?thesis by auto
  next
    case plain
    with assms(2) have "relay_body io kind max_body Response s = Some (Ok u, s')" by simp
    from relay_body_payload [OF assms(1) this] plain(2,3) show ?thesis by (cases kind) (auto split: if_splits)
  qed
qed

text \<open>
  C6. Relaying a body keeps its payload: when \<open>relay_body\<close> succeeds, the bytes that it has taken
  from the stream carry, under the framing of the body, exactly the payload that the bytes it has
  sent carry under the framing of the relayed body. A body delimited by the end of the connection
  is taken to its end and sent as chunks, every other body keeps its framing. The payload is
  within the configured limit, unless that is the largest 64-bit number.
\<close>

theorem relay_body_keeps_payload:
  assumes "relay_laws io pending written"
    and "relay_body io kind max_body_bytes dir s = Some (Ok u, s')"
  shows "\<exists>raw sent payload. unread pending s = raw @ unread pending s' \<and>
    written (rl_io s') = written (rl_io s) @ sent \<and>
    payload_of kind raw = Some payload \<and> payload_of (relayed_kind kind) sent = Some payload \<and>
    (kind = CloseDelimited \<longrightarrow> unread pending s' = []) \<and>
    (max_body_bytes < 2 ^ 64 - 1 \<longrightarrow> length payload \<le> max_body_bytes)"
  using relay_body_payload [OF assms] unfolding moved_def by blast

text \<open>A connection in memory that delivers at most three bytes per read.\<close>

definition sample_relay_io :: "(string \<times> string, unit) relay_io" where
  "sample_relay_io =
     \<lparr>io_read = (\<lambda>n (p, w). (ReadBytes (take (min n 3) p), (drop (min n 3) p, w))),
      io_write = (\<lambda>bytes (p, w). (None, (p, w @ bytes)))\<rparr>"

lemma sample_relay_laws: "relay_laws sample_relay_io fst snd"
  by (auto simp: relay_laws_def source_laws_def sample_relay_io_def min_def split: if_splits)

definition sample_chunks :: string where
  "sample_chunks = ''4;x'' @ crlf @ ''Wiki'' @ crlf @ ''0'' @ crlf @ ''t: v'' @ crlf @ crlf"

definition sample_relay_state :: "(string \<times> string) relay_state" where
  "sample_relay_state = \<lparr>rl_buffer = take 2 sample_chunks, rl_io = (drop 2 sample_chunks @ ''GET'', ''head'')\<rparr>"

theorem relay_body_keeps_payload_witness:
  "relay_body sample_relay_io Chunked 100 Response sample_relay_state =
     Some (Ok (), \<lparr>rl_buffer = ''GE'', rl_io = (''T'', ''head'' @ sample_chunks)\<rparr>) \<and>
   (\<exists>raw sent payload. unread fst sample_relay_state = raw @ ''GET'' \<and> ''head'' @ sample_chunks = ''head'' @ sent \<and>
      payload_of Chunked raw = Some payload \<and> payload_of Chunked sent = Some payload \<and> length payload \<le> 100)"
proof
  show run: "relay_body sample_relay_io Chunked 100 Response sample_relay_state =
     Some (Ok (), \<lparr>rl_buffer = ''GE'', rl_io = (''T'', ''head'' @ sample_chunks)\<rparr>)" by code_simp
  from relay_body_keeps_payload [OF sample_relay_laws run]
  show "\<exists>raw sent payload. unread fst sample_relay_state = raw @ ''GET'' \<and> ''head'' @ sample_chunks = ''head'' @ sent \<and>
      payload_of Chunked raw = Some payload \<and> payload_of Chunked sent = Some payload \<and> length payload \<le> 100"
    by (auto simp: unread_def sample_relay_state_def)
qed

text \<open>
  C10. Relaying a body always ends: with a body limit below the largest 64-bit number, every peer,
  whatever it sends and however its connection fails, is answered by a result of \<open>relay_body\<close>,
  of \<open>relay_response_body_for_http10\<close> and of \<open>collect_decoded_body\<close>. No law about the
  connections is needed.
\<close>

theorem body_relay_ends:
  assumes "max_body_bytes < 2 ^ 64 - 1"
  shows "(\<exists>r. relay_body io kind max_body_bytes dir s = Some r) \<and>
    (\<exists>r. relay_response_body_for_http10 io kind max_body_bytes s = Some r) \<and>
    (\<exists>r. collect_decoded_body io kind max_body_bytes dir s = Some r)"
proof (intro conjI)
  show "\<exists>r. relay_body io kind max_body_bytes dir s = Some r"
    using relay_body_ends [OF assms] by blast
  show "\<exists>r. relay_response_body_for_http10 io kind max_body_bytes s = Some r"
    using relay_body_ends [OF assms, of io kind Response s] relay_chunks_ends [OF assms, of io Response False 0 s]
      relay_plain_until_close_ends [OF assms, of io Response]
    by (auto simp: relay_response_body_for_http10_def relay_chunked_with_framing_def
        split: body_kind.split prod.split sum.split)
  obtain res t where
    "relay_body (collecting io) kind max_body_bytes dir \<lparr>rl_buffer = rl_buffer s, rl_io = (rl_io s, [])\<rparr> = Some (res, t)"
    using relay_body_ends [OF assms] by (metis option.exhaust surj_pair)
  then show "\<exists>r. collect_decoded_body io kind max_body_bytes dir s = Some r"
    by (simp add: collect_decoded_body_def Let_def)
qed

theorem body_relay_ends_witness:
  "(\<exists>r. relay_body sample_relay_io CloseDelimited 3 Response sample_relay_state = Some r) \<and>
   (\<exists>r. relay_response_body_for_http10 sample_relay_io CloseDelimited 3 sample_relay_state = Some r) \<and>
   (\<exists>r. collect_decoded_body sample_relay_io CloseDelimited 3 Response sample_relay_state = Some r)"
  by (rule body_relay_ends) simp

text \<open>
  C25. An HTTP/1.0 client, which cannot decode chunks, is sent exactly the payload of the response
  body, whatever its framing: no chunk header, no trailer and nothing of the next response.
\<close>

theorem http10_body_is_payload:
  assumes "relay_laws io pending written"
    and "relay_response_body_for_http10 io kind max_body_bytes s = Some (Ok u, s')"
  shows "\<exists>raw payload. unread pending s = raw @ unread pending s' \<and>
    written (rl_io s') = written (rl_io s) @ payload \<and> payload_of kind raw = Some payload \<and>
    (max_body_bytes < 2 ^ 64 - 1 \<longrightarrow> length payload \<le> max_body_bytes)"
  using relay_http10_payload [OF assms] unfolding moved_def by blast

theorem http10_body_is_payload_witness:
  "relay_response_body_for_http10 sample_relay_io Chunked 100 sample_relay_state =
     Some (Ok (), \<lparr>rl_buffer = ''GE'', rl_io = (''T'', ''headWiki'')\<rparr>) \<and>
   (\<exists>raw payload. unread fst sample_relay_state = raw @ ''GET'' \<and> ''headWiki'' = ''head'' @ payload \<and>
      payload_of Chunked raw = Some payload \<and> length payload \<le> 100)"
proof
  show run: "relay_response_body_for_http10 sample_relay_io Chunked 100 sample_relay_state =
     Some (Ok (), \<lparr>rl_buffer = ''GE'', rl_io = (''T'', ''headWiki'')\<rparr>)" by code_simp
  from http10_body_is_payload [OF sample_relay_laws run]
  show "\<exists>raw payload. unread fst sample_relay_state = raw @ ''GET'' \<and> ''headWiki'' = ''head'' @ payload \<and>
      payload_of Chunked raw = Some payload \<and> length payload \<le> 100"
    by (auto simp: unread_def sample_relay_state_def)
qed

text \<open>
  C24. Collecting a body returns its payload: decoding never fails after a successful relay, so that
  the only errors are those of the relay itself, and the bytes returned are the payload of the
  bytes taken from the stream, within the limit.
\<close>

theorem collected_body_is_payload:
  assumes "source_laws io pending"
    and "collect_decoded_body io kind max_body_bytes dir s = Some (res, s')"
  shows "case res of
      Inl e \<Rightarrow> \<exists>t. relay_body (collecting io) kind max_body_bytes dir
        \<lparr>rl_buffer = rl_buffer s, rl_io = (rl_io s, [])\<rparr> = Some (Err e, t)
    | Inr payload \<Rightarrow> \<exists>raw. unread pending s = raw @ unread pending s' \<and> payload_of kind raw = Some payload \<and>
        (kind = CloseDelimited \<longrightarrow> unread pending s' = []) \<and>
        (max_body_bytes < 2 ^ 64 - 1 \<longrightarrow> length payload \<le> max_body_bytes)"
proof -
  let ?init = "\<lparr>rl_buffer = rl_buffer s, rl_io = (rl_io s, [])\<rparr>"
  from assms(2) obtain r t where run: "relay_body (collecting io) kind max_body_bytes dir ?init = Some (r, t)"
    by (auto simp: collect_decoded_body_def split: option.splits)
  show ?thesis
  proof (cases r)
    case (Inl e)
    with assms(2) run show ?thesis by (auto simp: collect_decoded_body_def Let_def)
  next
    case (Inr u)
    obtain raw sent payload where p: "moved (pending \<circ> fst) snd ?init raw sent t" "payload_of kind raw = Some payload"
      "payload_of (relayed_kind kind) sent = Some payload"
      "kind = CloseDelimited \<longrightarrow> unread (pending \<circ> fst) t = []"
      "max_body_bytes < 2 ^ 64 - 1 \<longrightarrow> length payload \<le> max_body_bytes"
      using relay_body_payload [OF collecting_laws [OF assms(1)]] run Inr by blast
    have "snd (rl_io t) = sent" using p(1) by (simp add: moved_def)
    then have "res = Ok payload" "s' = \<lparr>rl_buffer = rl_buffer t, rl_io = fst (rl_io t)\<rparr>"
      using assms(2) run Inr p(3)
      by (cases kind; auto simp: collect_decoded_body_def Let_def ok_or_def split: if_splits)+
    with p show ?thesis by (auto simp: moved_def unread_def)
  qed
qed

theorem collected_body_is_payload_witness:
  "collect_decoded_body sample_relay_io CloseDelimited 100 Response sample_relay_state =
     Some (Ok (sample_chunks @ ''GET''), \<lparr>rl_buffer = [], rl_io = ([], ''head'')\<rparr>) \<and>
   (\<exists>raw. unread fst sample_relay_state = raw @ [] \<and> payload_of CloseDelimited raw = Some (sample_chunks @ ''GET''))"
proof
  show run: "collect_decoded_body sample_relay_io CloseDelimited 100 Response sample_relay_state =
     Some (Ok (sample_chunks @ ''GET''), \<lparr>rl_buffer = [], rl_io = ([], ''head'')\<rparr>)" by code_simp
  have laws: "source_laws sample_relay_io fst" using sample_relay_laws by (simp add: relay_laws_def)
  from collected_body_is_payload [OF laws run]
  show "\<exists>raw. unread fst sample_relay_state = raw @ [] \<and> payload_of CloseDelimited raw = Some (sample_chunks @ ''GET'')"
    by (auto simp: unread_def)
qed

end
