(* ===== verification/Cache_Freshness.thy ===== *)
theory Cache_Freshness
  imports Http_Cache Http_Body
begin

text \<open>
  \<open>crates/runtime/src/http1_proxy/cache_headers_and_freshness.rs\<close>: which responses may be stored and
  for how long they are fresh.

  The parser of HTTP dates and the checks of header names and values belong to third-party packages
  and are parameters; a date is the time since the epoch. Adding two durations panics when the
  sum does not fit, which is an error value here. The functions that only forward to telemetry are
  left out.
\<close>

datatype runtime_panic = DurationOverflow

definition dur_add :: "duration \<Rightarrow> duration \<Rightarrow> (duration, runtime_panic) result" where
  "dur_add a b = (if a + b \<le> duration_max then Ok (a + b) else Err DurationOverflow)"

definition request_method_is_cache_lookup_eligible :: "http_cache_policy_config \<Rightarrow> string \<Rightarrow> bool" where
  "request_method_is_cache_lookup_eligible policy meth \<longleftrightarrow>
     list_ex (\<lambda>m. case m of MethodGet \<Rightarrow> eq_ignore_ascii_case meth ''GET'' | MethodHead \<Rightarrow> eq_ignore_ascii_case meth ''HEAD'')
       (hp_methods policy)"

definition is_disallowed_cache_vary_header :: "string \<Rightarrow> bool" where
  "is_disallowed_cache_vary_header h \<longleftrightarrow>
     to_ascii_lowercase h \<in>
       {''authorization'', ''cookie'', ''set-cookie'', ''connection'', ''keep-alive'', ''proxy-authenticate'',
        ''proxy-authorization'', ''proxy-connection'', ''te'', ''trailer'', ''transfer-encoding'', ''upgrade'',
        ''forwarded'', ''x-forwarded-for'', ''x-forwarded-proto''}"

definition response_has_unsafe_vary :: "http_header list \<Rightarrow> bool" where
  "response_has_unsafe_vary headers \<longleftrightarrow>
     list_ex (\<lambda>value. value = [] \<or> value = ''*'' \<or> is_disallowed_cache_vary_header value) (header_entries ''vary'' headers)"

definition response_is_cacheable :: "http_cache_policy_config \<Rightarrow> http1_response_head \<Rightarrow> http_header list \<Rightarrow> bool" where
  "response_is_cacheable policy response headers =
     (if rp_status response \<notin> set (hp_cacheable_status_codes policy) then False
      else if \<not> hp_allow_set_cookie_storage policy \<and> list_ex (has_name ''set-cookie'') headers then False
      else if response_has_unsafe_vary headers then False
      else True)"

section \<open>Cache directives\<close>

record parsed_cache_control =
  pc_no_store :: bool
  pc_private :: bool
  pc_no_cache :: bool
  pc_max_age :: "nat option"
  pc_shared_max_age :: "nat option"
  pc_stale_while_revalidate :: "nat option"
  pc_stale_if_error :: "nat option"

definition parsed_cache_control_default :: parsed_cache_control where
  "parsed_cache_control_default =
     \<lparr>pc_no_store = False, pc_private = False, pc_no_cache = False, pc_max_age = None, pc_shared_max_age = None,
      pc_stale_while_revalidate = None, pc_stale_if_error = None\<rparr>"

text \<open>\<open>str::parse::<u64>\<close>, which accepts a plus sign.\<close>

definition u64_from_str :: "string \<Rightarrow> nat option" where
  "u64_from_str s = (case s of [] \<Rightarrow> None | c # rest \<Rightarrow> if c = CHR ''+'' then parse_u64 rest else parse_u64 s)"

definition trim_quotes :: "string \<Rightarrow> string" where
  "trim_quotes s =
     rev (dropWhile (\<lambda>c. c = CHR 0x22) (rev (dropWhile (\<lambda>c. c = CHR 0x22) s)))"

definition parse_cache_delta :: "string \<Rightarrow> nat option" where
  "parse_cache_delta value = u64_from_str (trim_quotes value)"

definition split_directive :: "string \<Rightarrow> string \<times> string option" where
  "split_directive directive =
     (case split_once CHR ''='' directive of
        None \<Rightarrow> (directive, None)
      | Some (name, value) \<Rightarrow> (trim name, Some (trim value)))"

definition apply_directive :: "string \<Rightarrow> parsed_cache_control \<Rightarrow> parsed_cache_control option" where
  "apply_directive directive parsed =
     (let (name, parameter) = split_directive directive;
          delta = (case parameter of None \<Rightarrow> None | Some v \<Rightarrow> parse_cache_delta v)
      in if eq_ignore_ascii_case name ''no-store'' then Some (parsed\<lparr>pc_no_store := True\<rparr>)
         else if eq_ignore_ascii_case name ''private'' then Some (parsed\<lparr>pc_private := True\<rparr>)
         else if eq_ignore_ascii_case name ''no-cache'' then Some (parsed\<lparr>pc_no_cache := True\<rparr>)
         else if eq_ignore_ascii_case name ''max-age''
         then map_option (\<lambda>d. parsed\<lparr>pc_max_age := Some d\<rparr>) delta
         else if eq_ignore_ascii_case name ''s-maxage''
         then map_option (\<lambda>d. parsed\<lparr>pc_shared_max_age := Some d\<rparr>) delta
         else if eq_ignore_ascii_case name ''stale-while-revalidate''
         then map_option (\<lambda>d. parsed\<lparr>pc_stale_while_revalidate := Some d\<rparr>) delta
         else if eq_ignore_ascii_case name ''stale-if-error''
         then map_option (\<lambda>d. parsed\<lparr>pc_stale_if_error := Some d\<rparr>) delta
         else Some parsed)"

fun apply_directives :: "string list \<Rightarrow> parsed_cache_control \<Rightarrow> parsed_cache_control option" where
  "apply_directives [] parsed = Some parsed"
| "apply_directives (d # ds) parsed =
     (case apply_directive d parsed of None \<Rightarrow> None | Some parsed \<Rightarrow> apply_directives ds parsed)"

definition parse_cache_control :: "http_header list \<Rightarrow> parsed_cache_control option" where
  "parse_cache_control headers =
     apply_directives (filter (\<lambda>d. d \<noteq> []) (header_entries ''cache-control'' headers)) parsed_cache_control_default"

text \<open>The value of a header that occurs exactly once.\<close>

definition header_value :: "http_header list \<Rightarrow> string \<Rightarrow> string option" where
  "header_value headers name =
     (case filter (has_name name) headers of [h] \<Rightarrow> Some (trim (hh_value h)) | _ \<Rightarrow> None)"

definition has_pragma_no_cache :: "http_header list \<Rightarrow> bool" where
  "has_pragma_no_cache headers \<longleftrightarrow>
     list_ex (\<lambda>h. has_name ''pragma'' h \<and> eq_ignore_ascii_case (hh_value h) ''no-cache'') headers"

definition duration_if_non_zero :: "nat \<Rightarrow> duration option" where
  "duration_if_non_zero seconds = (if seconds \<noteq> 0 then Some (secs seconds) else None)"

section \<open>Freshness\<close>

record cache_freshness_windows =
  fw_fresh_for :: duration
  fw_stale_while_revalidate_for :: "duration option"
  fw_stale_if_error_for :: "duration option"

definition unwrap_or :: "'a \<Rightarrow> 'a option \<Rightarrow> 'a" where
  "unwrap_or d x = (case x of None \<Rightarrow> d | Some v \<Rightarrow> v)"

text \<open>The number of seconds a response is fresh, before the upper bound of the policy.\<close>

definition origin_freshness_secs ::
  "(string \<Rightarrow> duration option) \<Rightarrow> http_cache_policy_config \<Rightarrow> http_header list \<Rightarrow> parsed_cache_control \<Rightarrow> nat \<Rightarrow> nat option" where
  "origin_freshness_secs parse_http_date policy headers directives age_secs =
     (case (case pc_shared_max_age directives of None \<Rightarrow> pc_max_age directives | Some a \<Rightarrow> Some a) of
        Some max_age \<Rightarrow> Some (max_age - age_secs)
      | None \<Rightarrow>
          (case header_value headers ''expires'' of
             None \<Rightarrow> Some (hp_default_ttl_secs policy)
           | Some expires_header \<Rightarrow>
               (case parse_http_date expires_header of
                  None \<Rightarrow> None
                | Some expiry \<Rightarrow>
                    (case header_value headers ''date'' of
                       None \<Rightarrow> Some (hp_default_ttl_secs policy)
                     | Some date_header \<Rightarrow>
                         (case parse_http_date date_header of
                            None \<Rightarrow> None
                          | Some origin_date \<Rightarrow> Some ((expiry - origin_date) div 1000000000 - age_secs))))))"

definition derive_freshness_windows_from_origin ::
  "(string \<Rightarrow> duration option) \<Rightarrow> http_cache_policy_config \<Rightarrow> http_header list \<Rightarrow> cache_freshness_windows option" where
  "derive_freshness_windows_from_origin parse_http_date policy headers =
     (case parse_cache_control headers of
        None \<Rightarrow> None
      | Some directives \<Rightarrow>
          if pc_no_store directives \<or> pc_private directives \<or> pc_no_cache directives \<or> has_pragma_no_cache headers
          then None
          else
            (case (case header_value headers ''age'' of None \<Rightarrow> Some 0 | Some v \<Rightarrow> u64_from_str v) of
               None \<Rightarrow> None
             | Some age_secs \<Rightarrow>
                 (case origin_freshness_secs parse_http_date policy headers directives age_secs of
                    None \<Rightarrow> None
                  | Some freshness_secs \<Rightarrow>
                      Some \<lparr>fw_fresh_for = secs (min freshness_secs (hp_max_ttl_secs policy)),
                            fw_stale_while_revalidate_for = duration_if_non_zero
                              (min (unwrap_or (hp_stale_while_revalidate_secs policy) (pc_stale_while_revalidate directives))
                                (hp_stale_while_revalidate_secs policy)),
                            fw_stale_if_error_for = duration_if_non_zero
                              (min (unwrap_or (hp_stale_if_error_secs policy) (pc_stale_if_error directives))
                                (hp_stale_if_error_secs policy))\<rparr>)))"

definition response_header_value :: "(string \<Rightarrow> bool) \<Rightarrow> http_header list \<Rightarrow> string \<Rightarrow> string option" where
  "response_header_value value_ok headers name =
     (case find (has_name name) headers of
        None \<Rightarrow> None
      | Some h \<Rightarrow> if value_ok (hh_value h) then Some (hh_value h) else None)"

definition add_window :: "duration \<Rightarrow> duration option \<Rightarrow> (duration option, runtime_panic) result" where
  "add_window fresh_until window =
     (case window of None \<Rightarrow> Ok None | Some w \<Rightarrow> and_then (dur_add fresh_until w) (\<lambda>d. Ok (Some d)))"

definition derive_cache_metadata ::
  "(string \<Rightarrow> duration option) \<Rightarrow> (string \<Rightarrow> bool) \<Rightarrow> http_cache_policy_config \<Rightarrow> http_header list \<Rightarrow> nat \<Rightarrow> duration \<Rightarrow>
     (http_cache_metadata option, runtime_panic) result" where
  "derive_cache_metadata parse_http_date value_ok policy headers status now =
     (case (if hp_honor_cache_control policy
            then derive_freshness_windows_from_origin parse_http_date policy headers
            else Some \<lparr>fw_fresh_for = secs (hp_default_ttl_secs policy),
                       fw_stale_while_revalidate_for = duration_if_non_zero (hp_stale_while_revalidate_secs policy),
                       fw_stale_if_error_for = duration_if_non_zero (hp_stale_if_error_secs policy)\<rparr>) of
        None \<Rightarrow> Ok None
      | Some w \<Rightarrow>
          if fw_fresh_for w = 0 \<and> fw_stale_while_revalidate_for w = None \<and> fw_stale_if_error_for w = None then Ok None
          else
            and_then (dur_add now (fw_fresh_for w)) (\<lambda>fresh_until.
            and_then (add_window fresh_until (fw_stale_while_revalidate_for w)) (\<lambda>swr.
            and_then (add_window fresh_until (fw_stale_if_error_for w)) (\<lambda>sie.
              Ok (Some \<lparr>cm_status = status, cm_stored_at = now, cm_fresh_until = fresh_until,
                        cm_stale_while_revalidate_until = swr, cm_stale_if_error_until = sie,
                        cm_etag = response_header_value value_ok headers ''etag'',
                        cm_last_modified = response_header_value value_ok headers ''last-modified''\<rparr>)))))"

section \<open>Revalidation\<close>

definition should_revalidate_entry :: "http_cache_policy_config \<Rightarrow> http_cache_entry \<Rightarrow> bool" where
  "should_revalidate_entry policy entry \<longleftrightarrow>
     hp_revalidation_enabled policy \<and> (cm_etag (ce_metadata entry) \<noteq> None \<or> cm_last_modified (ce_metadata entry) \<noteq> None)"

definition conditional_header :: "(string \<Rightarrow> bool) \<Rightarrow> string \<Rightarrow> string option \<Rightarrow> http_header list" where
  "conditional_header to_str_ok name value =
     (case value of None \<Rightarrow> [] | Some v \<Rightarrow> if to_str_ok v then [header name v] else [])"

definition append_conditional_revalidation_headers ::
  "(string \<Rightarrow> bool) \<Rightarrow> http_header list \<Rightarrow> http_cache_entry option \<Rightarrow> http_header list" where
  "append_conditional_revalidation_headers to_str_ok headers revalidation_entry =
     (case revalidation_entry of
        None \<Rightarrow> headers
      | Some e \<Rightarrow> headers @ conditional_header to_str_ok ''if-none-match'' (cm_etag (ce_metadata e)) @
          conditional_header to_str_ok ''if-modified-since'' (cm_last_modified (ce_metadata e)))"

definition or_else :: "'a option \<Rightarrow> 'a option \<Rightarrow> 'a option" where
  "or_else x y = (case x of None \<Rightarrow> y | Some v \<Rightarrow> Some v)"

definition refresh_revalidated_entry ::
  "(string \<Rightarrow> duration option) \<Rightarrow> (string \<Rightarrow> bool) \<Rightarrow> http_cache_policy_config option \<Rightarrow> http_cache_entry \<Rightarrow>
     http_header list \<Rightarrow> duration \<Rightarrow> (http_cache_entry option, runtime_panic) result" where
  "refresh_revalidated_entry parse_http_date value_ok policy stale_entry response_headers now =
     (case policy of
        None \<Rightarrow> Ok None
      | Some policy \<Rightarrow>
          and_then (derive_cache_metadata parse_http_date value_ok policy response_headers
                     (cm_status (ce_metadata stale_entry)) now) (\<lambda>metadata.
            Ok (map_option (\<lambda>m. stale_entry\<lparr>ce_metadata := m\<lparr>
                  cm_etag := or_else (cm_etag m) (cm_etag (ce_metadata stale_entry)),
                  cm_last_modified := or_else (cm_last_modified m) (cm_last_modified (ce_metadata stale_entry))\<rparr>\<rparr>) metadata)))"

definition is_stale_if_error_response_status :: "nat \<Rightarrow> bool" where
  "is_stale_if_error_response_status status \<longleftrightarrow> 500 \<le> status \<and> status \<le> 599"

fun error_allows_stale_if_error :: "'e http1_proxy_error \<Rightarrow> bool" where
  "error_allows_stale_if_error (ConnectTimeout _) = True"
| "error_allows_stale_if_error (Connect _ _) = True"
| "error_allows_stale_if_error (ParseResponse _) = True"
| "error_allows_stale_if_error (RequestIo _) = True"
| "error_allows_stale_if_error UpstreamGracefulDrain = True"
| "error_allows_stale_if_error (IdleTimeout stage) = (stage = ''request body'' \<or> stage = ''response head'')"
| "error_allows_stale_if_error _ = False"

fun to_cache_headers :: "(string \<Rightarrow> string option) \<Rightarrow> (string \<Rightarrow> bool) \<Rightarrow> http_header list \<Rightarrow> http_cache_header list option" where
  "to_cache_headers parse_name value_ok [] = Some []"
| "to_cache_headers parse_name value_ok (h # hs) =
     (case parse_name (hh_name h) of
        None \<Rightarrow> None
      | Some name \<Rightarrow>
          if value_ok (hh_value h)
          then map_option (\<lambda>rest. \<lparr>ch_name = name, ch_value = hh_value h\<rparr> # rest) (to_cache_headers parse_name value_ok hs)
          else None)"

section \<open>What is stored, and for how long\<close>

text \<open>A directive of a \<open>Cache-Control\<close> header.\<close>

definition has_directive :: "string \<Rightarrow> http_header list \<Rightarrow> bool" where
  "has_directive name headers \<longleftrightarrow>
     (\<exists>d\<in>set (header_entries ''cache-control'' headers). eq_ignore_ascii_case (fst (split_directive d)) name)"

definition refuses_storage :: "parsed_cache_control \<Rightarrow> bool" where
  "refuses_storage c \<longleftrightarrow> pc_no_store c \<or> pc_private c \<or> pc_no_cache c"

lemma apply_directive_keeps: "apply_directive d c = Some c' \<Longrightarrow> refuses_storage c \<Longrightarrow> refuses_storage c'"
  by (auto simp: apply_directive_def refuses_storage_def Let_def split: prod.splits if_splits)

lemma apply_directives_keeps: "apply_directives ds c = Some c' \<Longrightarrow> refuses_storage c \<Longrightarrow> refuses_storage c'"
  by (induction ds arbitrary: c) (auto split: option.splits dest: apply_directive_keeps)

lemma apply_directives_refuses:
  "apply_directives ds c = Some c' \<Longrightarrow> d \<in> set ds \<Longrightarrow> eq_ignore_ascii_case (fst (split_directive d)) name \<Longrightarrow>
     name \<in> {''no-store'', ''private'', ''no-cache''} \<Longrightarrow> refuses_storage c'"
proof (induction ds arbitrary: c)
  case (Cons e ds)
  obtain c1 where c1: "apply_directive e c = Some c1" "apply_directives ds c1 = Some c'"
    using Cons.prems(1) by (auto split: option.splits)
  show ?case
  proof (cases "d = e")
    case True
    then have "refuses_storage c1"
      using c1(1) Cons.prems(3,4)
      by (auto simp: apply_directive_def refuses_storage_def Let_def split: prod.splits if_splits)
    with c1(2) show ?thesis by (rule apply_directives_keeps)
  next
    case False
    with Cons c1(2) show ?thesis by simp
  qed
qed simp

lemma refused_directive_windows:
  assumes "has_directive name headers" "name \<in> {''no-store'', ''private'', ''no-cache''}"
  shows "derive_freshness_windows_from_origin parse_http_date policy headers = None"
proof (cases "parse_cache_control headers")
  case (Some c)
  obtain d where d: "d \<in> set (header_entries ''cache-control'' headers)" "eq_ignore_ascii_case (fst (split_directive d)) name"
    using assms(1) by (auto simp: has_directive_def)
  have "d \<noteq> []"
  proof
    assume "d = []"
    then have "fst (split_directive d) = []" by (simp add: split_directive_def split_once_def)
    with d(2) assms(2) show False by (auto simp: eq_ignore_ascii_case_def to_ascii_lowercase_map)
  qed
  with d have "refuses_storage c"
    using apply_directives_refuses [OF Some [unfolded parse_cache_control_def] _ _ assms(2), of d] by simp
  with Some show ?thesis by (auto simp: derive_freshness_windows_from_origin_def refuses_storage_def)
qed (simp add: derive_freshness_windows_from_origin_def)

text \<open>
  C21. A response that its origin forbids to share is never stored: under a policy that honours
  cache directives, no metadata is derived for a response with one of the directives \<open>no-store\<close>,
  \<open>private\<close> and \<open>no-cache\<close>, in any header, position and case and with or without an argument, nor
  for one with \<open>Pragma: no-cache\<close>; and a revalidation with such an answer refreshes nothing.
\<close>

theorem forbidden_response_not_stored:
  assumes "hp_honor_cache_control policy"
    and "has_directive ''no-store'' headers \<or> has_directive ''private'' headers \<or> has_directive ''no-cache'' headers \<or>
      has_pragma_no_cache headers"
  shows "derive_cache_metadata parse_http_date value_ok policy headers status now = Ok None \<and>
    refresh_revalidated_entry parse_http_date value_ok (Some policy) entry headers now = Ok None"
proof -
  have "derive_freshness_windows_from_origin parse_http_date policy headers = None"
  proof (cases "has_pragma_no_cache headers")
    case True
    then show ?thesis by (simp add: derive_freshness_windows_from_origin_def split: option.split)
  next
    case False
    then show ?thesis using assms(2) by (elim disjE) (auto intro: refused_directive_windows)
  qed
  then show ?thesis using assms(1) by (simp add: derive_cache_metadata_def refresh_revalidated_entry_def)
qed

definition sample_private_headers :: "http_header list" where
  "sample_private_headers = [header ''Cache-Control'' ''max-age=60'', header ''cache-control'' ''public, Private=x'']"

theorem forbidden_response_not_stored_witness:
  "derive_cache_metadata (\<lambda>_. None) (\<lambda>_. True) http_cache_policy_default sample_private_headers 200 (secs 5) = Ok None \<and>
   derive_cache_metadata (\<lambda>_. None) (\<lambda>_. True) http_cache_policy_default (take 1 sample_private_headers) 200 (secs 5) \<noteq> Ok None"
proof
  have "hp_honor_cache_control http_cache_policy_default" by code_simp
  moreover have "list_ex (\<lambda>d. eq_ignore_ascii_case (fst (split_directive d)) ''private'') (header_entries ''cache-control'' sample_private_headers)"
    by code_simp
  then have "has_directive ''private'' sample_private_headers" by (simp add: has_directive_def list_ex_iff)
  ultimately show "derive_cache_metadata (\<lambda>_. None) (\<lambda>_. True) http_cache_policy_default sample_private_headers 200 (secs 5) = Ok None"
    using forbidden_response_not_stored by blast
  show "derive_cache_metadata (\<lambda>_. None) (\<lambda>_. True) http_cache_policy_default (take 1 sample_private_headers) 200 (secs 5) \<noteq> Ok None"
    by code_simp
qed

text \<open>The windows that lead to stored metadata.\<close>

definition policy_windows ::
  "(string \<Rightarrow> duration option) \<Rightarrow> http_cache_policy_config \<Rightarrow> http_header list \<Rightarrow> cache_freshness_windows option" where
  "policy_windows parse_http_date policy headers =
     (if hp_honor_cache_control policy
      then derive_freshness_windows_from_origin parse_http_date policy headers
      else Some \<lparr>fw_fresh_for = secs (hp_default_ttl_secs policy),
                 fw_stale_while_revalidate_for = duration_if_non_zero (hp_stale_while_revalidate_secs policy),
                 fw_stale_if_error_for = duration_if_non_zero (hp_stale_if_error_secs policy)\<rparr>)"

definition window_within :: "nat \<Rightarrow> duration option \<Rightarrow> bool" where
  "window_within limit w \<longleftrightarrow> (case w of None \<Rightarrow> True | Some d \<Rightarrow> 0 < d \<and> d \<le> secs limit)"

lemma window_within_min: "window_within limit (duration_if_non_zero (min n limit))"
  "window_within limit (duration_if_non_zero limit)"
  by (simp_all add: window_within_def duration_if_non_zero_def secs_def)

definition ttl_limit :: "http_cache_policy_config \<Rightarrow> nat" where
  "ttl_limit policy = (if hp_honor_cache_control policy then hp_max_ttl_secs policy else hp_default_ttl_secs policy)"

lemma policy_windows_within:
  assumes "policy_windows parse_http_date policy headers = Some w"
  shows "fw_fresh_for w \<le> secs (ttl_limit policy)"
    "window_within (hp_stale_while_revalidate_secs policy) (fw_stale_while_revalidate_for w)"
    "window_within (hp_stale_if_error_secs policy) (fw_stale_if_error_for w)"
  using assms
  by (auto simp: policy_windows_def ttl_limit_def derive_freshness_windows_from_origin_def secs_def window_within_min
      split: if_splits option.splits)

lemma derive_cache_metadata_Some:
  assumes "derive_cache_metadata parse_http_date value_ok policy headers status now = Ok (Some m)"
  obtains w where "policy_windows parse_http_date policy headers = Some w"
    "cm_status m = status" "cm_stored_at m = now" "cm_fresh_until m = now + fw_fresh_for w"
    "cm_stale_while_revalidate_until m = map_option (\<lambda>d. cm_fresh_until m + d) (fw_stale_while_revalidate_for w)"
    "cm_stale_if_error_until m = map_option (\<lambda>d. cm_fresh_until m + d) (fw_stale_if_error_for w)"
    "0 < fw_fresh_for w \<or> fw_stale_while_revalidate_for w \<noteq> None \<or> fw_stale_if_error_for w \<noteq> None"
proof (cases "policy_windows parse_http_date policy headers")
  case None
  with assms show thesis by (simp add: derive_cache_metadata_def policy_windows_def)
next
  case (Some w)
  then have "derive_cache_metadata parse_http_date value_ok policy headers status now =
    (if fw_fresh_for w = 0 \<and> fw_stale_while_revalidate_for w = None \<and> fw_stale_if_error_for w = None then Ok None
     else and_then (dur_add now (fw_fresh_for w)) (\<lambda>fresh_until.
            and_then (add_window fresh_until (fw_stale_while_revalidate_for w)) (\<lambda>swr.
            and_then (add_window fresh_until (fw_stale_if_error_for w)) (\<lambda>sie.
              Ok (Some \<lparr>cm_status = status, cm_stored_at = now, cm_fresh_until = fresh_until,
                        cm_stale_while_revalidate_until = swr, cm_stale_if_error_until = sie,
                        cm_etag = response_header_value value_ok headers ''etag'',
                        cm_last_modified = response_header_value value_ok headers ''last-modified''\<rparr>)))))"
    unfolding derive_cache_metadata_def policy_windows_def by simp
  with assms have "(0 < fw_fresh_for w \<or> fw_stale_while_revalidate_for w \<noteq> None \<or> fw_stale_if_error_for w \<noteq> None) \<and>
    cm_status m = status \<and> cm_stored_at m = now \<and> cm_fresh_until m = now + fw_fresh_for w \<and>
    cm_stale_while_revalidate_until m = map_option (\<lambda>d. cm_fresh_until m + d) (fw_stale_while_revalidate_for w) \<and>
    cm_stale_if_error_until m = map_option (\<lambda>d. cm_fresh_until m + d) (fw_stale_if_error_for w)"
    by (auto simp: and_then_eq_Ok dur_add_def add_window_def split: if_splits option.splits)
  with Some show thesis by (intro that) auto
qed

lemma valid_metadata_freshness:
  "metadata_validate m = Ok () \<Longrightarrow> freshness m t \<noteq> None \<longleftrightarrow> t < expires_at m"
  by (auto simp: metadata_validate_def freshness_def expires_at_def is_fresh_def allows_stale_while_revalidate_def
      allows_stale_if_error_def before_deadline_def split: if_splits option.splits)

text \<open>
  The lifetime of a stored response is within the policy: metadata that is derived for a response
  is valid, so that the store accepts it; the response is fresh for at most the largest lifetime of the
  policy (exactly the default lifetime if cache directives are not honoured), and afterwards it is
  served stale, while it is revalidated or while the upstream fails, for at most the two windows of
  the policy; it can be served at all from the time it is stored until its expiry and not after.
\<close>

lemma stored_response_lifetime:
  assumes "derive_cache_metadata parse_http_date value_ok policy headers status now = Ok (Some m)"
  shows "metadata_validate m = Ok () \<and> now < expires_at m \<and> (\<forall>t. freshness m t \<noteq> None \<longleftrightarrow> t < expires_at m) \<and>
    (\<forall>t. freshness m t = Some Fresh \<longrightarrow> t < now + secs (ttl_limit policy)) \<and>
    (\<forall>t. freshness m t = Some StaleWhileRevalidate \<longrightarrow>
       t < now + secs (ttl_limit policy) + secs (hp_stale_while_revalidate_secs policy)) \<and>
    (\<forall>t. freshness m t = Some StaleIfError \<longrightarrow>
       t < now + secs (ttl_limit policy) + secs (hp_stale_if_error_secs policy))"
proof -
  obtain w where w: "policy_windows parse_http_date policy headers = Some w"
    "cm_stored_at m = now" "cm_fresh_until m = now + fw_fresh_for w"
    "cm_stale_while_revalidate_until m = map_option (\<lambda>d. cm_fresh_until m + d) (fw_stale_while_revalidate_for w)"
    "cm_stale_if_error_until m = map_option (\<lambda>d. cm_fresh_until m + d) (fw_stale_if_error_for w)"
    "0 < fw_fresh_for w \<or> fw_stale_while_revalidate_for w \<noteq> None \<or> fw_stale_if_error_for w \<noteq> None"
    by (rule derive_cache_metadata_Some [OF assms]) blast
  note within = policy_windows_within [OF w(1)]
  have valid: "metadata_validate m = Ok ()" using w(2-5) by (simp add: metadata_validate_def split: option.split)
  moreover have "now < expires_at m"
    using w(3-6) within(2,3) by (auto simp: expires_at_def window_within_def split: option.splits)
  moreover have "t < now + secs (ttl_limit policy)" if "freshness m t = Some Fresh" for t
    using that w(3) within(1) by (auto simp: freshness_def is_fresh_def split: if_splits)
  moreover have "t < now + secs (ttl_limit policy) + secs (hp_stale_while_revalidate_secs policy)"
    if "freshness m t = Some StaleWhileRevalidate" for t
    using that w(3,4) within(1,2)
    by (auto simp: freshness_def allows_stale_while_revalidate_def before_deadline_def window_within_def split: if_splits option.splits)
  moreover have "t < now + secs (ttl_limit policy) + secs (hp_stale_if_error_secs policy)"
    if "freshness m t = Some StaleIfError" for t
    using that w(3,5) within(1,3)
    by (auto simp: freshness_def allows_stale_if_error_def before_deadline_def window_within_def split: if_splits option.splits)
  ultimately show ?thesis using valid_metadata_freshness [OF valid] by blast
qed

text \<open>
  Without an upper bound for the lifetimes, which the validator of configurations does not demand, the
  origin makes the addition of durations panic.
\<close>

lemma lifetime_overflow_panics:
  "derive_cache_metadata (\<lambda>_. None) (\<lambda>_. True) (http_cache_policy_default\<lparr>hp_max_ttl_secs := 18446744073709551615\<rparr>)
     [header ''cache-control'' ''max-age=18446744073709551615''] 200 (secs 1) = Err DurationOverflow"
  by code_simp

text \<open>A response that expired long ago is stored with the default lifetime if it has no date.\<close>

lemma expired_without_date_stored:
  "derive_freshness_windows_from_origin (\<lambda>_. Some 0) http_cache_policy_default [header ''expires'' ''Thu, 01 Jan 1970 00:00:00 GMT''] =
     Some \<lparr>fw_fresh_for = secs 60, fw_stale_while_revalidate_for = Some (secs 30), fw_stale_if_error_for = Some (secs 60)\<rparr>"
  by code_simp

text \<open>The directive \<open>must-revalidate\<close> does not shorten the windows in which a stale response is served.\<close>

lemma must_revalidate_ignored:
  "derive_freshness_windows_from_origin (\<lambda>_. None) http_cache_policy_default [header ''cache-control'' ''max-age=1, must-revalidate''] =
     Some \<lparr>fw_fresh_for = secs 1, fw_stale_while_revalidate_for = Some (secs 30), fw_stale_if_error_for = Some (secs 60)\<rparr>"
  by code_simp

end
