(* ===== verification/Ip_Parse.thy ===== *)
theory Ip_Parse
  imports Text_Ops
begin

text \<open>
  The parser of the Rust standard library for IP addresses (\<open>IpAddr::from_str\<close>) and the
  lemma that it reads back what \<open>Display\<close> writes. A reader takes the rest of the input and
  returns what it read with what is left; a reader that fails leaves the input as it was.
\<close>

section \<open>Readers\<close>

type_synonym 'a reader = "string \<Rightarrow> ('a \<times> string) option"

definition to_digit :: "nat \<Rightarrow> char \<Rightarrow> nat option" where
  "to_digit radix c =
     (let d = (if is_ascii_digit c then byte c - 48
               else if 97 \<le> byte c \<and> byte c \<le> 122 then byte c - 87
               else if 65 \<le> byte c \<and> byte c \<le> 90 then byte c - 55 else radix)
      in if d < radix then Some d else None)"

fun read_digits :: "nat \<Rightarrow> nat \<Rightarrow> nat \<Rightarrow> nat \<Rightarrow> string \<Rightarrow> (nat \<times> nat \<times> string) option" where
  "read_digits radix max_digits n v [] = Some (v, n, [])"
| "read_digits radix max_digits n v (c # s) =
     (case to_digit radix c of
        None \<Rightarrow> Some (v, n, c # s)
      | Some d \<Rightarrow>
          if n + 1 > max_digits then None
          else read_digits radix max_digits (n + 1) (v * radix + d) s)"

definition read_number :: "nat \<Rightarrow> nat \<Rightarrow> nat \<Rightarrow> bool \<Rightarrow> nat reader" where
  "read_number radix max_digits bound allow_zero_prefix s =
     (case read_digits radix max_digits 0 0 s of
        None \<Rightarrow> None
      | Some (v, n, rest) \<Rightarrow>
          if v > bound \<or> n = 0 then None
          else if \<not> allow_zero_prefix \<and> prefix ''0'' s \<and> n > 1 then None
          else Some (v, rest))"

definition read_separator :: "char \<Rightarrow> nat \<Rightarrow> 'a reader \<Rightarrow> 'a reader" where
  "read_separator sep i rd s =
     (if i > 0 then (case s of [] \<Rightarrow> None | c # rest \<Rightarrow> if c = sep then rd rest else None)
      else rd s)"

fun read_octets :: "nat \<Rightarrow> nat \<Rightarrow> nat list reader" where
  "read_octets i 0 s = Some ([], s)"
| "read_octets i (Suc k) s =
     (case read_separator CHR ''.'' i (read_number 10 3 255 False) s of
        None \<Rightarrow> None
      | Some (d, rest) \<Rightarrow> map_option (\<lambda>(ds, r). (d # ds, r)) (read_octets (i + 1) k rest))"

definition read_ipv4_addr :: "nat list reader" where
  "read_ipv4_addr s = read_octets 0 4 s"

text \<open>
  The groups of a version 6 address: an embedded version 4 address takes the place of two
  groups and ends the list, so it is only tried where two groups are left.
\<close>

fun read_groups :: "nat \<Rightarrow> nat \<Rightarrow> string \<Rightarrow> nat list \<times> bool \<times> string" where
  "read_groups i 0 s = ([], False, s)"
| "read_groups i (Suc k) s =
     (case (if k > 0 then read_separator CHR '':'' i read_ipv4_addr s else None) of
        Some (os, rest) \<Rightarrow> ([os ! 0 * 256 + os ! 1, os ! 2 * 256 + os ! 3], True, rest)
      | None \<Rightarrow>
          (case read_separator CHR '':'' i (read_number 16 4 65535 True) s of
             None \<Rightarrow> ([], False, s)
           | Some (g, rest) \<Rightarrow>
               (case read_groups (i + 1) k rest of (gs, v4, r) \<Rightarrow> (g # gs, v4, r))))"

definition read_ipv6_addr :: "nat list reader" where
  "read_ipv6_addr s =
     (case read_groups 0 8 s of
        (hd_groups, hd_ipv4, rest) \<Rightarrow>
          if length hd_groups = 8 then Some (hd_groups, rest)
          else if hd_ipv4 \<or> \<not> prefix ''::'' rest then None
          else (case read_groups 0 (8 - (length hd_groups + 1)) (drop 2 rest) of
                  (tl_groups, _, rest') \<Rightarrow>
                    Some (hd_groups @ replicate (8 - length hd_groups - length tl_groups) 0 @ tl_groups,
                      rest')))"

definition read_ip_addr :: "ip_addr reader" where
  "read_ip_addr s =
     (case read_ipv4_addr s of
        Some (os, rest) \<Rightarrow> Some (V4 (word_of_nat (undigits 256 os)), rest)
      | None \<Rightarrow> map_option (\<lambda>(gs, rest). (V6 (ipv6_new gs), rest)) (read_ipv6_addr s))"

definition parse_ip :: "string \<Rightarrow> ip_addr option" where
  "parse_ip s = (case read_ip_addr s of Some (ip, []) \<Rightarrow> Some ip | _ \<Rightarrow> None)"

section \<open>Reading numerals back\<close>

lemma to_digit_char: "d < radix \<Longrightarrow> radix \<le> 36 \<Longrightarrow> to_digit radix (digit_char d) = Some d"
  by (auto simp: to_digit_def digit_char_def is_ascii_digit_def byte_char_of Let_def)

definition stops :: "nat \<Rightarrow> string \<Rightarrow> bool" where
  "stops radix s \<longleftrightarrow> (case s of [] \<Rightarrow> True | c # _ \<Rightarrow> to_digit radix c = None)"

lemma read_digits_stop: "stops radix s \<Longrightarrow> read_digits radix m n v s = Some (v, n, s)"
  by (cases s) (simp_all add: stops_def)

lemma read_digits_append:
  "list_all (\<lambda>c. to_digit radix c \<noteq> None) t \<Longrightarrow> n + length t \<le> m \<Longrightarrow>
   read_digits radix m n v (t @ s) =
   read_digits radix m (n + length t) (foldl (\<lambda>v c. v * radix + the (to_digit radix c)) v t) s"
  by (induction t arbitrary: n v) auto

lemma show_radix_digits:
  assumes "2 \<le> radix" "radix \<le> 36"
  shows "list_all (\<lambda>c. to_digit radix c \<noteq> None) (show_radix radix n) \<and>
    foldl (\<lambda>v c. v * radix + the (to_digit radix c)) 0 (show_radix radix n) = n"
proof (induction n rule: less_induct)
  case (less n)
  have "n mod radix < radix" using assms by simp
  moreover have "n div radix < n" if "\<not> n < radix" using that assms by simp
  ultimately show ?case
    using less assms by (subst (1 2) show_radix.simps) (auto simp: to_digit_char)
qed

lemma show_radix_digit_count: "2 \<le> radix \<Longrightarrow> n < radix ^ Suc k \<Longrightarrow> length (show_radix radix n) \<le> Suc k"
proof (induction k arbitrary: n)
  case 0
  then show ?case by (subst show_radix.simps) simp
next
  case (Suc k)
  then have "n div radix < radix ^ Suc k" by (simp add: less_mult_imp_div_less mult.commute)
  with Suc show ?case by (subst show_radix.simps) auto
qed

lemma show_radix_zero:
  assumes "2 \<le> radix" "radix \<le> 36" "prefix ''0'' (show_radix radix n @ s)"
  shows "n = 0"
  using assms(3)
proof (induction n arbitrary: s rule: less_induct)
  case (less n)
  show ?case
  proof (cases "n < radix")
    case True
    have "CHR ''0'' = digit_char 0" by code_simp
    with True have "digit_char n = digit_char 0"
      using less.prems by (simp add: show_radix.simps [of radix n])
    with True assms(1,2) show ?thesis by (simp add: digit_char_inj)
  next
    case False
    then have "n div radix = 0"
      using less assms(1) by (auto simp: show_radix.simps [of radix n])
    with False assms(1) show ?thesis by (simp add: div_eq_0_iff)
  qed
qed

lemma read_number_show:
  assumes "2 \<le> radix" "radix \<le> 36" "n < radix ^ Suc k" "n \<le> bound" "stops radix s"
  shows "read_number radix (Suc k) bound z (show_radix radix n @ s) = Some (n, s)"
proof -
  have d: "list_all (\<lambda>c. to_digit radix c \<noteq> None) (show_radix radix n)"
    "foldl (\<lambda>v c. v * radix + the (to_digit radix c)) 0 (show_radix radix n) = n"
    using show_radix_digits [OF assms(1,2)] by auto
  have l: "length (show_radix radix n) \<le> Suc k" by (rule show_radix_digit_count [OF assms(1,3)])
  have "read_digits radix (Suc k) 0 0 (show_radix radix n @ s) = Some (n, length (show_radix radix n), s)"
    using read_digits_append [OF d(1), of 0 "Suc k" 0 s] l d(2) read_digits_stop [OF assms(5)] by simp
  moreover have "length (show_radix radix n) = 1" if "prefix ''0'' (show_radix radix n @ s)"
    using show_radix_zero [OF assms(1,2) that] assms(1) by (subst show_radix.simps) simp
  ultimately show ?thesis using assms(4) by (auto simp: read_number_def)
qed

lemma read_number_stops: "stops radix s \<Longrightarrow> read_number radix m bound z s = None"
  by (simp add: read_number_def read_digits_stop)

lemma stops_simps [simp]:
  "stops radix []" "stops 10 (CHR ''.'' # s)" "stops 10 (CHR '':'' # s)" "stops 16 (CHR '':'' # s)"
  by (simp_all add: stops_def to_digit_def is_ascii_digit_def byte_def)

section \<open>Reading version 4 addresses back\<close>

lemma read_octets_join:
  assumes "\<forall>d\<in>set (d # ds). d < 256" "stops 10 s"
  shows "read_octets 0 (length (d # ds)) (join CHR ''.'' (map show_nat (d # ds)) @ s) = Some (d # ds, s)"
proof -
  have num: "read_number 10 3 255 False (show_nat e @ t) = Some (e, t)" if "e < 256" "stops 10 t" for e t
    using read_number_show [of 10 e 2 255 t False] that by (simp add: show_nat_radix numeral_3_eq_3)
  have tail: "read_octets (Suc i) (length es) (concat (map (\<lambda>e. CHR ''.'' # show_nat e) es) @ s) = Some (es, s)"
    if "\<forall>e\<in>set es. e < 256" for es i
    using that
  proof (induction es arbitrary: i)
    case (Cons e es)
    have "stops 10 (concat (map (\<lambda>e. CHR ''.'' # show_nat e) es) @ s)"
      using assms(2) by (cases es) simp_all
    with Cons num show ?case by (simp add: read_separator_def)
  qed simp
  have "join CHR ''.'' (map show_nat (e # es)) = show_nat e @ concat (map (\<lambda>e. CHR ''.'' # show_nat e) es)" for e es
    by (induction es arbitrary: e) simp_all
  moreover have "stops 10 (concat (map (\<lambda>e. CHR ''.'' # show_nat e) ds) @ s)"
    using assms(2) by (cases ds) simp_all
  ultimately show ?thesis
    using assms(1) num tail [of ds 0] by (simp add: read_separator_def)
qed

lemma octets_less: "\<forall>d\<in>set (octets a). d < 256"
proof -
  have "\<forall>d\<in>set (digits 256 k n). d < 256" for k n by (induction k arbitrary: n) simp_all
  then show ?thesis by (simp add: octets_def)
qed

lemma read_ipv4_show:
  assumes "stops 10 s"
  shows "read_ipv4_addr (ipv4_show a @ s) = Some (octets a, s)"
proof -
  have "length (octets a) = 4" by (simp add: octets_def)
  then obtain d ds where e: "octets a = d # ds" by (cases "octets a") auto
  with \<open>length (octets a) = 4\<close> have l: "length (d # ds) = 4" by simp
  have "\<forall>x\<in>set (d # ds). x < 256" using octets_less [of a] e by simp
  then show ?thesis
    unfolding ipv4_show_def read_ipv4_addr_def e
    by (rule read_octets_join [of d ds s, unfolded l]) (rule assms)
qed

section \<open>Reading version 6 addresses back\<close>

lemma read_digits_rest: "read_digits radix m n v s = Some (w, k, rest) \<Longrightarrow> set rest \<subseteq> set s"
  by (induction s arbitrary: n v) (auto split: option.splits if_splits)

lemma read_ipv4_dot:
  assumes "CHR ''.'' \<notin> set s"
  shows "read_separator CHR '':'' i read_ipv4_addr s = None"
proof -
  have dot: "read_ipv4_addr t = None" if "CHR ''.'' \<notin> set t" for t
  proof (cases "read_number 10 3 255 False t")
    case (Some x)
    then obtain d rest where x: "read_number 10 3 255 False t = Some (d, rest)" by (cases x) auto
    then obtain n where "read_digits 10 3 0 0 t = Some (d, n, rest)"
      by (auto simp: read_number_def split: option.splits if_splits)
    then have "set rest \<subseteq> set t" by (rule read_digits_rest)
    with that have "CHR ''.'' \<notin> set rest" by auto
    then have "read_separator CHR ''.'' 1 (read_number 10 3 255 False) rest = None"
      by (cases rest) (auto simp: read_separator_def)
    then show ?thesis
      using x by (simp add: read_ipv4_addr_def eval_nat_numeral read_separator_def)
  qed (simp add: read_ipv4_addr_def eval_nat_numeral read_separator_def)
  show ?thesis
    using assms by (cases s) (auto simp: read_separator_def dot)
qed

definition closes :: "string \<Rightarrow> bool" where
  "closes s \<longleftrightarrow> CHR ''.'' \<notin> set s \<and> (s = [] \<or> prefix ''::'' s)"

definition group_tail :: "nat list \<Rightarrow> string" where
  "group_tail gs = concat (map (\<lambda>g. CHR '':'' # show_hex g) gs)"

lemma show_hex_dot: "CHR ''.'' \<notin> set (show_hex g)"
  using show_radix_alnum [of 16 g] alnum_not_sep by (auto simp: show_hex_def)

lemma group_tail_dot: "CHR ''.'' \<notin> set (group_tail gs)"
  using show_hex_dot by (auto simp: group_tail_def)

lemma closes_stops: "closes s \<Longrightarrow> stops 16 (group_tail gs @ s)"
  by (cases gs) (auto simp: closes_def group_tail_def prefix_def)

lemma read_group_show:
  "g < 65536 \<Longrightarrow> closes s \<Longrightarrow>
   read_number 16 4 65535 True (show_hex g @ group_tail gs @ s) = Some (g, group_tail gs @ s)"
  using read_number_show [of 16 g 3 65535 "group_tail gs @ s" True] closes_stops [of s gs]
  by (simp add: show_hex_def)

lemma read_groups_closes: "closes s \<Longrightarrow> read_groups i k s = ([], False, s)"
proof (cases k)
  case (Suc k')
  assume c: "closes s"
  have "read_separator CHR '':'' i read_ipv4_addr s = None"
    using c by (intro read_ipv4_dot) (simp add: closes_def)
  moreover have "read_separator CHR '':'' i (read_number 16 4 65535 True) s = None"
    using c by (auto simp: closes_def prefix_def read_separator_def read_number_stops)
  ultimately show ?thesis using Suc by simp
qed simp

lemma read_groups_tail:
  "\<forall>g\<in>set gs. g < 65536 \<Longrightarrow> length gs \<le> k \<Longrightarrow> closes s \<Longrightarrow>
   read_groups (Suc i) k (group_tail gs @ s) = (gs, False, s)"
proof (induction gs arbitrary: i k)
  case Nil
  then show ?case by (simp add: group_tail_def read_groups_closes)
next
  case (Cons g gs)
  then obtain k' where k: "k = Suc k'" by (cases k) auto
  have t: "group_tail (g # gs) = CHR '':'' # show_hex g @ group_tail gs" by (simp add: group_tail_def)
  have "CHR ''.'' \<notin> set (group_tail (g # gs) @ s)"
    using Cons.prems(3) group_tail_dot [of "g # gs"] by (simp add: closes_def)
  then have "read_separator CHR '':'' (Suc i) read_ipv4_addr (group_tail (g # gs) @ s) = None"
    by (rule read_ipv4_dot)
  moreover have "read_separator CHR '':'' (Suc i) (read_number 16 4 65535 True) (group_tail (g # gs) @ s)
      = Some (g, group_tail gs @ s)"
    using Cons.prems read_group_show [of g s gs] by (simp add: t read_separator_def)
  moreover have "read_groups (Suc (Suc i)) k' (group_tail gs @ s) = (gs, False, s)"
    using Cons k by simp
  ultimately show ?case by (cases k') (auto simp: k)
qed

lemma read_groups_show:
  assumes "\<forall>g\<in>set gs. g < 65536" "length gs \<le> k" "closes s"
  shows "read_groups 0 k (fmt_subslice gs @ s) = (gs, False, s)"
proof (cases gs)
  case Nil
  with assms(3) show ?thesis by (simp add: fmt_subslice_def read_groups_closes)
next
  case (Cons g hs)
  then obtain k' where k: "k = Suc k'" using assms(2) by (cases k) auto
  have "join CHR '':'' (map show_hex (h # hs)) = show_hex h @ group_tail hs" for h hs
    by (induction hs arbitrary: h) (simp_all add: group_tail_def)
  then have t: "fmt_subslice (g # hs) = show_hex g @ group_tail hs"
    unfolding fmt_subslice_def by blast
  have "CHR ''.'' \<notin> set (fmt_subslice (g # hs) @ s)"
    using assms(3) group_tail_dot [of hs] show_hex_dot [of g] by (simp add: t closes_def)
  then have v4: "read_separator CHR '':'' 0 read_ipv4_addr (fmt_subslice (g # hs) @ s) = None"
    by (rule read_ipv4_dot)
  have "read_separator CHR '':'' 0 (read_number 16 4 65535 True) (fmt_subslice (g # hs) @ s)
      = Some (g, group_tail hs @ s)"
    using assms Cons read_group_show [of g s hs] by (simp add: t read_separator_def)
  moreover have "read_groups (Suc 0) k' (group_tail hs @ s) = (hs, False, s)"
    using assms Cons k by (intro read_groups_tail) auto
  ultimately show ?thesis using v4 by (cases k') (auto simp: k Cons)
qed

lemma segments_less: "\<forall>g\<in>set (segments a). g < 65536"
proof -
  have "\<forall>d\<in>set (digits 65536 k n). d < 65536" for k n by (induction k arbitrary: n) simp_all
  then show ?thesis by (simp add: segments_def)
qed

lemma read_ipv6_fmt_segments:
  assumes "length segs = 8" "\<forall>g\<in>set segs. g < 65536"
  shows "read_ipv6_addr (fmt_segments segs) = Some (segs, [])"
proof -
  obtain st len where z: "zero_span 0 segs (0, 0) (0, 0) = (st, len)" by fastforce
  have nil: "closes []" by (simp add: closes_def)
  show ?thesis
  proof (cases "len > 1")
    case False
    then show ?thesis
      using read_groups_show [OF assms(2) _ nil, of 8] assms(1)
      by (simp add: fmt_segments_def z read_ipv6_addr_def)
  next
    case True
    let ?h = "take st segs" and ?t = "drop (st + len) segs"
    have ok: "span_ok segs (st, len)" using zero_span_full [of segs] z by simp
    then have "st + len \<le> 8" using assms(1) by (simp add: span_ok_def)
    have h: "\<forall>g\<in>set ?h. g < 65536" and t: "\<forall>g\<in>set ?t. g < 65536"
      using assms(2) by (auto dest: in_set_takeD in_set_dropD)
    have "CHR ''.'' \<notin> set (fmt_subslice ?t)"
      using set_join [of "CHR '':''" "map show_hex ?t"] show_hex_dot by (auto simp: fmt_subslice_def)
    then have c: "closes (''::'' @ fmt_subslice ?t)" by (simp add: closes_def)
    have lh: "length ?h = st" using assms(1) \<open>st + len \<le> 8\<close> by simp
    have lt: "length ?t = 8 - (st + len)" using assms(1) by simp
    have "read_groups 0 8 (fmt_segments segs) = (?h, False, ''::'' @ fmt_subslice ?t)"
      using read_groups_show [OF h _ c, of 8] True lh \<open>st + len \<le> 8\<close> by (simp add: fmt_segments_def z)
    moreover have "read_groups 0 (8 - (st + 1)) (fmt_subslice ?t) = (?t, False, [])"
      using read_groups_show [OF t _ nil, of "8 - (st + 1)"] lt True by simp
    moreover have "8 - st - length ?t = len" using lt \<open>st + len \<le> 8\<close> by simp
    ultimately show ?thesis
      using span_split [OF ok] lh True \<open>st + len \<le> 8\<close> by (simp add: read_ipv6_addr_def)
  qed
qed

section \<open>Addresses\<close>

lemma fmt_segments_dot: "CHR ''.'' \<notin> set (fmt_segments segs)"
proof -
  have "CHR ''.'' \<notin> set (fmt_subslice gs)" for gs
    using set_join [of "CHR '':''" "map show_hex gs"] show_hex_dot by (auto simp: fmt_subslice_def)
  then show ?thesis by (cases "zero_span 0 segs (0, 0) (0, 0)") (simp add: fmt_segments_def)
qed

lemma parse_show_v4: "parse_ip (ipv4_show a) = Some (V4 a)"
proof -
  have "undigits 256 (octets a) = unat a"
    unfolding octets_def using unat_less_pow [of a] by (intro undigits_digits) simp
  then show ?thesis
    using read_ipv4_show [of "[]" a] by (simp add: parse_ip_def read_ip_addr_def)
qed

lemma parse_show_segments: "parse_ip (fmt_segments (segments a)) = Some (V6 a)"
proof -
  have "undigits 65536 (segments a) = unat a"
    unfolding segments_def using unat_less_pow [of a] by (intro undigits_digits) simp
  then have "ipv6_new (segments a) = a" by (simp add: ipv6_new_def)
  moreover have "read_ipv4_addr (fmt_segments (segments a)) = None"
    using read_ipv4_dot [OF fmt_segments_dot, of 0] by (simp add: read_separator_def)
  ultimately show ?thesis
    using read_ipv6_fmt_segments [of "segments a"] segments_less [of a]
    by (simp add: parse_ip_def read_ip_addr_def)
qed

lemma mapped_groups:
  assumes "to_ipv4_mapped a = Some b" "octets b = [o0, o1, o2, o3]"
  shows "ipv6_new [0, 0, 0, 0, 0, 65535, o0 * 256 + o1, o2 * 256 + o3] = a"
proof -
  have "drop_bit 32 a = 65535" and b: "b = ucast a"
    using assms(1) by (simp_all add: to_ipv4_mapped_def split: if_splits)
  then have "drop_bit 32 (unat a) = 65535" by (simp flip: unat_drop_bit_eq)
  then have h: "unat a div 2 ^ 32 = 65535" by (simp add: drop_bit_eq_div)
  have l: "unat b = unat a mod 2 ^ 32" by (simp add: b unsigned_ucast_eq take_bit_eq_mod)
  have "undigits 256 (octets b) = unat b"
    unfolding octets_def using unat_less_pow [of b] by (intro undigits_digits) simp
  with assms(2) have "unat b = ((o0 * 256 + o1) * 256 + o2) * 256 + o3" by (simp add: undigits_def)
  moreover have "unat a = 65535 * 2 ^ 32 + unat b" using h l by (metis div_mult_mod_eq)
  ultimately have "undigits 65536 [0, 0, 0, 0, 0, 65535, o0 * 256 + o1, o2 * 256 + o3] = unat a"
    by (simp add: undigits_def)
  then show ?thesis by (simp add: ipv6_new_def)
qed

lemma parse_show_mapped:
  assumes "to_ipv4_mapped a = Some b"
  shows "parse_ip (''::ffff:'' @ ipv4_show b) = Some (V6 a)"
proof -
  have "length (octets b) = Suc (Suc (Suc (Suc 0)))" by (simp add: octets_def)
  then obtain o0 o1 o2 o3 where os: "octets b = [o0, o1, o2, o3]"
    by (auto simp: length_Suc_conv)
  have replicate_5: "replicate 5 (0::nat) = [0, 0, 0, 0, 0]" by (simp add: eval_nat_numeral)
  have v4: "read_ipv4_addr (CHR '':'' # s) = None" "read_ipv4_addr (CHR ''f'' # s) = None" for s
    by (simp_all add: read_ipv4_addr_def read_octets.simps(2) [of _ 3, simplified] read_separator_def read_number_def
        to_digit_def is_ascii_digit_def byte_def)
  have hex: "read_number 16 4 65535 True (''ffff:'' @ s) = Some (65535, CHR '':'' # s)" for s
    by (simp add: read_number_def to_digit_def is_ascii_digit_def byte_def)
  have no: "read_number 16 4 65535 True (CHR '':'' # s) = None" for s
    by (simp add: read_number_stops)
  have "read_ipv4_addr (ipv4_show b) = Some (octets b, [])"
    using read_ipv4_show [of "[]" b] by simp
  then have "read_groups 0 7 (''ffff:'' @ ipv4_show b) =
      ([65535, o0 * 256 + o1, o2 * 256 + o3], True, [])"
    using hex [of "ipv4_show b"] by (simp add: read_groups.simps(2) [of _ 6, simplified] read_groups.simps(2) [of _ 5, simplified] v4 read_separator_def os)
  moreover have "read_groups 0 8 (''::ffff:'' @ ipv4_show b) = ([], False, ''::ffff:'' @ ipv4_show b)"
    by (simp add: read_groups.simps(2) [of _ 7, simplified] v4 read_separator_def no)
  ultimately have "read_ipv6_addr (''::ffff:'' @ ipv4_show b) =
      Some ([0, 0, 0, 0, 0, 65535, o0 * 256 + o1, o2 * 256 + o3], [])"
    using replicate_5 by (simp add: read_ipv6_addr_def)
  then show ?thesis
    using mapped_groups [OF assms os] by (simp add: parse_ip_def read_ip_addr_def v4)
qed

lemma parse_show_ip: "parse_ip (ip_show ip) = Some ip"
  by (cases ip) (auto simp: ip_show_def ipv6_show_def parse_show_v4 parse_show_segments
      parse_show_mapped simp del: append_Cons split: option.split)

end
