(* ===== verification/Client_Address.thy ===== *)
theory Client_Address
  imports Ip_Parse Http_Routing
begin

text \<open>
  The address of the client behind trusted proxies (\<open>runtime/src/trusted_client_ip.rs\<close>):
  the forwarding headers of a request are read into a chain of addresses, and the chain is
  followed from its end as long as the addresses belong to trusted proxies. The address blocks
  of the package \<open>ipnet\<close> are a type parameter, the test whether a block contains an address is
  the parameter \<open>contains\<close>, and the conversion of the header values of the package \<open>http\<close> to
  text is the parameter \<open>to_str\<close>.
\<close>

section \<open>Model\<close>

record 'net trusted_client_ip_policy =
  tc_enabled :: bool
  tc_trusted_proxy_cidrs :: "'net list"

datatype trusted_client_ip_header_source = Forwarded | XForwardedFor

record trusted_client_ip_resolution =
  tr_client_ip :: ip_addr
  tr_peer_ip :: ip_addr
  tr_header_source :: "trusted_client_ip_header_source option"

datatype trusted_client_ip_error = UntrustedForwardingHeader | InvalidForwardingHeader

definition rsplit_once :: "char \<Rightarrow> string \<Rightarrow> (string \<times> string) option" where
  "rsplit_once c s = map_option (\<lambda>(a, b). (rev b, rev a)) (split_once c (rev s))"

definition parse_forwarded_ip_token :: "string \<Rightarrow> (ip_addr, trusted_client_ip_error) result" where
  "parse_forwarded_ip_token tok =
     (let token = trim_matches CHR 0x22 (trim tok);
          invalid = Err InvalidForwardingHeader;
          host_ip = (\<lambda>host. case parse_ip host of None \<Rightarrow> invalid | Some ip \<Rightarrow> Ok (canonicalize_ip ip))
      in if token = [] \<or> eq_ignore_ascii_case token ''unknown'' \<or> prefix ''_'' token then invalid
         else case strip_prefix_char CHR ''['' token of
           Some inner \<Rightarrow>
             (case find_char (\<lambda>c. c = CHR '']'') inner of
                None \<Rightarrow> invalid
              | Some bracket_end \<Rightarrow>
                  let after = drop (bracket_end + 1) inner
                  in if after \<noteq> [] \<and> \<not> prefix '':'' after then invalid
                     else host_ip (take bracket_end inner))
         | None \<Rightarrow>
             (case parse_ip token of
                Some ip \<Rightarrow> Ok (canonicalize_ip ip)
              | None \<Rightarrow>
                  (case rsplit_once CHR '':'' token of
                     Some (host, port) \<Rightarrow> if list_all is_ascii_digit port then host_ip host else invalid
                   | None \<Rightarrow> invalid)))"

fun parse_entries :: "string list \<Rightarrow> (ip_addr list, trusted_client_ip_error) result" where
  "parse_entries [] = Ok []"
| "parse_entries (e # es) =
     (let entry = trim e
      in if entry = [] then Err InvalidForwardingHeader
         else and_then (parse_forwarded_ip_token entry) (\<lambda>ip.
              and_then (parse_entries es) (\<lambda>chain. Ok (ip # chain))))"

definition parse_x_forwarded_for_chain :: "string list \<Rightarrow> (ip_addr list, trusted_client_ip_error) result" where
  "parse_x_forwarded_for_chain values = parse_entries (concat (map (split_on CHR '','') values))"

fun parse_parameters :: "string list \<Rightarrow> (ip_addr, trusted_client_ip_error) result" where
  "parse_parameters [] = Err InvalidForwardingHeader"
| "parse_parameters (p # ps) =
     (case split_once CHR ''='' (trim p) of
        None \<Rightarrow> parse_parameters ps
      | Some (name, raw_value) \<Rightarrow>
          if eq_ignore_ascii_case (trim name) ''for'' then parse_forwarded_ip_token (trim raw_value)
          else parse_parameters ps)"

fun parse_elements :: "string list \<Rightarrow> (ip_addr list, trusted_client_ip_error) result" where
  "parse_elements [] = Ok []"
| "parse_elements (e # es) =
     and_then (parse_parameters (split_on CHR '';'' e)) (\<lambda>ip.
     and_then (parse_elements es) (\<lambda>chain. Ok (ip # chain)))"

definition parse_forwarded_chain :: "string list \<Rightarrow> (ip_addr list, trusted_client_ip_error) result" where
  "parse_forwarded_chain values = parse_elements (concat (map (split_on CHR '','') values))"

fun follow_chain :: "(ip_addr \<Rightarrow> bool) \<Rightarrow> ip_addr \<Rightarrow> ip_addr list \<Rightarrow> ip_addr" where
  "follow_chain trusted current [] = current"
| "follow_chain trusted current (candidate # rest) =
     (if trusted current then follow_chain trusted (canonicalize_ip candidate) rest else current)"

definition resolve_client_from_chain ::
    "('net \<Rightarrow> ip_addr \<Rightarrow> bool) \<Rightarrow> ip_addr \<Rightarrow> ip_addr list \<Rightarrow> 'net list \<Rightarrow> ip_addr" where
  "resolve_client_from_chain contains peer_ip chain cidrs =
     follow_chain (\<lambda>ip. list_ex (\<lambda>cidr. contains cidr ip) cidrs) (canonicalize_ip peer_ip) (rev chain)"

definition is_trusted_proxy ::
    "('net \<Rightarrow> ip_addr \<Rightarrow> bool) \<Rightarrow> 'net trusted_client_ip_policy \<Rightarrow> ip_addr \<Rightarrow> bool" where
  "is_trusted_proxy contains p ip \<longleftrightarrow>
     list_ex (\<lambda>cidr. contains cidr (canonicalize_ip ip)) (tc_trusted_proxy_cidrs p)"

definition forwarded_values :: "(string \<times> string) list \<Rightarrow> string list" where
  "forwarded_values hs = map snd (filter (\<lambda>(name, _). eq_ignore_ascii_case name ''forwarded'') hs)"

definition xff_values :: "(string \<times> string) list \<Rightarrow> string list" where
  "xff_values hs =
     map snd (filter (\<lambda>(name, _). \<not> eq_ignore_ascii_case name ''forwarded'' \<and>
       eq_ignore_ascii_case name ''x-forwarded-for'') hs)"

definition resolve_from_header_iter ::
    "('net \<Rightarrow> ip_addr \<Rightarrow> bool) \<Rightarrow> 'net trusted_client_ip_policy \<Rightarrow> ip_addr \<Rightarrow> (string \<times> string) list \<Rightarrow>
     (trusted_client_ip_resolution, trusted_client_ip_error) result" where
  "resolve_from_header_iter contains p peer headers =
     (let peer_ip = canonicalize_ip peer;
          direct = \<lparr>tr_client_ip = peer_ip, tr_peer_ip = peer_ip, tr_header_source = None\<rparr>;
          fwd = forwarded_values headers;
          xff = xff_values headers
      in if \<not> tc_enabled p then Ok direct
         else if fwd = [] \<and> xff = [] then Ok direct
         else if \<not> is_trusted_proxy contains p peer_ip then Err UntrustedForwardingHeader
         else and_then
           (if fwd \<noteq> []
            then and_then (parse_forwarded_chain fwd) (\<lambda>chain. Ok (Forwarded, chain))
            else and_then (parse_x_forwarded_for_chain xff) (\<lambda>chain. Ok (XForwardedFor, chain)))
           (\<lambda>(source, chain).
              if chain = [] then Err InvalidForwardingHeader
              else Ok \<lparr>tr_client_ip = resolve_client_from_chain contains peer_ip chain (tc_trusted_proxy_cidrs p),
                       tr_peer_ip = peer_ip, tr_header_source = Some source\<rparr>))"

definition resolve_resolution_from_http1_headers ::
    "('net \<Rightarrow> ip_addr \<Rightarrow> bool) \<Rightarrow> 'net trusted_client_ip_policy \<Rightarrow> ip_addr \<Rightarrow> http_header list \<Rightarrow>
     (trusted_client_ip_resolution, trusted_client_ip_error) result" where
  "resolve_resolution_from_http1_headers contains p peer headers =
     resolve_from_header_iter contains p peer (map (\<lambda>h. (hh_name h, hh_value h)) headers)"

definition resolve_from_http1_headers ::
    "('net \<Rightarrow> ip_addr \<Rightarrow> bool) \<Rightarrow> 'net trusted_client_ip_policy \<Rightarrow> ip_addr \<Rightarrow> http_header list \<Rightarrow>
     (ip_addr, trusted_client_ip_error) result" where
  "resolve_from_http1_headers contains p peer headers =
     and_then (resolve_resolution_from_http1_headers contains p peer headers) (\<lambda>r. Ok (tr_client_ip r))"

definition resolve_resolution_from_http2_headers ::
    "('net \<Rightarrow> ip_addr \<Rightarrow> bool) \<Rightarrow> ('v \<Rightarrow> string option) \<Rightarrow> 'net trusted_client_ip_policy \<Rightarrow> ip_addr \<Rightarrow>
     (string \<times> 'v) list \<Rightarrow> (trusted_client_ip_resolution, trusted_client_ip_error) result" where
  "resolve_resolution_from_http2_headers contains to_str p peer headers =
     resolve_from_header_iter contains p peer
       (List.map_filter (\<lambda>(name, v). map_option (\<lambda>s. (name, s)) (to_str v)) headers)"

definition resolve_from_http2_headers ::
    "('net \<Rightarrow> ip_addr \<Rightarrow> bool) \<Rightarrow> ('v \<Rightarrow> string option) \<Rightarrow> 'net trusted_client_ip_policy \<Rightarrow> ip_addr \<Rightarrow>
     (string \<times> 'v) list \<Rightarrow> (ip_addr, trusted_client_ip_error) result" where
  "resolve_from_http2_headers contains to_str p peer headers =
     and_then (resolve_resolution_from_http2_headers contains to_str p peer headers) (\<lambda>r. Ok (tr_client_ip r))"

section \<open>Following the chain\<close>

text \<open>The walk stops at the last address that is not trusted, however the chain starts.\<close>

lemma follow_chain_stops:
  "\<not> trusted c \<Longrightarrow> list_all trusted (cur # map canonicalize_ip pre) \<Longrightarrow> canonicalize_ip x = c \<Longrightarrow>
   follow_chain trusted cur (pre @ x # post) = c"
proof (induction pre arbitrary: cur)
  case Nil
  then show ?case by (cases post) auto
qed auto

lemma follow_chain_result:
  "follow_chain trusted cur ch = cur \<or>
   (\<exists>pre x post. ch = pre @ x # post \<and> follow_chain trusted cur ch = canonicalize_ip x \<and>
      list_all trusted (cur # map canonicalize_ip pre))"
proof (induction ch arbitrary: cur)
  case (Cons c ch)
  show ?case
  proof (cases "trusted cur")
    case True
    from Cons.IH [of "canonicalize_ip c"] show ?thesis
    proof
      assume "follow_chain trusted (canonicalize_ip c) ch = canonicalize_ip c"
      with True have "c # ch = [] @ c # ch \<and> follow_chain trusted cur (c # ch) = canonicalize_ip c \<and>
          list_all trusted (cur # map canonicalize_ip [])" by simp
      then show ?thesis by blast
    next
      assume "\<exists>pre x post. ch = pre @ x # post \<and>
          follow_chain trusted (canonicalize_ip c) ch = canonicalize_ip x \<and>
          list_all trusted (canonicalize_ip c # map canonicalize_ip pre)"
      then obtain pre x post where "ch = pre @ x # post"
          "follow_chain trusted (canonicalize_ip c) ch = canonicalize_ip x"
          "list_all trusted (canonicalize_ip c # map canonicalize_ip pre)" by blast
      with True have "c # ch = (c # pre) @ x # post \<and> follow_chain trusted cur (c # ch) = canonicalize_ip x \<and>
          list_all trusted (cur # map canonicalize_ip (c # pre))" by simp
      then show ?thesis by blast
    qed
  qed simp
qed simp

lemma last_filter_split:
  assumes "filter P xs \<noteq> []"
  obtains pre post where "xs = pre @ last (filter P xs) # post" "P (last (filter P xs))" "\<forall>x\<in>set post. \<not> P x"
proof -
  have "filter P (rev xs) \<noteq> []" using assms by (metis rev_filter rev_is_Nil_conv)
  then obtain y ys where y: "filter P (rev xs) = y # ys" by (cases "filter P (rev xs)") auto
  then obtain us vs where "rev xs = us @ y # vs" "\<forall>u\<in>set us. \<not> P u" "P y"
    by (auto simp: filter_eq_Cons_iff)
  then have "xs = rev vs @ y # rev us" by (metis append.assoc append_Cons append_Nil rev.simps(2) rev_append rev_rev_ident)
  moreover have "last (filter P xs) = y"
    using y by (metis hd_rev last_rev list.sel(1) rev_filter)
  ultimately show ?thesis
    using that [of "rev vs" "rev us"] \<open>P y\<close> \<open>\<forall>u\<in>set us. \<not> P u\<close> by simp
qed

section \<open>Reading rendered chains back\<close>

definition ip_char :: "char \<Rightarrow> bool" where
  "ip_char c \<longleftrightarrow> alnum c \<or> c = CHR ''.'' \<or> c = CHR '':''"

lemma ip_show_chars: "\<forall>c\<in>set (ip_show ip). ip_char c"
proof -
  have v4: "\<forall>c\<in>set (ipv4_show a). ip_char c" for a
    using colon_ipv4_show [of _ a] by (auto simp: ip_char_def)
  have sub: "\<forall>c\<in>set (fmt_subslice gs). ip_char c" for gs
    using set_join [of "CHR '':''" "map show_hex gs"] show_radix_alnum [of 16]
    by (fastforce simp: fmt_subslice_def show_hex_def ip_char_def)
  have "\<forall>c\<in>set (fmt_segments gs). ip_char c" for gs
    using sub by (cases "zero_span 0 gs (0, 0) (0, 0)") (auto simp: fmt_segments_def ip_char_def)
  then show ?thesis
    using v4 by (auto simp: ip_show_def ipv6_show_def ip_char_def alnum_def split: ip_addr.split option.split)
qed

lemma ip_show_sep: "CHR ''.'' \<in> set (ip_show ip) \<or> CHR '':'' \<in> set (ip_show ip)"
proof (cases ip)
  case (V4 a)
  have "2 \<le> length (map show_nat (octets a))" by (simp add: octets_def)
  with V4 show ?thesis by (simp add: ip_show_def ipv4_show_def sep_mem_join)
next
  case (V6 a)
  then show ?thesis by (simp add: ip_show_def colon_ipv6_show)
qed

lemma ip_show_ne: "ip_show ip \<noteq> []"
  using ip_show_sep [of ip] by auto

lemma ip_char_solid: "ip_char c \<Longrightarrow> solid c \<and> c \<noteq> CHR 0x22 \<and> c \<noteq> CHR ''_'' \<and> c \<noteq> CHR ''['' \<and> c \<noteq> CHR '',''"
  by (auto simp: ip_char_def alnum_def solid_def byte_def Let_def)

lemma solid_trim: "s \<noteq> [] \<Longrightarrow> \<forall>c\<in>set s. solid c \<Longrightarrow> trim s = s"
  by (intro trim_solid) simp

lemma trim_space: "s \<noteq> [] \<Longrightarrow> solid (hd s) \<Longrightarrow> trim (CHR '' '' # s) = trim s"
proof -
  assume s: "s \<noteq> []" "solid (hd s)"
  then obtain c u where c: "s = c # u" "solid c" by (cases s) auto
  have "find (\<lambda>w. prefix w s) white_space = None"
    unfolding find_None_iff c(1) using white_space_first c(2) by blast
  then have "strip_front n white_space s = s" for n by (rule strip_front_keep)
  moreover have "find (\<lambda>w. prefix w (CHR '' '' # s)) white_space = Some '' ''"
    by (simp add: white_space_def)
  ultimately have "trim_start (CHR '' '' # s) = s" "trim_start s = s" by (simp_all add: trim_start_def)
  then show ?thesis by (simp add: trim_def)
qed

lemma token_show: "parse_forwarded_ip_token (ip_show ip) = Ok (canonicalize_ip ip)"
proof -
  have s: "\<forall>c\<in>set (ip_show ip). solid c" "CHR 0x22 \<notin> set (ip_show ip)"
    "CHR ''_'' \<notin> set (ip_show ip)" "CHR ''['' \<notin> set (ip_show ip)"
    using ip_show_chars [of ip] ip_char_solid by fastforce+
  have t: "trim (ip_show ip) = ip_show ip" "trim_matches CHR 0x22 (ip_show ip) = ip_show ip"
    using s ip_show_ne solid_trim trim_matches_none by blast+
  have "\<not> prefix ''_'' (ip_show ip)" "strip_prefix_char CHR ''['' (ip_show ip) = None"
    using s(3,4) by (cases "ip_show ip"; auto simp: strip_prefix_char_def)+
  moreover have "\<not> eq_ignore_ascii_case (ip_show ip) ''unknown''"
  proof
    assume "eq_ignore_ascii_case (ip_show ip) ''unknown''"
    then have e: "map ascii_lower (ip_show ip) = ''unknown''"
      by (simp add: eq_ignore_ascii_case_def to_ascii_lowercase_map ascii_lower_def byte_def)
    have "ascii_lower c = c" if "c = CHR ''.'' \<or> c = CHR '':''" for c
      using that by (auto simp: ascii_lower_def byte_def)
    then have "CHR ''.'' \<in> set ''unknown'' \<or> CHR '':'' \<in> set ''unknown''"
      using ip_show_sep [of ip] by (metis e image_eqI set_map)
    then show False by simp
  qed
  ultimately show ?thesis
    using ip_show_ne by (simp add: parse_forwarded_ip_token_def Let_def t parse_show_ip)
qed

definition hop_list :: "ip_addr list \<Rightarrow> string" where
  "hop_list hops = join_str '', '' (map ip_show hops)"

definition forwarded_element :: "ip_addr \<Rightarrow> string" where
  "forwarded_element ip = ''for='' @ [CHR 0x22] @ ''['' @ ip_show ip @ '']'' @ [CHR 0x22]"

lemma split_on_sep: "split_on c (s @ c # t) = split_on c s @ split_on c t"
proof (induction s)
  case (Cons x s)
  obtain w ws where "split_on c s = w # ws" by (cases "split_on c s") auto
  with Cons show ?case by simp
qed simp

lemma parse_entries_append:
  "parse_entries (xs @ ys) =
   and_then (parse_entries xs) (\<lambda>a. and_then (parse_entries ys) (\<lambda>b. Ok (a @ b)))"
proof (induction xs)
  case Nil
  then show ?case by (cases "parse_entries ys") (simp_all add: and_then_def)
next
  case (Cons x xs)
  then show ?case
    by (cases "parse_forwarded_ip_token (trim x)"; cases "parse_entries xs"; cases "parse_entries ys")
      (simp_all add: and_then_def Let_def)
qed

lemma ip_show_comma: "CHR '','' \<notin> set (ip_show ip)"
  using ip_show_chars [of ip] ip_char_solid by blast

lemma entry_show:
  "trim (ip_show ip) = ip_show ip" "trim (CHR '' '' # ip_show ip) = ip_show ip"
proof -
  have s: "\<forall>c\<in>set (ip_show ip). solid c"
    using ip_show_chars [of ip] ip_char_solid by blast
  then have "solid (hd (ip_show ip))" using ip_show_ne [of ip] by simp
  with s show "trim (ip_show ip) = ip_show ip" "trim (CHR '' '' # ip_show ip) = ip_show ip"
    using ip_show_ne [of ip] by (simp_all add: solid_trim trim_space)
qed

lemma parse_entries_space:
  "hops \<noteq> [] \<Longrightarrow> parse_entries (split_on CHR '','' (CHR '' '' # hop_list hops)) = Ok (map canonicalize_ip hops)"
proof (induction hops rule: induct_list012)
  case (2 h)
  have "CHR '','' \<notin> set (CHR '' '' # ip_show h)" using ip_show_comma [of h] by simp
  then have "split_on CHR '','' (CHR '' '' # ip_show h) = [CHR '' '' # ip_show h]" by (rule split_on_single)
  then show ?case
    by (simp add: hop_list_def entry_show token_show ip_show_ne and_then_def del: split_on.simps)
next
  case (3 h k hops)
  have "CHR '','' \<notin> set (CHR '' '' # ip_show h)" using ip_show_comma [of h] by simp
  then have "split_on CHR '','' ((CHR '' '' # ip_show h) @ CHR '','' # CHR '' '' # hop_list (k # hops)) =
      (CHR '' '' # ip_show h) # split_on CHR '','' (CHR '' '' # hop_list (k # hops))"
    by (rule split_on_append)
  moreover have "(CHR '' '' # ip_show h) @ CHR '','' # CHR '' '' # hop_list (k # hops) =
      CHR '' '' # hop_list (h # k # hops)"
    by (simp add: hop_list_def)
  ultimately show ?case
    using 3 by (simp add: entry_show token_show ip_show_ne and_then_def del: split_on.simps)
qed simp

lemma parse_entries_hops:
  assumes "hops \<noteq> []"
  shows "parse_entries (split_on CHR '','' (hop_list hops)) = Ok (map canonicalize_ip hops)"
proof (cases hops rule: remdups_adj.cases)
  case (2 h)
  then show ?thesis
    by (simp add: hop_list_def split_on_single ip_show_comma entry_show token_show ip_show_ne and_then_def)
next
  case (3 h k rest)
  have e: "hop_list hops = ip_show h @ CHR '','' # CHR '' '' # hop_list (k # rest)"
    by (simp add: hop_list_def 3)
  show ?thesis
    unfolding e split_on_append [OF ip_show_comma]
    using parse_entries_space [of "k # rest"] 3
    by (simp add: entry_show token_show ip_show_ne and_then_def del: split_on.simps)
qed (use assms in simp)

lemma token_bracketed:
  "parse_forwarded_ip_token ([CHR 0x22] @ ''['' @ ip_show ip @ '']'' @ [CHR 0x22]) = Ok (canonicalize_ip ip)"
proof -
  let ?t = "[CHR 0x22] @ ''['' @ ip_show ip @ '']'' @ [CHR 0x22]"
  have c: "c \<noteq> CHR '']''" if "c \<in> set (ip_show ip)" for c
    using ip_show_chars [of ip] that by (auto simp: ip_char_def alnum_def)
  have t: "trim_matches CHR 0x22 (trim ?t) = CHR ''['' # ip_show ip @ '']''"
    by (subst trim_solid) (simp_all add: solid_def byte_def trim_matches_def)
  have f: "find_char (\<lambda>c. c = CHR '']'') (ip_show ip @ '']'') = Some (length (ip_show ip))"
    using c by (simp add: find_char_def takeWhile_append)
  have u: "\<not> eq_ignore_ascii_case (CHR ''['' # s) ''unknown''" for s
    by (simp add: eq_ignore_ascii_case_def to_ascii_lowercase_map ascii_lower_def byte_def)
  show ?thesis
    unfolding parse_forwarded_ip_token_def Let_def t
    by (simp add: strip_prefix_char_def parse_show_ip f u)
qed

lemma element_chars:
  assumes "c \<in> set (forwarded_element ip)"
  shows "ip_char c \<or> c = CHR ''='' \<or> c = CHR 0x22 \<or> c = CHR ''['' \<or> c = CHR '']''"
proof -
  have "ip_char CHR ''f''" "ip_char CHR ''o''" "ip_char CHR ''r''"
    by (simp_all add: ip_char_def alnum_def)
  with assms show ?thesis
    using ip_show_chars [of ip] by (auto simp: forwarded_element_def)
qed

lemma parse_parameters_element:
  "trim e = forwarded_element ip \<Longrightarrow> parse_parameters [e] = Ok (canonicalize_ip ip)"
proof -
  assume e: "trim e = forwarded_element ip"
  let ?v = "[CHR 0x22] @ ''['' @ ip_show ip @ '']'' @ [CHR 0x22]"
  have "split_once CHR ''='' (forwarded_element ip) = Some (''for'', ?v)"
    unfolding split_once_Some by (simp add: forwarded_element_def)
  moreover have "trim ?v = ?v" "trim ''for'' = ''for''"
    by (intro trim_solid; simp add: solid_def byte_def)+
  ultimately show ?thesis using e token_bracketed [of ip] by simp
qed

lemma element_free:
  assumes "c = CHR '','' \<or> c = CHR '';''"
  shows "c \<notin> set (forwarded_element ip)" "c \<notin> set (CHR '' '' # forwarded_element ip)"
proof -
  have "\<not> ip_char c" using assms by (auto simp: ip_char_def alnum_def)
  then show "c \<notin> set (forwarded_element ip)" using element_chars [of c ip] assms by auto
  then show "c \<notin> set (CHR '' '' # forwarded_element ip)" using assms by auto
qed

lemma element_trim:
  "trim (forwarded_element ip) = forwarded_element ip"
  "trim (CHR '' '' # forwarded_element ip) = forwarded_element ip"
proof -
  show t: "trim (forwarded_element ip) = forwarded_element ip"
    by (intro trim_solid) (simp add: forwarded_element_def solid_def byte_def)
  have "trim (CHR '' '' # forwarded_element ip) = trim (forwarded_element ip)"
    by (rule trim_space) (simp_all add: forwarded_element_def solid_def byte_def)
  with t show "trim (CHR '' '' # forwarded_element ip) = forwarded_element ip" by (rule trans [rotated])
qed

lemma parse_elements_one:
  "e = forwarded_element ip \<or> e = CHR '' '' # forwarded_element ip \<Longrightarrow>
   parse_parameters (split_on CHR '';'' e) = Ok (canonicalize_ip ip)"
proof -
  assume e: "e = forwarded_element ip \<or> e = CHR '' '' # forwarded_element ip"
  then have "split_on CHR '';'' e = [e]"
    using element_free [of "CHR '';''" ip] by (intro split_on_single) auto
  moreover have "trim e = forwarded_element ip" using e element_trim [of ip] by auto
  ultimately show ?thesis using parse_parameters_element by (simp only:)
qed

lemma parse_elements_space:
  "hops \<noteq> [] \<Longrightarrow>
   parse_elements (split_on CHR '','' (CHR '' '' # join_str '', '' (map forwarded_element hops))) =
   Ok (map canonicalize_ip hops)"
proof (induction hops rule: induct_list012)
  case (2 h)
  have "split_on CHR '','' (CHR '' '' # forwarded_element h) = [CHR '' '' # forwarded_element h]"
    using element_free [of "CHR '',''" h] by (intro split_on_single) auto
  then show ?case using parse_elements_one [of _ h] by (simp add: and_then_def del: split_on.simps)
next
  case (3 h k hops)
  let ?r = "join_str '', '' (map forwarded_element (k # hops))"
  have "split_on CHR '','' ((CHR '' '' # forwarded_element h) @ CHR '','' # CHR '' '' # ?r) =
      (CHR '' '' # forwarded_element h) # split_on CHR '','' (CHR '' '' # ?r)"
    using element_free [of "CHR '',''" h] by (intro split_on_append) auto
  moreover have "(CHR '' '' # forwarded_element h) @ CHR '','' # CHR '' '' # ?r =
      CHR '' '' # join_str '', '' (map forwarded_element (h # k # hops))" by simp
  ultimately have "parse_elements (split_on CHR '','' (CHR '' '' # join_str '', '' (map forwarded_element (h # k # hops)))) =
      parse_elements ((CHR '' '' # forwarded_element h) # split_on CHR '','' (CHR '' '' # ?r))"
    by (simp only:)
  also have "\<dots> = Ok (map canonicalize_ip (h # k # hops))"
    unfolding parse_elements.simps parse_elements_one [OF disjI2 [OF refl]] 3(2) [OF list.distinct(2)]
    by (simp add: and_then_def)
  finally show ?case .
qed simp

lemma parse_elements_hops:
  assumes "hops \<noteq> []"
  shows "parse_elements (split_on CHR '','' (join_str '', '' (map forwarded_element hops))) =
    Ok (map canonicalize_ip hops)"
proof (cases hops rule: remdups_adj.cases)
  case (2 h)
  have "split_on CHR '','' (forwarded_element h) = [forwarded_element h]"
    using element_free [of "CHR '',''" h] by (intro split_on_single) auto
  with 2 show ?thesis using parse_elements_one [of _ h] by (simp add: and_then_def del: split_on.simps)
next
  case (3 h k rest)
  let ?r = "join_str '', '' (map forwarded_element (k # rest))"
  have "split_on CHR '','' (forwarded_element h @ CHR '','' # CHR '' '' # ?r) =
      forwarded_element h # split_on CHR '','' (CHR '' '' # ?r)"
    using element_free [of "CHR '',''" h] by (intro split_on_append) auto
  moreover have "join_str '', '' (map forwarded_element hops) = forwarded_element h @ CHR '','' # CHR '' '' # ?r"
    by (simp add: 3)
  ultimately have e: "split_on CHR '','' (join_str '', '' (map forwarded_element hops)) =
      forwarded_element h # split_on CHR '','' (CHR '' '' # ?r)" by (simp only:)
  show ?thesis
    unfolding e parse_elements.simps parse_elements_one [OF disjI1 [OF refl]]
      parse_elements_space [OF list.distinct(2)] and_then_def
    by (simp add: 3)
qed (use assms in simp)

lemma chain_spoofed:
  assumes "hops \<noteq> []"
  shows "parse_x_forwarded_for_chain (vs @ [spoof @ '', '' @ hop_list hops]) =
    and_then (parse_x_forwarded_for_chain (vs @ [spoof])) (\<lambda>a. Ok (a @ map canonicalize_ip hops))"
proof -
  have e: "concat (map (split_on CHR '','') (vs @ [spoof @ '', '' @ hop_list hops])) =
      concat (map (split_on CHR '','') (vs @ [spoof])) @ split_on CHR '','' (CHR '' '' # hop_list hops)"
    using split_on_sep [of "CHR '',''" spoof "CHR '' '' # hop_list hops"] by simp
  show ?thesis
    unfolding parse_x_forwarded_for_chain_def e parse_entries_append parse_entries_space [OF assms]
    by (simp add: and_then_def)
qed

lemma canonicalize_trusted: "is_trusted_proxy contains p (canonicalize_ip ip) = is_trusted_proxy contains p ip"
  by (simp add: is_trusted_proxy_def canonicalize_ip_idem)

lemma resolve_chain_stops:
  assumes "is_trusted_proxy contains p peer"
    and "filter (\<lambda>ip. \<not> is_trusted_proxy contains p ip) hops \<noteq> []"
  shows "resolve_client_from_chain contains (canonicalize_ip peer) (a @ map canonicalize_ip hops)
      (tc_trusted_proxy_cidrs p) =
    canonicalize_ip (last (filter (\<lambda>ip. \<not> is_trusted_proxy contains p ip) hops))"
proof -
  let ?P = "\<lambda>ip. \<not> is_trusted_proxy contains p ip"
  let ?t = "\<lambda>ip. list_ex (\<lambda>cidr. contains cidr ip) (tc_trusted_proxy_cidrs p)"
  obtain pre post where h: "hops = pre @ last (filter ?P hops) # post" "?P (last (filter ?P hops))"
      "\<forall>x\<in>set post. is_trusted_proxy contains p x"
    by (rule last_filter_split [OF assms(2)]) auto
  let ?x = "last (filter ?P hops)"
  have r: "rev (a @ map canonicalize_ip hops) =
      map canonicalize_ip (rev post) @ canonicalize_ip ?x # (map canonicalize_ip (rev pre) @ rev a)"
    by (subst h(1)) (simp add: rev_map)
  have "follow_chain ?t (canonicalize_ip (canonicalize_ip peer))
      (map canonicalize_ip (rev post) @ canonicalize_ip ?x # (map canonicalize_ip (rev pre) @ rev a)) =
      canonicalize_ip ?x"
    using assms(1) h(2,3)
    by (intro follow_chain_stops)
      (auto simp: is_trusted_proxy_def canonicalize_ip_idem list_all_iff)
  then show ?thesis unfolding resolve_client_from_chain_def r .
qed

section \<open>Properties\<close>

text \<open>
  C18. A client cannot forge its address: where the peer is a trusted proxy and the trusted
  proxies appended the addresses \<open>hops\<close> to whatever \<open>X-Forwarded-For\<close> lines and text the client
  had sent, the request is either rejected, exactly if the part that the client sent cannot be
  read, or attributed to the last of these addresses that is not a trusted proxy. What the
  client sent never changes the attributed address.
\<close>

theorem client_address_unspoofable:
  assumes "tc_enabled p" and "is_trusted_proxy contains p peer"
    and "forwarded_values (map (\<lambda>h. (hh_name h, hh_value h)) headers) = []"
    and "xff_values (map (\<lambda>h. (hh_name h, hh_value h)) headers) = vs @ [spoof @ '', '' @ hop_list hops]"
    and "filter (\<lambda>ip. \<not> is_trusted_proxy contains p ip) hops \<noteq> []"
  shows "resolve_resolution_from_http1_headers contains p peer headers =
    (case parse_x_forwarded_for_chain (vs @ [spoof]) of
       Inl e \<Rightarrow> Err e
     | Inr _ \<Rightarrow> Ok \<lparr>tr_client_ip = canonicalize_ip (last (filter (\<lambda>ip. \<not> is_trusted_proxy contains p ip) hops)),
                  tr_peer_ip = canonicalize_ip peer, tr_header_source = Some XForwardedFor\<rparr>)"
proof -
  have ne: "hops \<noteq> []" using assms(5) by auto
  show ?thesis
    unfolding resolve_resolution_from_http1_headers_def resolve_from_header_iter_def Let_def assms(3,4)
      chain_spoofed [OF ne]
    using assms(1,2) ne
    by (cases "parse_x_forwarded_for_chain (vs @ [spoof])")
      (simp_all add: and_then_def canonicalize_trusted resolve_chain_stops [OF assms(2,5)])
qed

definition in_block :: "32 word \<times> nat \<Rightarrow> ip_addr \<Rightarrow> bool" where
  "in_block n ip = (case ip of V4 a \<Rightarrow> drop_bit (32 - snd n) a = drop_bit (32 - snd n) (fst n) | V6 _ \<Rightarrow> False)"

theorem client_address_unspoofable_witness:
  "resolve_resolution_from_http1_headers in_block
     \<lparr>tc_enabled = True, tc_trusted_proxy_cidrs = [(0x0A000000, 8)]\<rparr> (V4 0x0A000001)
     [\<lparr>hh_name = ''X-Forwarded-For'', hh_value = ''127.0.0.1'' @ '', '' @ hop_list [V4 0xC6336407, V4 0x0A000002]\<rparr>] =
   Ok \<lparr>tr_client_ip = V4 0xC6336407, tr_peer_ip = V4 0x0A000001, tr_header_source = Some XForwardedFor\<rparr>"
proof -
  let ?p = "\<lparr>tc_enabled = True, tc_trusted_proxy_cidrs = [(0x0A000000 :: 32 word, 8 :: nat)]\<rparr>"
  have t: "is_trusted_proxy in_block ?p (V4 0x0A000001)" "is_trusted_proxy in_block ?p (V4 0x0A000002)"
    "\<not> is_trusted_proxy in_block ?p (V4 0xC6336407)" by code_simp+
  have n: "eq_ignore_ascii_case ''X-Forwarded-For'' ''x-forwarded-for''"
    "\<not> eq_ignore_ascii_case ''X-Forwarded-For'' ''forwarded''" by code_simp+
  have c: "parse_x_forwarded_for_chain ([] @ [''127.0.0.1'']) = Ok [V4 0x7F000001]" by code_simp
  show ?thesis
    using client_address_unspoofable [of ?p in_block "V4 0x0A000001"
        "[\<lparr>hh_name = ''X-Forwarded-For'', hh_value = ''127.0.0.1'' @ '', '' @ hop_list [V4 0xC6336407, V4 0x0A000002]\<rparr>]"
        "[]" "''127.0.0.1''" "[V4 0xC6336407, V4 0x0A000002]"] t n
    unfolding c by (simp add: forwarded_values_def xff_values_def canonicalize_ip_def)
qed

text \<open>
  The address that a request is attributed to is vouched for: it is the address of the
  peer, or forwarding headers name it and the peer and every address that they list after it
  belong to trusted proxies.
\<close>

lemma client_address_vouched:
  assumes "resolve_from_header_iter contains p peer hs = Ok r"
    and "tr_client_ip r \<noteq> canonicalize_ip peer"
  shows "tc_enabled p \<and> is_trusted_proxy contains p peer \<and>
    (\<exists>pre x post.
       (if forwarded_values hs \<noteq> [] then parse_forwarded_chain (forwarded_values hs)
        else parse_x_forwarded_for_chain (xff_values hs)) = Ok (pre @ x # post) \<and>
       tr_client_ip r = canonicalize_ip x \<and> (\<forall>y\<in>set post. is_trusted_proxy contains p y))"
proof -
  let ?t = "\<lambda>ip. list_ex (\<lambda>cidr. contains cidr ip) (tc_trusted_proxy_cidrs p)"
  let ?c = "if forwarded_values hs \<noteq> [] then parse_forwarded_chain (forwarded_values hs)
    else parse_x_forwarded_for_chain (xff_values hs)"
  have en: "tc_enabled p" and hs: "\<not> (forwarded_values hs = [] \<and> xff_values hs = [])"
    and tr: "is_trusted_proxy contains p (canonicalize_ip peer)"
    using assms by (auto simp: resolve_from_header_iter_def Let_def split: if_splits)
  then obtain ch where ch: "?c = Ok ch"
      "tr_client_ip r = resolve_client_from_chain contains (canonicalize_ip peer) ch (tc_trusted_proxy_cidrs p)"
    using assms(1)
    by (auto simp: resolve_from_header_iter_def Let_def and_then_eq_Ok split: if_splits)
  then have "follow_chain ?t (canonicalize_ip peer) (rev ch) \<noteq> canonicalize_ip peer"
    using assms(2) by (simp add: resolve_client_from_chain_def canonicalize_ip_idem)
  then obtain pre x post where f: "rev ch = pre @ x # post"
      "follow_chain ?t (canonicalize_ip peer) (rev ch) = canonicalize_ip x"
      "list_all ?t (canonicalize_ip peer # map canonicalize_ip pre)"
    using follow_chain_result [of ?t "canonicalize_ip peer" "rev ch"] by blast
  have "ch = rev post @ x # rev pre" using f(1) by (metis append.assoc append_Cons append_Nil rev.simps(2) rev_append rev_rev_ident)
  moreover have "\<forall>y\<in>set (rev pre). is_trusted_proxy contains p y"
    using f(3) by (auto simp: is_trusted_proxy_def list_all_iff)
  moreover have "tr_client_ip r = canonicalize_ip x"
    using ch(2) f(2) by (simp add: resolve_client_from_chain_def canonicalize_ip_idem)
  ultimately have "?c = Ok (rev post @ x # rev pre) \<and> tr_client_ip r = canonicalize_ip x \<and>
      (\<forall>y\<in>set (rev pre). is_trusted_proxy contains p y)"
    using ch(1) by simp
  moreover have "is_trusted_proxy contains p peer" using tr by (simp add: canonicalize_trusted)
  ultimately show ?thesis using en by blast
qed

text \<open>
  The chain of addresses survives its text: a non-empty list of addresses that is written as
  an \<open>X-Forwarded-For\<close> list, or as the \<open>for\<close> parameters of a \<open>Forwarded\<close> header with quoted
  addresses in brackets, is read back as the same addresses in the same order.
\<close>

lemma forwarded_chain_roundtrip:
  assumes "hops \<noteq> []"
  shows "parse_x_forwarded_for_chain [hop_list hops] = Ok (map canonicalize_ip hops) \<and>
    parse_forwarded_chain [join_str '', '' (map forwarded_element hops)] = Ok (map canonicalize_ip hops)"
  using parse_entries_hops [OF assms] parse_elements_hops [OF assms]
  by (simp add: parse_x_forwarded_for_chain_def parse_forwarded_chain_def)

end
