(* ===== verification/Spec2Isabelle.thy ===== *)
theory Spec2Isabelle
  imports Route_Pool Failure_Management Source_Guards Local_Limits Overload_Management Discovery
    Cache_Keys Cache_Freshness Client_Address
begin

text \<open>
  This library verifies the control logic of the load balancer way-balancer, a layer 4 and
  layer 7 proxy in Rust. Paths are relative to \<open>src/crates\<close>.

  \<^bold>\<open>The program and its model.\<close> A discovery source reports which endpoints a cluster has. The
  reconciler brings the health registry in line with these reports. The health registry keeps the
  endpoint registry and a health record per endpoint, and offers the balancer the endpoints that
  may be used. The balancer picks one of them for a request, and a route pool first picks one
  of several clusters. Retries and the circuit breaker react to failures. Source guards, local
  limits and the overload manager decide beforehand whether a connection or request is admitted.
  For HTTP/1.1 the head of a message is read and checked, the address of the client is found,
  a route is chosen, the headers are rewritten, the body is relayed, and the response may be
  stored in a cache. Each part is a theory:

  \<^item> \<open>LB_Prelude\<close>: fixed-width arithmetic, durations, results, ordered maps (\<open>BTreeMap\<close>), bounded
    logs and runs of a machine. The locale \<open>keyed_store\<close> is the contract of ordered maps and
    \<open>invariant_machine\<close> lifts a one-step invariant to runs.
  \<^item> \<open>Net_Core\<close> (\<open>net-core/src/lib.rs\<close>, \<open>upstream.rs\<close>): addresses, endpoints, clusters, listener
    configuration and the constructors that validate them.
  \<^item> \<open>Endpoint_Registry\<close> (\<open>runtime/src/upstream_registry.rs\<close>): \<open>EndpointRegistry\<close>, with one function
    \<open>reg_...\<close> per method. It refines a map of maps.
  \<^item> \<open>Upstream_Health\<close> (\<open>runtime/src/upstream_health.rs\<close>, events of \<open>observability/src/lib.rs\<close>):
    \<open>UpstreamHealthRegistry\<close>. The topology operations are \<open>uh_...\<close>, the signals are
    \<open>note_passive_failure\<close> and its siblings, and the clock is \<open>advance_time\<close>. The invariant \<open>uh_wf\<close> says that the records cover
    exactly the registered endpoints. Further lemmas bound the ejections and their duration.
  \<^item> \<open>Fair_Share\<close>: the locale \<open>smooth_round_robin\<close>, from whose laws the exact shares of smooth
    weighted round robin follow. It is interpreted twice, for endpoints and for destinations.
  \<^item> \<open>Upstream_Balancer\<close> (\<open>runtime/src/upstream_balancer.rs\<close>, \<open>UpstreamBalancer\<close>): candidates,
    locality, affinity, the three algorithms and \<open>select_endpoint\<close>.
  \<^item> \<open>Route_Pool\<close> (same file, \<open>RouteBackendPool\<close>): single and weighted pools, the order in which
    destinations are tried, signals and metrics.
  \<^item> \<open>Failure_Management\<close> (\<open>runtime/src/failure_management.rs\<close>): retry classification, retry budget
    and circuit breaker. The breaker follows the step relation \<open>breaker_trans\<close>.
  \<^item> \<open>Lease_Table\<close>, \<open>Source_Guards\<close> (\<open>runtime/src/source_guards.rs\<close>) and \<open>Local_Limits\<close>
    (\<open>runtime/src/local_limits.rs\<close>): counted leases per key as a locale, and the connection quota,
    the handshake guard, the concurrency limiter and the rate limiter built on it.
  \<^item> \<open>Overload_Management\<close> (\<open>runtime/src/overload_management.rs\<close>): signal window, state, shedding
    and brown-out.
  \<^item> \<open>Lifecycle\<close> (\<open>runtime/src/lifecycle.rs\<close>, \<open>probe_semantics.rs\<close>, \<open>protocol_protection.rs\<close>): the
    lifecycle machine with the step relation \<open>lifecycle_trans\<close>, probes, protection categories.
  \<^item> \<open>Discovery\<close> (\<open>runtime/src/discovery.rs\<close>): \<open>reconcile_snapshot\<close> and \<open>discovery_advance_time\<close>
    of the membership reconciler, with the invariant \<open>discovery_inv\<close>.
  \<^item> \<open>Text_Ops\<close>, \<open>Ip_Text\<close>, \<open>Ip_Parse\<close>: the string operations, the address printer and the address
    parser of the Rust standard library. Parsing a printed address gives it back.
  \<^item> \<open>Http_Routing\<close> and \<open>Http_Message\<close> (\<open>proto-http/src/lib.rs\<close>): canonical targets and the choice of
    a route; reading, checking, rewriting and writing message heads.
  \<^item> \<open>Http_Body\<close> (\<open>runtime/src/http1_proxy/body_relay.rs\<close>): every function that relays, collects or
    decodes a body.
  \<^item> \<open>Http_Cache\<close>, \<open>Cache_Keys\<close> (\<open>runtime/src/http_cache.rs\<close>, \<open>config-model/src/policy.rs\<close>) and
    \<open>Cache_Freshness\<close> (\<open>runtime/src/http1_proxy/cache_headers_and_freshness.rs\<close>): the bounded store,
    its keys and invalidations, and what may be stored for how long.
  \<^item> \<open>Client_Address\<close> (\<open>runtime/src/trusted_client_ip.rs\<close>): the client behind trusted proxies.

  A method that changes an object is a function that returns its result and the new state; an
  error is a value of a sum type. What the code does under one lock is one step. Concurrent
  callers are sequences of steps, and the invariants hold for every sequence.

  \<^bold>\<open>What is shown.\<close> The properties are numbered \<open>C1\<close> to \<open>C40\<close> in the texts before the theorems.

  \<^item> Selection: only admissible endpoints are selected, one is selected whenever possible, shares are
    exact, sessions stick (\<open>Upstream_Balancer\<close>, \<open>Route_Pool\<close>), and together with discovery only
    endpoints that a source lists get traffic (this theory).
  \<^item> Membership and health: the registries refine their abstract maps, snapshots are applied whole or
    not at all, drain windows and ejections last exactly as long as configured, ejections stay
    within the budget (\<open>Endpoint_Registry\<close>, \<open>Discovery\<close>, \<open>Upstream_Health\<close>).
  \<^item> Protection: breaker, budgets, quotas, limiters and overload states are exact with respect to
    abstract counts of what happened (\<open>Failure_Management\<close>, \<open>Source_Guards\<close>, \<open>Local_Limits\<close>,
    \<open>Overload_Management\<close>).
  \<^item> HTTP: heads are delimited and read independently of the way they arrive, forwarding keeps the
    framing and passes on exactly the end-to-end headers, bodies keep their payload, the most
    specific route wins, canonical targets are fixed points, and a client cannot forge its address
    (\<open>Http_Message\<close>, \<open>Http_Body\<close>, \<open>Http_Routing\<close>, \<open>Client_Address\<close>).
  \<^item> Cache: the store stays within its bounds, serves only the entry last accepted and still valid, and
    never stores what an origin forbids (\<open>Http_Cache\<close>, \<open>Cache_Freshness\<close>).

  Some lemmas show where the code departs from its intention, for instance
  \<open>half_open_probes_stall\<close>, \<open>nominated_framing_is_lost\<close>, \<open>discovery_half_applied_snapshot\<close> and
  \<open>failure_restores_unhealthy_endpoint\<close>.

  \<^bold>\<open>Bounds, fuel and termination.\<close> Integers are natural numbers with saturation or wrap-around written
  out at their width; addresses and hashes are machine words. Loops are structural recursions or
  functions with a termination proof: a head is read until the limit is reached, a fixed-length body
  until nothing remains, an eviction removes an entry in each round. Two functions take fuel.
  Trimming a string takes its length, since each round removes a byte. The order of the destinations of a
  weighted route takes their number, since each round adds a new one. The loops over the chunks of
  a body and up to the end of a connection need not end when the body limit is the largest 64-bit
  number, and are partial functions with the value \<open>None\<close> for a loop that does not end.
  \<open>body_relay_ends\<close> shows that they end for every other limit, whatever the peer does.

  \<^bold>\<open>Parameters.\<close> Code of other packages is an argument of the definitions: the affinity score
  (hash and floating-point logarithm), the hasher of the refresh jitter, the semaphore of the async
  runtime, \<open>httparse\<close>, the address blocks of \<open>ipnet\<close>, header text and dates of the HTTP packages, and the
  connections as read and write operations. A theorem that relies on documented behaviour
  of a parameter has it as a hypothesis, and its witness instantiates it. A write to a connection
  always returns in the model, with a result or an error.

  \<^bold>\<open>Not modelled.\<close> Socket and stream I/O of the TCP, HTTP/1, HTTP/2 and HTTP/3 proxies, TLS and
  hedged requests run on third-party packages and their scheduler. The metric registry, logs and traces are
  output. Token authentication is cryptography. The configuration model apart from the cache policy,
  the admin API, the Kubernetes integration, request classification, emergency protection,
  extensions and the binaries are separate from the parts above and are left out.
\<close>

section \<open>Discovery and balancing together\<close>

text \<open>
  C4. Traffic goes only to endpoints that discovery lists: after any sequence of snapshots
  and clock advances on clusters that are left to discovery, an endpoint the balancer
  selects, with whatever policy, is listed by the last accepted snapshot of some source of
  the cluster, and is used with the address listed there. In particular a draining endpoint
  is never selected.
\<close>

theorem selection_follows_discovery:
  assumes "discovery_ready C r0" and "list_all (discovery_event_typed C) es"
    and "discovery_run grace r0 es = (d, r)" and "latest_view es = (g, v)" and "c \<in> C"
    and "balancer_ok b" and "select_endpoint score r c policy cx b = (Ok s, b')"
  shows "\<exists>src e. src_cluster src = c \<and> v src (se_endpoint_id s) = Some e \<and> se_address s = de_address e \<and>
    \<not> bt_has (c, se_endpoint_id s) (dr_draining_deadlines d)"
proof -
  note inv = discovery_run_inv [OF assms(1-3)]
  have "uh_wf r" using inv by (simp add: discovery_inv_def)
  then obtain ep where ep: "reg_endpoint (uh_registry r) (c, se_endpoint_id s) = Some ep"
    "ep_state ep = StateReady" "se_address s = ep_address ep"
    using selected_endpoint_facts [OF _ assms(6,7)] by blast
  have "advertised d (c, se_endpoint_id s) \<noteq> {} \<and> \<not> bt_has (c, se_endpoint_id s) (dr_draining_deadlines d) \<and>
      ep \<in> ready_endpoint ` advertised d (c, se_endpoint_id s)"
    using discovery_inv_slot [OF inv assms(5), of "se_endpoint_id s"] ep by (auto simp: slot_ok_def split: if_splits)
  then obtain src e where "src_cluster src = c" "snd (view_of d) src (se_endpoint_id s) = Some e" "ep = ready_endpoint e"
    "\<not> bt_has (c, se_endpoint_id s) (dr_draining_deadlines d)"
    unfolding image_iff Bex_def advertised_view by blast
  moreover have "v = snd (view_of d)" using discovery_run_view [OF assms(1-3)] assms(4) by simp
  moreover have "ep_address (ready_endpoint e) = de_address e" by (simp add: ready_endpoint_def)
  ultimately show ?thesis using ep(3) by metis
qed

definition discovered_pick :: "(selected_endpoint, upstream_selection_error) result \<times> upstream_balancer" where
  "discovered_pick = select_endpoint sample_score
     (snd (discovery_run (secs 10) empty_cluster_registry sample_discovery_events)) ''c'' selection_policy_default
     \<lparr>sx_preferred_locality = None, sx_preferred_zone = None, sx_affinity_key = None, sx_request_hash = 0\<rparr>
     balancer_new"

lemma discovered_pick_Ok: "\<exists>s b. discovered_pick = (Ok s, b) \<and> se_endpoint_id s = ''a''"
proof -
  have "(case fst discovered_pick of Inr s \<Rightarrow> se_endpoint_id s = ''a'' | Inl _ \<Rightarrow> False)"
    by code_simp
  then show ?thesis by (cases "fst discovered_pick") (auto intro: prod.collapse [symmetric, THEN trans])
qed

theorem selection_follows_discovery_witness:
  "\<exists>s b src e. discovered_pick = (Ok s, b) \<and> se_endpoint_id s = ''a'' \<and> src_cluster src = ''c'' \<and>
     snd (latest_view sample_discovery_events) src ''a'' = Some e \<and> se_address s = de_address e"
proof -
  obtain s b where s: "discovered_pick = (Ok s, b)" "se_endpoint_id s = ''a''"
    using discovered_pick_Ok by blast
  obtain d r where dr: "discovery_run (secs 10) empty_cluster_registry sample_discovery_events = (d, r)" by fastforce
  obtain g v where gv: "latest_view sample_discovery_events = (g, v)" by fastforce
  have "\<exists>src e. src_cluster src = ''c'' \<and> v src (se_endpoint_id s) = Some e \<and> se_address s = de_address e \<and>
      \<not> bt_has (''c'', se_endpoint_id s) (dr_draining_deadlines d)"
    by (rule selection_follows_discovery [OF empty_cluster_ready sample_events_typed dr gv _ balancer_new_ok])
      (use s(1) in \<open>simp_all add: discovered_pick_def dr\<close>)
  with s gv show ?thesis by auto
qed

end
